(* ===== verification/Prelude.thy ===== *)
theory Prelude
  imports Main "HOL-Library.Word" "HOL-Library.Sublist"
begin

text \<open>
  Shared vocabulary of the development: the faults a Tokamak process can end with, the result
  type that carries them, sequencing and folding over results, a small total-correctness
  calculus (\<open>ok\<close>) for proving that a computation does not fault, and the list facts the
  components share.

  A computation that ends the process (\<open>tokamak::panic\<close>, a failed \<open>assert\<close>, an
  uncaught standard-library exception, undefined behaviour) is the value \<open>Inl fault\<close>;
  a computation that returns is \<open>Inr\<close> of what it returns.
\<close>

section \<open>Faults and results\<close>

datatype fault =
    Panic string              \<comment> \<open>tokamak::panic: message, then abort\<close>
  | AssertionFailed string    \<comment> \<open>assert() in a build without NDEBUG\<close>
  | OutOfRange string         \<comment> \<open>std::out_of_range thrown by a container's at()\<close>
  | BadAccess string          \<comment> \<open>undefined behaviour: an index or pointer outside its container\<close>

type_synonym 'a res = "fault + 'a"

type_synonym uint32 = "32 word"
type_synonym uint64 = "64 word"

definition panic :: "string \<Rightarrow> 'a res" where
  "panic message = Inl (Panic message)"

definition bnd :: "'a res \<Rightarrow> ('a \<Rightarrow> 'b res) \<Rightarrow> 'b res" where
  "bnd m f = (case m of Inl e \<Rightarrow> Inl e | Inr x \<Rightarrow> f x)"

fun fold_res :: "('a \<Rightarrow> 's \<Rightarrow> 's res) \<Rightarrow> 'a list \<Rightarrow> 's \<Rightarrow> 's res" where
  "fold_res f [] s = Inr s"
| "fold_res f (x # xs) s = bnd (f x s) (fold_res f xs)"

fun map_res :: "('a \<Rightarrow> 'b res) \<Rightarrow> 'a list \<Rightarrow> 'b list res" where
  "map_res f [] = Inr []"
| "map_res f (x # xs) = bnd (f x) (\<lambda>y. bnd (map_res f xs) (\<lambda>ys. Inr (y # ys)))"

lemma bnd_simps [simp]:
  shows bnd_Inl: "bnd (Inl e) f = Inl e"
    and bnd_Inr: "bnd (Inr x) f = f x"
  by (simp_all add: bnd_def)

lemma bnd_eq_Inr: "bnd m f = Inr y \<longleftrightarrow> (\<exists>x. m = Inr x \<and> f x = Inr y)"
  by (cases m) auto

lemma bnd_assoc: "bnd (bnd m f) g = bnd m (\<lambda>x. bnd (f x) g)"
  by (cases m) auto

lemma bnd_cong [fundef_cong]:
  "m = m' \<Longrightarrow> (\<And>x. m' = Inr x \<Longrightarrow> f x = f' x) \<Longrightarrow> bnd m f = bnd m' f'"
  by (cases m') auto

section \<open>Total correctness of results\<close>

text \<open>\<open>ok m P\<close>: the computation \<open>m\<close> returns, and what it returns satisfies \<open>P\<close>.\<close>

definition ok :: "'a res \<Rightarrow> ('a \<Rightarrow> bool) \<Rightarrow> bool" where
  "ok m P = (case m of Inl e \<Rightarrow> False | Inr x \<Rightarrow> P x)"

lemma ok_simps [simp]:
  shows ok_Inl: "ok (Inl e) P = False"
    and ok_Inr: "ok (Inr x) P = P x"
  by (simp_all add: ok_def)

lemma ok_panic [simp]: "ok (panic msg) P = False"
  by (simp add: panic_def)

lemma ok_iff: "ok m P \<longleftrightarrow> (\<exists>x. m = Inr x \<and> P x)"
  by (cases m) auto

lemma ok_bnd [simp]: "ok (bnd m f) P = ok m (\<lambda>x. ok (f x) P)"
  by (cases m) auto

lemma ok_mono: "ok m P \<Longrightarrow> (\<And>x. m = Inr x \<Longrightarrow> P x \<Longrightarrow> Q x) \<Longrightarrow> ok m Q"
  by (cases m) auto

lemma ok_InrD: "ok m P \<Longrightarrow> m = Inr x \<Longrightarrow> P x"
  by simp

text \<open>\<open>faults m e\<close>: the computation ends the process with fault \<open>e\<close>; it needs no equality on results.\<close>

definition faults :: "'a res \<Rightarrow> fault \<Rightarrow> bool" where
  "faults m e = (case m of Inl e' \<Rightarrow> e' = e | Inr x \<Rightarrow> False)"

lemma faults_iff: "m = Inl e \<longleftrightarrow> faults m e"
  by (cases m) (auto simp: faults_def)

lemma ok_fold_res:
  assumes step: "\<And>x xs s. I (x # xs) s \<Longrightarrow> ok (f x s) (I xs)"
    and start: "I xs s"
  shows "ok (fold_res f xs s) (I [])"
  using start
proof (induction xs arbitrary: s)
  case Nil
  then show ?case by simp
next
  case (Cons x xs)
  from step [OF Cons.prems] show ?case
    by (auto simp: ok_iff dest: Cons.IH)
qed

lemma map_res_Inr: "(\<And>x. x \<in> set xs \<Longrightarrow> f x = Inr (g x)) \<Longrightarrow> map_res f xs = Inr (map g xs)"
  by (induction xs) auto

section \<open>Lists\<close>

lemma remove1_eq_removeAll: "distinct xs \<Longrightarrow> remove1 x xs = removeAll x xs"
  by (induction xs) auto

lemma remove1_filter_distinct: "distinct xs \<Longrightarrow> remove1 x xs = filter (\<lambda>y. y \<noteq> x) xs"
  by (induction xs) (auto intro: filter_True [symmetric])

lemma subseq_subset: "subseq xs ys \<Longrightarrow> set xs \<subseteq> set ys"
  by (auto simp: subseq_conv_nths dest: in_set_nthsD)

lemma subseq_distinctD: "subseq xs ys \<Longrightarrow> distinct ys \<Longrightarrow> distinct xs"
  by (auto simp: subseq_conv_nths)

section \<open>Text\<close>

text \<open>The lines \<open>std::getline\<close> reads from a text; a last line need not end in a newline.\<close>

fun getlines :: "string \<Rightarrow> string list" where
  "getlines [] = []"
| "getlines (c # cs) =
     (if c = CHR 0x0A then [] # getlines cs
      else case getlines cs of [] \<Rightarrow> [[c]] | l # ls \<Rightarrow> (c # l) # ls)"

lemma getlines_line:
  "CHR 0x0A \<notin> set l \<Longrightarrow> getlines (l @ CHR 0x0A # rest) = l # getlines rest"
  by (induction l) auto

lemma getlines_last: "l \<noteq> [] \<Longrightarrow> CHR 0x0A \<notin> set l \<Longrightarrow> getlines l = [l]"
proof (induction l)
  case (Cons c l)
  then show ?case by (cases l) auto
qed simp

text \<open>\<open>std::to_string\<close> of an unsigned number.\<close>

fun to_string_nat :: "nat \<Rightarrow> string" where
  "to_string_nat n =
     (if n < 10 then [char_of (48 + n)] else to_string_nat (n div 10) @ [char_of (48 + n mod 10)])"

declare to_string_nat.simps [simp del]

end
