(* ===== verification/Clock.thy ===== *)
theory Clock
  imports Prelude
begin

text \<open>
  The clock of \<open>include/tokamak/common/clock.h\<close> and \<open>src/common/clock.cpp\<close>. A time point and a
  duration are counts of nanoseconds, kept as integers (the program's 64-bit counts hold 292
  years). \<open>FakeClock\<close> moves only through \<open>advance\<close>, whose assertion on a negative
  duration is a fault. \<open>SystemClock\<close> is the operating system's steady clock: its readings
  are inputs of the operations that take them.
\<close>

type_synonym TimePoint = int
type_synonym Duration = int

record FakeClock =
  current :: TimePoint

definition FakeClock_new :: "TimePoint \<Rightarrow> FakeClock" where
  "FakeClock_new start = \<lparr>current = start\<rparr>"

definition fake_now :: "FakeClock \<Rightarrow> TimePoint" where
  "fake_now c = current c"

definition advance :: "Duration \<Rightarrow> FakeClock \<Rightarrow> FakeClock res" where
  "advance d c =
     (if d \<ge> 0 then Inr (c\<lparr>current := current c + d\<rparr>)
      else Inl (AssertionFailed ''Fake must advance monotonically (non-negative duration''))"

text \<open>\<open>std::chrono::milliseconds(n)\<close> as a duration in nanoseconds.\<close>

definition ms :: "int \<Rightarrow> Duration" where
  "ms n = n * 1000000"

lemma ok_advance: "0 \<le> d \<Longrightarrow> ok (advance d c) (\<lambda>c'. current c' = current c + d)"
  by (simp add: advance_def)

lemma advance_iff: "advance d c = Inr c' \<longleftrightarrow> 0 \<le> d \<and> c' = c\<lparr>current := current c + d\<rparr>"
  by (auto simp: advance_def)

end
