(* ===== verification/Lifecycle.thy ===== *)
theory Lifecycle
  imports Clock
begin

text \<open>
  The request state machine of \<open>include/tokamak/request/state.h\<close> and
  \<open>src/request/state.cpp\<close>: the states, the transition table, and \<open>RequestLifecycle\<close> with its
  milestone and per-state timestamps. Operations that read the clock take the reading as their
  first argument; an illegal transition is a panic.
\<close>

section \<open>States and the transition table\<close>

datatype RequestState =
    kReceived | kAdmitted | kWaitingPrefill | kPrefilling | kWaitingDecode
  | kDecoding | kCompleted | kRejected | kCancelled | kFailed

fun RequestState_to_string :: "RequestState \<Rightarrow> string" where
  "RequestState_to_string kReceived = ''Received''"
| "RequestState_to_string kAdmitted = ''Admitted''"
| "RequestState_to_string kWaitingPrefill = ''WaitingPrefill''"
| "RequestState_to_string kPrefilling = ''Prefilling''"
| "RequestState_to_string kWaitingDecode = ''WaitingDecode''"
| "RequestState_to_string kDecoding = ''Decoding''"
| "RequestState_to_string kCompleted = ''Completed''"
| "RequestState_to_string kRejected = ''Rejected''"
| "RequestState_to_string kCancelled = ''Cancelled''"
| "RequestState_to_string kFailed = ''Failed''"

fun is_terminal :: "RequestState \<Rightarrow> bool" where
  "is_terminal kCompleted = True"
| "is_terminal kRejected = True"
| "is_terminal kCancelled = True"
| "is_terminal kFailed = True"
| "is_terminal _ = False"

fun is_valid_transition :: "RequestState \<Rightarrow> RequestState \<Rightarrow> bool" where
  "is_valid_transition kReceived to = (to = kAdmitted \<or> to = kRejected \<or> to = kCancelled)"
| "is_valid_transition kAdmitted to = (to = kWaitingPrefill \<or> to = kCancelled)"
| "is_valid_transition kWaitingPrefill to = (to = kPrefilling \<or> to = kCancelled)"
| "is_valid_transition kPrefilling to = (to = kWaitingDecode \<or> to = kFailed \<or> to = kCancelled)"
| "is_valid_transition kWaitingDecode to = (to = kDecoding \<or> to = kCancelled)"
| "is_valid_transition kDecoding to = (to = kCompleted \<or> to = kFailed \<or> to = kCancelled)"
| "is_valid_transition kCompleted to = False"
| "is_valid_transition kRejected to = False"
| "is_valid_transition kCancelled to = False"
| "is_valid_transition kFailed to = False"

section \<open>The lifecycle object\<close>

record RequestLifecycle =
  lc_state :: RequestState
  lc_entered_at :: TimePoint
  lc_admitted_at :: "TimePoint option"
  lc_first_token_at :: "TimePoint option"
  lc_completed_at :: "TimePoint option"
  lc_state_entered_at :: "RequestState \<rightharpoonup> TimePoint"

definition RequestLifecycle_new :: "TimePoint \<Rightarrow> RequestLifecycle" where
  "RequestLifecycle_new now =
     \<lparr>lc_state = kReceived, lc_entered_at = now, lc_admitted_at = None,
      lc_first_token_at = None, lc_completed_at = None, lc_state_entered_at = Map.empty\<rparr>"

definition transition_to :: "TimePoint \<Rightarrow> RequestState \<Rightarrow> RequestLifecycle \<Rightarrow> RequestLifecycle res" where
  "transition_to now to l =
     (if \<not> is_valid_transition (lc_state l) to
      then panic ''illegal request statet transition attempted''
      else
        (let l1 = l\<lparr>lc_state := to, lc_entered_at := now,
                    lc_state_entered_at := (lc_state_entered_at l)(to \<mapsto> now)\<rparr>
         in case to of
              kAdmitted \<Rightarrow> Inr (l1\<lparr>lc_admitted_at := Some now\<rparr>)
            | kCompleted \<Rightarrow> Inr (l1\<lparr>lc_completed_at := Some now\<rparr>)
            | _ \<Rightarrow> Inr l1))"

definition lifecycle_cancel :: "TimePoint \<Rightarrow> RequestLifecycle \<Rightarrow> RequestLifecycle res" where
  "lifecycle_cancel now l =
     (if is_terminal (lc_state l) then Inr l else transition_to now kCancelled l)"

definition record_first_token :: "TimePoint \<Rightarrow> RequestLifecycle \<Rightarrow> RequestLifecycle res" where
  "record_first_token now l =
     (if lc_state l \<noteq> kDecoding
      then panic ''record_first_token() called outside Decoding state.''
      else if lc_first_token_at l = None then Inr (l\<lparr>lc_first_token_at := Some now\<rparr>)
      else Inr l)"

definition entered_at :: "RequestLifecycle \<Rightarrow> RequestState \<Rightarrow> TimePoint option" where
  "entered_at l s = lc_state_entered_at l s"

text \<open>The enum's values, so that statements over all states are decided by evaluation.\<close>

instantiation RequestState :: enum
begin

definition enum_RequestState :: "RequestState list" where
  "enum_RequestState =
     [kReceived, kAdmitted, kWaitingPrefill, kPrefilling, kWaitingDecode,
      kDecoding, kCompleted, kRejected, kCancelled, kFailed]"

definition enum_all_RequestState :: "(RequestState \<Rightarrow> bool) \<Rightarrow> bool" where
  "enum_all_RequestState P \<longleftrightarrow> list_all P enum_class.enum"

definition enum_ex_RequestState :: "(RequestState \<Rightarrow> bool) \<Rightarrow> bool" where
  "enum_ex_RequestState P \<longleftrightarrow> list_ex P enum_class.enum"

instance
proof
  have mem: "s \<in> set enum_class.enum" for s :: RequestState
    by (cases s) (simp_all add: enum_RequestState_def)
  then show "UNIV = set (enum_class.enum :: RequestState list)" by blast
  show "distinct (enum_class.enum :: RequestState list)"
    by (simp add: enum_RequestState_def)
  show "enum_class.enum_all P \<longleftrightarrow> Ball UNIV P" for P :: "RequestState \<Rightarrow> bool"
    using mem by (auto simp: enum_all_RequestState_def list_all_iff)
  show "enum_class.enum_ex P \<longleftrightarrow> Bex UNIV P" for P :: "RequestState \<Rightarrow> bool"
    using mem by (auto simp: enum_ex_RequestState_def list_ex_iff)
qed

end

section \<open>Specification: stages, ranks and reachable lifecycles\<close>

text \<open>The position of a state on the way to a terminal state.\<close>

fun rank :: "RequestState \<Rightarrow> nat" where
  "rank kReceived = 0"
| "rank kAdmitted = 1"
| "rank kWaitingPrefill = 2"
| "rank kPrefilling = 3"
| "rank kWaitingDecode = 4"
| "rank kDecoding = 5"
| "rank _ = 6"

text \<open>The stage a state can only be entered from, where there is just one.\<close>

fun stage_before :: "RequestState \<Rightarrow> RequestState option" where
  "stage_before kWaitingPrefill = Some kAdmitted"
| "stage_before kPrefilling = Some kWaitingPrefill"
| "stage_before kWaitingDecode = Some kPrefilling"
| "stage_before kDecoding = Some kWaitingDecode"
| "stage_before kCompleted = Some kDecoding"
| "stage_before _ = None"

text \<open>
  The lifecycles the class's own operations can produce, with the reading of the last clock
  access; successive readings of a steady clock never decrease.
\<close>

inductive lifecycle_reach :: "TimePoint \<Rightarrow> RequestLifecycle \<Rightarrow> bool" where
  lr_new: "lifecycle_reach t (RequestLifecycle_new t)"
| lr_transition: "lifecycle_reach t l \<Longrightarrow> t \<le> t' \<Longrightarrow> transition_to t' to l = Inr l' \<Longrightarrow>
    lifecycle_reach t' l'"
| lr_cancel: "lifecycle_reach t l \<Longrightarrow> t \<le> t' \<Longrightarrow> lifecycle_cancel t' l = Inr l' \<Longrightarrow>
    lifecycle_reach t' l'"
| lr_first_token: "lifecycle_reach t l \<Longrightarrow> t \<le> t' \<Longrightarrow> record_first_token t' l = Inr l' \<Longrightarrow>
    lifecycle_reach t' l'"
| lr_later: "lifecycle_reach t l \<Longrightarrow> t \<le> t' \<Longrightarrow> lifecycle_reach t' l"

text \<open>
  The invariant of a reachable lifecycle, in three parts: the milestone fields agree with the
  per-state history; the history is the past of the current state, ordered in time by rank and
  with no stage skipped; the first-token mark lies inside the time spent decoding.
\<close>

definition lc_marks_inv :: "RequestLifecycle \<Rightarrow> bool" where
  "lc_marks_inv l \<longleftrightarrow>
     lc_admitted_at l = lc_state_entered_at l kAdmitted \<and>
     lc_completed_at l = lc_state_entered_at l kCompleted \<and>
     lc_state_entered_at l kReceived = None \<and>
     (lc_state l \<noteq> kReceived \<longrightarrow> lc_state_entered_at l (lc_state l) = Some (lc_entered_at l))"

definition lc_history_inv :: "RequestLifecycle \<Rightarrow> bool" where
  "lc_history_inv l \<longleftrightarrow>
     (\<forall>s u. lc_state_entered_at l s = Some u \<longrightarrow>
        u \<le> lc_entered_at l \<and> (s = lc_state l \<or> rank s < rank (lc_state l))) \<and>
     (\<forall>s s' u u'. lc_state_entered_at l s = Some u \<longrightarrow> lc_state_entered_at l s' = Some u' \<longrightarrow>
        rank s < rank s' \<longrightarrow> u \<le> u') \<and>
     (\<forall>s p. lc_state_entered_at l s \<noteq> None \<longrightarrow> stage_before s = Some p \<longrightarrow>
        lc_state_entered_at l p \<noteq> None)"

definition lc_token_inv :: "TimePoint \<Rightarrow> RequestLifecycle \<Rightarrow> bool" where
  "lc_token_inv t l \<longleftrightarrow>
     lc_entered_at l \<le> t \<and>
     (\<forall>f. lc_first_token_at l = Some f \<longrightarrow>
        f \<le> t \<and> (\<exists>d. lc_state_entered_at l kDecoding = Some d \<and> d \<le> f) \<and>
        (lc_state l = kDecoding \<or> is_terminal (lc_state l) \<and> f \<le> lc_entered_at l))"

definition lc_inv :: "TimePoint \<Rightarrow> RequestLifecycle \<Rightarrow> bool" where
  "lc_inv t l \<longleftrightarrow> lc_marks_inv l \<and> lc_history_inv l \<and> lc_token_inv t l"

section \<open>Facts about the table\<close>

lemma valid_transition_rank: "is_valid_transition s s' \<Longrightarrow> rank s < rank s'"
  by (cases s; cases s') auto

lemma valid_transition_stage:
  "is_valid_transition s s' \<Longrightarrow> stage_before s' = Some p \<Longrightarrow> s = p"
  by (cases s; cases s') auto

lemma terminal_no_transition: "is_terminal s \<Longrightarrow> \<not> is_valid_transition s s'"
  by (cases s) auto

lemma valid_transition_nonterminal: "is_valid_transition s s' \<Longrightarrow> \<not> is_terminal s"
  using terminal_no_transition by blast

lemma cancel_edge: "\<not> is_terminal s \<Longrightarrow> is_valid_transition s kCancelled"
  by (cases s) auto

lemma not_valid_from_to_Received: "\<not> is_valid_transition s kReceived"
  by (cases s) auto

lemma rank_max: "rank s \<le> 6"
  by (cases s) auto

lemma terminal_rank: "is_terminal s \<longleftrightarrow> rank s = 6"
  by (cases s) auto

lemma valid_path_rank: "is_valid_transition\<^sup>+\<^sup>+ s s' \<Longrightarrow> rank s < rank s'"
  by (induction rule: tranclp_induct) (auto dest: valid_transition_rank)

section \<open>Facts about the operations\<close>

lemma ok_transition_to:
  "ok (transition_to t to l) P \<longleftrightarrow>
     is_valid_transition (lc_state l) to \<and>
     P (l\<lparr>lc_state := to, lc_entered_at := t,
          lc_state_entered_at := (lc_state_entered_at l)(to \<mapsto> t),
          lc_admitted_at := (if to = kAdmitted then Some t else lc_admitted_at l),
          lc_completed_at := (if to = kCompleted then Some t else lc_completed_at l)\<rparr>)"
  by (cases to) (auto simp: transition_to_def Let_def)

lemma transition_to_Inr:
  "transition_to t to l = Inr l' \<longleftrightarrow>
     is_valid_transition (lc_state l) to \<and>
     l' = l\<lparr>lc_state := to, lc_entered_at := t,
            lc_state_entered_at := (lc_state_entered_at l)(to \<mapsto> t),
            lc_admitted_at := (if to = kAdmitted then Some t else lc_admitted_at l),
            lc_completed_at := (if to = kCompleted then Some t else lc_completed_at l)\<rparr>"
  by (cases to) (auto simp: transition_to_def panic_def Let_def)

lemmas lc_inv_defs = lc_inv_def lc_marks_inv_def lc_history_inv_def lc_token_inv_def

lemma lc_inv_new: "lc_inv t (RequestLifecycle_new t)"
  by (simp add: lc_inv_defs RequestLifecycle_new_def)

lemma lc_inv_later: "lc_inv t l \<Longrightarrow> t \<le> t' \<Longrightarrow> lc_inv t' l"
  unfolding lc_inv_def lc_token_inv_def by (meson order_trans)

lemma lc_history_past:
  assumes "lc_history_inv l" "lc_state_entered_at l s = Some u"
  shows "u \<le> lc_entered_at l" and "s = lc_state l \<or> rank s < rank (lc_state l)"
  using assms unfolding lc_history_inv_def by blast+

lemma lc_history_order:
  "lc_history_inv l \<Longrightarrow> lc_state_entered_at l s = Some u \<Longrightarrow> lc_state_entered_at l s' = Some u' \<Longrightarrow>
   rank s < rank s' \<Longrightarrow> u \<le> u'"
  unfolding lc_history_inv_def by blast

lemma lc_history_stage:
  "lc_history_inv l \<Longrightarrow> lc_state_entered_at l s \<noteq> None \<Longrightarrow> stage_before s = Some p \<Longrightarrow>
   lc_state_entered_at l p \<noteq> None"
  unfolding lc_history_inv_def by blast

lemma lc_marks_inv_transition:
  "lc_marks_inv l \<Longrightarrow> transition_to t to l = Inr l' \<Longrightarrow> lc_marks_inv l'"
  using not_valid_from_to_Received
  by (auto simp: lc_marks_inv_def transition_to_Inr)

lemma lc_history_inv_transition:
  assumes "lc_marks_inv l" "lc_history_inv l" "lc_entered_at l \<le> t"
    and tr: "transition_to t to l = Inr l'"
  shows "lc_history_inv l'"
proof -
  let ?h = "lc_state_entered_at l"
  have v: "is_valid_transition (lc_state l) to"
    and l': "lc_state l' = to" "lc_entered_at l' = t" "lc_state_entered_at l' = ?h(to \<mapsto> t)"
    using tr by (auto simp: transition_to_Inr)
  have past: "u \<le> t \<and> rank s < rank to" if "?h s = Some u" for s u
    using lc_history_past [OF assms(2) that] assms(3) valid_transition_rank [OF v] by auto
  have stage: "?h p \<noteq> None" if "stage_before to = Some p" for p
  proof -
    have p: "p = lc_state l" using valid_transition_stage [OF v that] by simp
    then have "p \<noteq> kReceived" using that by (cases to) auto
    then show ?thesis using p assms(1) by (simp add: lc_marks_inv_def)
  qed
  show ?thesis
    using assms(2) past stage unfolding lc_history_inv_def l'
    by (auto dest: less_asym split: if_splits)
qed

lemma lc_token_inv_transition:
  assumes "lc_token_inv t0 l" "t0 \<le> t" and tr: "transition_to t to l = Inr l'"
  shows "lc_token_inv t l'"
proof -
  have v: "is_valid_transition (lc_state l) to" using tr by (simp add: transition_to_Inr)
  have dec: "lc_state l = kDecoding" if "lc_first_token_at l \<noteq> None"
    using that assms(1) valid_transition_nonterminal [OF v] by (auto simp: lc_token_inv_def)
  have "to \<noteq> kDecoding \<and> is_terminal to" if "lc_state l = kDecoding"
    using v that by (cases to) auto
  then show ?thesis
    using assms dec by (auto simp: lc_token_inv_def transition_to_Inr)
qed

lemma lc_inv_transition:
  "lc_inv t l \<Longrightarrow> t \<le> t' \<Longrightarrow> transition_to t' to l = Inr l' \<Longrightarrow> lc_inv t' l'"
  unfolding lc_inv_def
  by (meson lc_marks_inv_transition lc_history_inv_transition lc_token_inv_transition
      lc_token_inv_def order_trans)

lemma lc_inv_cancel:
  "lc_inv t l \<Longrightarrow> t \<le> t' \<Longrightarrow> lifecycle_cancel t' l = Inr l' \<Longrightarrow> lc_inv t' l'"
  by (auto simp: lifecycle_cancel_def intro: lc_inv_later lc_inv_transition split: if_splits)

lemma record_first_token_Inr:
  "record_first_token t l = Inr l' \<longleftrightarrow>
     lc_state l = kDecoding \<and>
     l' = l\<lparr>lc_first_token_at := (case lc_first_token_at l of None \<Rightarrow> Some t | Some f \<Rightarrow> Some f)\<rparr>"
  by (cases "lc_first_token_at l") (auto simp: record_first_token_def panic_def)

lemma lc_inv_first_token:
  assumes "lc_inv t l" "t \<le> t'" "record_first_token t' l = Inr l'"
  shows "lc_inv t' l'"
proof -
  have "lc_state l = kDecoding" using assms(3) by (simp add: record_first_token_Inr)
  moreover have "lc_marks_inv l'" "lc_history_inv l'"
    using assms(1,3) by (auto simp: lc_inv_defs record_first_token_Inr)
  ultimately show ?thesis
    using assms by (auto simp: lc_inv_def lc_token_inv_def lc_marks_inv_def record_first_token_Inr
        split: option.splits)
qed

lemma lifecycle_reach_inv: "lifecycle_reach t l \<Longrightarrow> lc_inv t l"
  by (induction rule: lifecycle_reach.induct)
    (auto intro: lc_inv_new lc_inv_transition lc_inv_cancel lc_inv_first_token lc_inv_later)

lemma lc_inv_milestones:
  assumes "lc_inv t l" and f: "lc_first_token_at l = Some f"
  shows "\<exists>a. lc_admitted_at l = Some a \<and> a \<le> f"
    and "lc_completed_at l = Some c \<Longrightarrow> f \<le> c"
    and "f \<le> t"
proof -
  have hist: "lc_history_inv l" and marks: "lc_marks_inv l" and tok: "lc_token_inv t l"
    using assms(1) by (auto simp: lc_inv_def)
  obtain d where d: "lc_state_entered_at l kDecoding = Some d" "d \<le> f"
    using tok f by (auto simp: lc_token_inv_def)
  note visited = lc_history_stage [OF hist]
  have "lc_state_entered_at l kWaitingDecode \<noteq> None" by (rule visited [of kDecoding]) (simp_all add: d)
  then have "lc_state_entered_at l kPrefilling \<noteq> None" by (rule visited) simp
  then have "lc_state_entered_at l kWaitingPrefill \<noteq> None" by (rule visited) simp
  then have "lc_state_entered_at l kAdmitted \<noteq> None" by (rule visited) simp
  then obtain a where a: "lc_state_entered_at l kAdmitted = Some a" by blast
  then have "a \<le> d" using lc_history_order [OF hist _ d(1)] by simp
  then show "\<exists>a. lc_admitted_at l = Some a \<and> a \<le> f"
    using a d(2) marks by (auto simp: lc_marks_inv_def)
  show "f \<le> t" using tok f by (simp add: lc_token_inv_def)
  assume c: "lc_completed_at l = Some c"
  then have "lc_state_entered_at l kCompleted = Some c" using marks by (simp add: lc_marks_inv_def)
  then have "lc_state l = kCompleted"
    using lc_history_past(2) [OF hist] rank_max [of "lc_state l"] by fastforce
  then show "f \<le> c"
    using tok f c marks by (auto simp: lc_token_inv_def lc_marks_inv_def)
qed

lemma lc_inv_admitted_le_completed:
  assumes "lc_inv t l" "lc_admitted_at l = Some a" "lc_completed_at l = Some c"
  shows "a \<le> c"
  using assms lc_history_order [of l kAdmitted a kCompleted c]
  by (simp add: lc_inv_def lc_marks_inv_def)

section \<open>Properties of the state machine\<close>

text \<open>
  C26 (the transition table). The terminal states are exactly the states without an outgoing
  edge, every other state can be cancelled, and no state can be entered twice: a lifecycle makes
  at most six transitions.
\<close>

theorem transition_table_sound:
  "(is_terminal s \<longleftrightarrow> (\<forall>s'. \<not> is_valid_transition s s')) \<and>
   (\<not> is_terminal s \<longleftrightarrow> is_valid_transition s kCancelled) \<and>
   \<not> is_valid_transition\<^sup>+\<^sup>+ s s \<and>
   (\<nexists>s'. (is_valid_transition ^^ 7) s s')"
proof -
  have len: "rank s + n \<le> rank s'" if "(is_valid_transition ^^ n) s s'" for n s'
    using that
  proof (induction n arbitrary: s')
    case (Suc n)
    then obtain s1 where "rank s + n \<le> rank s1" "is_valid_transition s1 s'" by auto
    then show ?case using valid_transition_rank by fastforce
  qed simp
  have "\<nexists>s'. (is_valid_transition ^^ 7) s s'"
  proof
    assume "\<exists>s'. (is_valid_transition ^^ 7) s s'"
    then obtain s' where "rank s + 7 \<le> rank s'" using len by blast
    then show False using rank_max [of s'] by linarith
  qed
  then show ?thesis
    using terminal_no_transition [of s] cancel_edge [of s] valid_path_rank [of s s] by blast
qed

text \<open>
  C25 (milestones in order). In every lifecycle the class's operations can produce, with a clock
  that does not run backwards, a recorded first token comes after admission and before
  completion; a completed request has entered every stage, and the entry times of its stages
  follow the order of the stages.
\<close>

theorem lifecycle_milestones_ordered:
  assumes "lifecycle_reach t l"
  shows "(\<forall>f. lc_first_token_at l = Some f \<longrightarrow>
      f \<le> t \<and> (\<exists>a. lc_admitted_at l = Some a \<and> a \<le> f) \<and>
      (\<forall>c. lc_completed_at l = Some c \<longrightarrow> f \<le> c)) \<and>
    (\<forall>s s' u u'. entered_at l s = Some u \<and> entered_at l s' = Some u' \<and> rank s < rank s' \<longrightarrow> u \<le> u') \<and>
    (lc_completed_at l \<noteq> None \<longrightarrow>
      lc_state l = kCompleted \<and>
      (\<forall>s \<in> {kAdmitted, kWaitingPrefill, kPrefilling, kWaitingDecode, kDecoding, kCompleted}.
         entered_at l s \<noteq> None))"
proof -
  note inv = lifecycle_reach_inv [OF assms]
  have hist: "lc_history_inv l" and marks: "lc_marks_inv l" using inv by (auto simp: lc_inv_def)
  note visited = lc_history_stage [OF hist]
  have "lc_state l = kCompleted \<and> (\<forall>s \<in> {kAdmitted, kWaitingPrefill, kPrefilling, kWaitingDecode,
      kDecoding, kCompleted}. entered_at l s \<noteq> None)" if "lc_completed_at l \<noteq> None"
  proof -
    have c: "lc_state_entered_at l kCompleted \<noteq> None" using that marks by (simp add: lc_marks_inv_def)
    moreover from c have d: "lc_state_entered_at l kDecoding \<noteq> None" by (rule visited) simp
    moreover from d have wd: "lc_state_entered_at l kWaitingDecode \<noteq> None" by (rule visited) simp
    moreover from wd have pf: "lc_state_entered_at l kPrefilling \<noteq> None" by (rule visited) simp
    moreover from pf have wp: "lc_state_entered_at l kWaitingPrefill \<noteq> None" by (rule visited) simp
    moreover from wp have "lc_state_entered_at l kAdmitted \<noteq> None" by (rule visited) simp
    moreover have "lc_state l = kCompleted"
      using c lc_history_past(2) [OF hist, of kCompleted] rank_max [of "lc_state l"] by fastforce
    ultimately show ?thesis by (simp add: entered_at_def)
  qed
  then show ?thesis
    using lc_inv_milestones [OF inv] lc_history_order [OF hist] by (auto simp: entered_at_def)
qed

lemma lr_step:
  assumes "lifecycle_reach t l" "t \<le> t'" "is_valid_transition (lc_state l) to"
  shows "lifecycle_reach t' (projr (transition_to t' to l))"
proof -
  have "transition_to t' to l = Inr (projr (transition_to t' to l))"
    using assms(3) ok_transition_to [of t' to l "\<lambda>_. True"] by (auto simp: ok_iff)
  then show ?thesis by (rule lr_transition [OF assms(1,2)])
qed

definition demo_decoding :: RequestLifecycle where
  "demo_decoding = foldl (\<lambda>l (t, s). projr (transition_to t s l)) (RequestLifecycle_new 0)
     [(1, kAdmitted), (2, kWaitingPrefill), (3, kPrefilling), (4, kWaitingDecode), (5, kDecoding)]"

lemma demo_decoding_reach: "lifecycle_reach 5 demo_decoding"
  unfolding demo_decoding_def foldl.simps prod.case
  by (rule lr_step [where t = 4], rule lr_step [where t = 3], rule lr_step [where t = 2],
      rule lr_step [where t = 1], rule lr_step [where t = 0], rule lr_new) code_simp+

definition demo_completed :: RequestLifecycle where
  "demo_completed = projr (transition_to 9 kCompleted (projr (record_first_token 7 demo_decoding)))"

lemma demo_completed_reach: "lifecycle_reach 9 demo_completed"
proof -
  have st: "lc_state demo_decoding = kDecoding" by code_simp
  then have "record_first_token 7 demo_decoding = Inr (projr (record_first_token 7 demo_decoding))"
    by (simp add: record_first_token_def)
  then have "lifecycle_reach 7 (projr (record_first_token 7 demo_decoding))"
    by (intro lr_first_token [OF demo_decoding_reach]) simp_all
  then show ?thesis
    unfolding demo_completed_def by (rule lr_step) (use st in \<open>simp_all add: record_first_token_def\<close>)
qed

theorem lifecycle_milestones_ordered_witness:
  "lc_first_token_at demo_completed = Some 7 \<and> lc_state demo_completed = kCompleted \<and>
   entered_at demo_completed kPrefilling \<noteq> None \<and> (\<exists>a \<le> 7. lc_admitted_at demo_completed = Some a)"
proof -
  have "lc_first_token_at demo_completed = Some 7" "lc_completed_at demo_completed = Some 9"
    by code_simp+
  then show ?thesis using lifecycle_milestones_ordered [OF demo_completed_reach] by auto
qed

text \<open>
  Cancellation is total and idempotent. \<open>cancel()\<close> never panics, whatever the state: a
  terminal lifecycle is left as it is, any other becomes cancelled, and a second call changes
  nothing.
\<close>

theorem lifecycle_cancel_total:
  "\<exists>l'. lifecycle_cancel t l = Inr l' \<and> is_terminal (lc_state l') \<and>
     (if is_terminal (lc_state l) then l' = l
      else lc_state l' = kCancelled \<and> entered_at l' kCancelled = Some t \<and>
        lc_first_token_at l' = lc_first_token_at l \<and> lc_completed_at l' = lc_completed_at l) \<and>
     lifecycle_cancel t' l' = Inr l'"
  using cancel_edge by (auto simp: lifecycle_cancel_def transition_to_Inr entered_at_def transition_to_def)

end
