(* ===== verification/Request.thy ===== *)
theory Request
  imports Lifecycle
begin

text \<open>
  One client request, \<open>include/tokamak/request/request.h\<close> and \<open>src/request/request.cpp\<close>: the
  lifecycle, the deadline fixed at construction and the output-token budget that
  \<open>emit_token\<close> enforces by panicking. Sizes (\<open>std::size_t\<close>) are naturals: the code only counts
  up to a bound that is itself a \<open>size_t\<close>. The clock readings an operation makes are arguments.
\<close>

type_synonym RequestId = string

record Request =
  req_id :: RequestId
  req_lifecycle :: RequestLifecycle
  req_deadline_at :: TimePoint
  req_max_output_tokens :: nat
  req_output_tokens_emitted :: nat
  req_prompt_token_ids :: "uint32 list"
  req_priority :: int
  req_output_token_ids :: "uint32 list"

text \<open>
  The members are initialised in declaration order, so the lifecycle's clock reading
  (\<open>now1\<close>) comes before the one of the deadline (\<open>now2\<close>).
\<close>

definition Request_new ::
  "RequestId \<Rightarrow> TimePoint \<Rightarrow> TimePoint \<Rightarrow> Duration \<Rightarrow> nat \<Rightarrow> uint32 list \<Rightarrow> int \<Rightarrow> Request" where
  "Request_new i now1 now2 deadline_from_now max_output_tokens prompt_token_ids priority =
     \<lparr>req_id = i, req_lifecycle = RequestLifecycle_new now1,
      req_deadline_at = now2 + deadline_from_now,
      req_max_output_tokens = max_output_tokens, req_output_tokens_emitted = 0,
      req_prompt_token_ids = prompt_token_ids, req_priority = priority,
      req_output_token_ids = []\<rparr>"

definition Request_new_no_prompt ::
  "RequestId \<Rightarrow> TimePoint \<Rightarrow> TimePoint \<Rightarrow> Duration \<Rightarrow> nat \<Rightarrow> int \<Rightarrow> Request" where
  "Request_new_no_prompt i now1 now2 deadline_from_now max_output_tokens priority =
     \<lparr>req_id = i, req_lifecycle = RequestLifecycle_new now1,
      req_deadline_at = now2 + deadline_from_now,
      req_max_output_tokens = max_output_tokens, req_output_tokens_emitted = 0,
      req_prompt_token_ids = [], req_priority = priority,
      req_output_token_ids = []\<rparr>"

definition emit_token :: "TimePoint \<Rightarrow> uint32 \<Rightarrow> Request \<Rightarrow> Request res" where
  "emit_token now token_id r =
     bnd (record_first_token now (req_lifecycle r)) (\<lambda>l.
       if req_output_tokens_emitted r \<ge> req_max_output_tokens r
       then panic ''emit_token() called after max_output_tokens already reached''
       else Inr (r\<lparr>req_lifecycle := l,
                   req_output_tokens_emitted := req_output_tokens_emitted r + 1,
                   req_output_token_ids := req_output_token_ids r @ [token_id]\<rparr>))"

definition req_state :: "Request \<Rightarrow> RequestState" where
  "req_state r = lc_state (req_lifecycle r)"

section \<open>The invariant of a request\<close>

definition req_inv :: "TimePoint \<Rightarrow> Request \<Rightarrow> bool" where
  "req_inv t r \<longleftrightarrow>
     lc_inv t (req_lifecycle r) \<and>
     req_output_tokens_emitted r = length (req_output_token_ids r) \<and>
     req_output_tokens_emitted r \<le> req_max_output_tokens r \<and>
     (lc_first_token_at (req_lifecycle r) = None \<longleftrightarrow> req_output_tokens_emitted r = 0)"

lemma req_state_simps [simp]:
  shows "req_state (r\<lparr>req_lifecycle := l\<rparr>) = lc_state l"
    and "req_state (r\<lparr>req_output_tokens_emitted := n\<rparr>) = req_state r"
    and "req_state (r\<lparr>req_output_token_ids := ts\<rparr>) = req_state r"
  by (simp_all add: req_state_def)

lemma req_inv_later: "req_inv t r \<Longrightarrow> t \<le> t' \<Longrightarrow> req_inv t' r"
  by (auto simp: req_inv_def intro: lc_inv_later)

lemma req_inv_new:
  "t1 \<le> t \<Longrightarrow> req_inv t (Request_new i t1 t2 d m p pr)"
  by (auto simp: req_inv_def Request_new_def RequestLifecycle_new_def
      intro: lc_inv_later [OF lc_inv_new [unfolded RequestLifecycle_new_def]])

lemma req_inv_transition:
  assumes "req_inv t r" "t \<le> t'" "transition_to t' to (req_lifecycle r) = Inr l"
  shows "req_inv t' (r\<lparr>req_lifecycle := l\<rparr>)"
  using assms by (auto simp: req_inv_def transition_to_Inr dest: lc_inv_transition)

lemma emit_token_Inr:
  "emit_token t tok r = Inr r' \<longleftrightarrow>
    req_state r = kDecoding \<and> req_output_tokens_emitted r < req_max_output_tokens r \<and>
    r' = r\<lparr>req_lifecycle := (req_lifecycle r)\<lparr>lc_first_token_at :=
             (case lc_first_token_at (req_lifecycle r) of None \<Rightarrow> Some t | Some f \<Rightarrow> Some f)\<rparr>,
           req_output_tokens_emitted := req_output_tokens_emitted r + 1,
           req_output_token_ids := req_output_token_ids r @ [tok]\<rparr>"
  by (auto simp: emit_token_def bnd_eq_Inr record_first_token_Inr req_state_def panic_def
      split: if_splits)

lemma ok_emit_token:
  assumes "req_state r = kDecoding" "req_output_tokens_emitted r < req_max_output_tokens r"
  shows "ok (emit_token t tok r) P \<longleftrightarrow>
    P (r\<lparr>req_lifecycle := (req_lifecycle r)\<lparr>lc_first_token_at :=
           (case lc_first_token_at (req_lifecycle r) of None \<Rightarrow> Some t | Some f \<Rightarrow> Some f)\<rparr>,
         req_output_tokens_emitted := req_output_tokens_emitted r + 1,
         req_output_token_ids := req_output_token_ids r @ [tok]\<rparr>)"
  using assms by (auto simp: ok_iff emit_token_Inr)

lemma emit_token_lifecycle:
  assumes "req_state r = kDecoding" "req_output_tokens_emitted r < req_max_output_tokens r"
  shows "\<exists>l. emit_token t tok r =
      Inr (r\<lparr>req_output_tokens_emitted := req_output_tokens_emitted r + 1,
             req_output_token_ids := req_output_token_ids r @ [tok], req_lifecycle := l\<rparr>) \<and>
    lc_state l = kDecoding"
  using assms
  by (intro exI [of _ "(req_lifecycle r)\<lparr>lc_first_token_at :=
      (case lc_first_token_at (req_lifecycle r) of None \<Rightarrow> Some t | Some f \<Rightarrow> Some f)\<rparr>"])
    (simp add: emit_token_Inr req_state_def)

lemma req_inv_emit:
  assumes "req_inv t r" "t \<le> t'" "emit_token t' tok r = Inr r'"
  shows "req_inv t' r'"
proof -
  obtain l where l: "record_first_token t' (req_lifecycle r) = Inr l"
    using assms(3) by (auto simp: emit_token_def bnd_eq_Inr)
  then have "lc_inv t' l" using assms(1,2) by (auto simp: req_inv_def intro: lc_inv_first_token)
  then show ?thesis
    using assms l
    by (auto simp: req_inv_def emit_token_Inr record_first_token_Inr split: option.splits)
qed

section \<open>The token budget\<close>

text \<open>
  The budget is exact. A decoding request accepts tokens as long as the budget lasts and
  panics on the first one beyond it; the accepted tokens are recorded in order, and the first one
  ever is the one whose time is kept.
\<close>

theorem emit_token_budget:
  assumes "req_state r = kDecoding" "req_output_tokens_emitted r \<le> req_max_output_tokens r"
  shows "case fold_res (\<lambda>(t, tok). emit_token t tok) xs r of
      Inr r' \<Rightarrow> req_output_tokens_emitted r + length xs \<le> req_max_output_tokens r \<and>
        req_output_tokens_emitted r' = req_output_tokens_emitted r + length xs \<and>
        req_output_token_ids r' = req_output_token_ids r @ map snd xs \<and>
        lc_first_token_at (req_lifecycle r') =
          (case lc_first_token_at (req_lifecycle r) of
             Some f \<Rightarrow> Some f | None \<Rightarrow> (if xs = [] then None else Some (fst (hd xs))))
    | Inl e \<Rightarrow> req_max_output_tokens r < req_output_tokens_emitted r + length xs \<and>
        e = Panic ''emit_token() called after max_output_tokens already reached''"
  using assms
proof (induction xs arbitrary: r)
  case Nil
  then show ?case by (simp split: option.splits)
next
  case (Cons x xs)
  obtain t tok where x: "x = (t, tok)" by force
  show ?case
  proof (cases "req_output_tokens_emitted r < req_max_output_tokens r")
    case True
    let ?r = "r\<lparr>req_lifecycle := (req_lifecycle r)\<lparr>lc_first_token_at :=
           (case lc_first_token_at (req_lifecycle r) of None \<Rightarrow> Some t | Some f \<Rightarrow> Some f)\<rparr>,
         req_output_tokens_emitted := req_output_tokens_emitted r + 1,
         req_output_token_ids := req_output_token_ids r @ [tok]\<rparr>"
    have "emit_token t tok r = Inr ?r" using Cons.prems(1) True by (simp add: emit_token_Inr)
    moreover have "req_state ?r = kDecoding" using Cons.prems(1) by (simp add: req_state_def)
    ultimately show ?thesis
      using Cons.IH [of ?r] True x by (auto split: sum.splits option.splits)
  next
    case False
    then show ?thesis
      using Cons.prems x by (simp add: emit_token_def record_first_token_def req_state_def panic_def)
  qed
qed

theorem emit_token_budget_witness:
  "\<exists>r. req_state r = kDecoding \<and> req_max_output_tokens r = 1 \<and>
     fold_res (\<lambda>(t, tok). emit_token t tok) [(3, 7), (4, 8)] r =
       Inl (Panic ''emit_token() called after max_output_tokens already reached'')"
proof -
  let ?r = "(Request_new ''a'' 0 0 10 1 [1] 0)\<lparr>req_lifecycle :=
    (RequestLifecycle_new 0)\<lparr>lc_state := kDecoding\<rparr>\<rparr>"
  have "req_state ?r = kDecoding" "req_max_output_tokens ?r = 1" "req_output_tokens_emitted ?r = 0"
    by (simp_all add: req_state_def Request_new_def)
  then show ?thesis
    using emit_token_budget [of ?r "[(3, 7), (4, 8)]"] by (fastforce split: sum.splits)
qed

end
