(* ===== verification/Backend.thy ===== *)
theory Backend
  imports Clock
begin

text \<open>
  The backend boundary of \<open>include/tokamak/backend/backend.h\<close> and \<open>error.h\<close>. A backend and a
  clock act on a world \<open>'w\<close> (the backend's own state and the time source it shares); the abstract
  class is a record of its virtual functions. A struct with a single member is represented by
  that member. \<open>std::expected<T, BackendError>\<close> is \<open>BackendError + T\<close>.

  The locale \<open>backend_contract\<close> states what the scheduler relies on: the promises recorded in
  \<open>docs/adr/004\<close> and \<open>docs/adr/007\<close> about handles, batch results and release.
\<close>

datatype BackendErrorCategory = kInvalidRequest | kOutOfMemory | kInvalidState | kUnavailable

fun BackendErrorCategory_to_string :: "BackendErrorCategory \<Rightarrow> string" where
  "BackendErrorCategory_to_string kInvalidRequest = ''Invalid Request''"
| "BackendErrorCategory_to_string kOutOfMemory = ''Out of Memory''"
| "BackendErrorCategory_to_string kInvalidState = ''Invalid State''"
| "BackendErrorCategory_to_string kUnavailable = ''Unavailable''"

record BackendError =
  err_category :: BackendErrorCategory
  err_message :: string

record BackendCapabilities =
  supports_continuous_batching :: bool
  supports_prefix_sharing :: bool
  supports_kv_export :: bool
  max_context_tokens :: nat

type_synonym TokenizedPrompt = "uint32 list"

datatype SequenceHandle = SequenceHandle (handle_id: uint64)

type_synonym PrefillRequest = TokenizedPrompt
type_synonym PrefillBatch = "PrefillRequest list"
type_synonym PrefillOutcome = SequenceHandle
type_synonym PrefillResult = "(BackendError + PrefillOutcome) list"

type_synonym DecodeRequest = SequenceHandle
type_synonym DecodeBatch = "DecodeRequest list"

record DecodedToken =
  dt_token_id :: uint32
  dt_finished :: bool

type_synonym DecodeResult = "(BackendError + DecodedToken) list"

record 'w InferenceBackend =
  bk_capabilities :: "'w \<Rightarrow> BackendCapabilities"
  bk_tokenize :: "string \<Rightarrow> 'w \<Rightarrow> (TokenizedPrompt \<times> 'w) res"
  bk_prefill :: "PrefillBatch \<Rightarrow> 'w \<Rightarrow> (PrefillResult \<times> 'w) res"
  bk_decode :: "DecodeBatch \<Rightarrow> 'w \<Rightarrow> (DecodeResult \<times> 'w) res"
  bk_release :: "SequenceHandle \<Rightarrow> 'w \<Rightarrow> 'w res"

text \<open>The abstract clock: reading it gives a time point, and may itself take time.\<close>

type_synonym 'w Clock = "'w \<Rightarrow> TimePoint \<times> 'w"

text \<open>The successful outcomes of a batch, in batch order.\<close>

fun successes :: "('e + 'a) list \<Rightarrow> 'a list" where
  "successes [] = []"
| "successes (Inl e # xs) = successes xs"
| "successes (Inr x # xs) = x # successes xs"

lemma successes_append [simp]: "successes (xs @ ys) = successes xs @ successes ys"
  by (induction xs rule: successes.induct) auto

lemma length_successes: "length (successes xs) \<le> length xs"
  by (induction xs rule: successes.induct) auto

section \<open>The contract\<close>

text \<open>
  \<open>live w\<close>: the handles minted and not yet released; \<open>room w\<close>: how many handles the backend
  can still mint (a handle is a 64-bit number); \<open>time w\<close>: a time no later reading is before.
\<close>

locale backend_contract =
  fixes be :: "'w InferenceBackend"
    and now :: "'w Clock"
    and winv :: "'w \<Rightarrow> bool"
    and live :: "'w \<Rightarrow> SequenceHandle set"
    and room :: "'w \<Rightarrow> nat"
    and time :: "'w \<Rightarrow> TimePoint"
  assumes now_law:
      "winv w \<Longrightarrow> now w = (t, w') \<Longrightarrow>
         winv w' \<and> live w' = live w \<and> room w' = room w \<and> time w \<le> t \<and> t \<le> time w'"
    and prefill_law:
      "winv w \<Longrightarrow> length b \<le> room w \<Longrightarrow>
         ok (bk_prefill be b w) (\<lambda>(res, w').
           winv w' \<and> length res = length b \<and> distinct (successes res) \<and>
           set (successes res) \<inter> live w = {} \<and> live w' = live w \<union> set (successes res) \<and>
           room w \<le> room w' + length b \<and> time w \<le> time w')"
    and decode_law:
      "winv w \<Longrightarrow> set hs \<subseteq> live w \<Longrightarrow>
         ok (bk_decode be hs w) (\<lambda>(res, w').
           winv w' \<and> length res = length hs \<and> live w' = live w \<and> room w' = room w \<and>
           time w \<le> time w')"
    and release_law:
      "winv w \<Longrightarrow> h \<in> live w \<Longrightarrow>
         ok (bk_release be h w) (\<lambda>w'.
           winv w' \<and> live w' = live w - {h} \<and> room w' = room w \<and> time w \<le> time w')"

end
