(* ===== verification/Scheduler.thy ===== *)
theory Scheduler
  imports Request Backend
begin

text \<open>
  The FIFO scheduler of \<open>include/tokamak/scheduler/fifo_scheduler.h\<close> and
  \<open>src/scheduler/fifo_scheduler.cpp\<close>. \<open>requests_\<close> owns every request ever submitted and never
  shrinks, so a \<open>Request*\<close> is an index into it; following an index outside it is undefined
  behaviour. The backend and the clock the constructor stores references to are the first two
  arguments of every operation; the world they act on is threaded through.
\<close>

type_synonym ReqPtr = nat

record TickReport =
  tr_timestamp :: TimePoint
  tr_expired_count :: nat
  tr_prefill_attempted :: nat
  tr_prefill_succeeded :: nat
  tr_prefill_failed :: nat
  tr_prefill_tokens :: nat
  tr_decode_attempted :: nat
  tr_decode_tokens :: nat
  tr_decode_completed :: nat
  tr_decode_failed :: nat

definition TickReport_new :: "TimePoint \<Rightarrow> TickReport" where
  "TickReport_new now =
     \<lparr>tr_timestamp = now, tr_expired_count = 0, tr_prefill_attempted = 0,
      tr_prefill_succeeded = 0, tr_prefill_failed = 0, tr_prefill_tokens = 0,
      tr_decode_attempted = 0, tr_decode_tokens = 0, tr_decode_completed = 0,
      tr_decode_failed = 0\<rparr>"

record FifoScheduler =
  fs_requests :: "Request list"
  fs_waiting :: "ReqPtr list"
  fs_decoding :: "ReqPtr list"
  fs_handles :: "RequestId \<rightharpoonup> SequenceHandle"

definition FifoScheduler_new :: FifoScheduler where
  "FifoScheduler_new =
     \<lparr>fs_requests = [], fs_waiting = [], fs_decoding = [], fs_handles = Map.empty\<rparr>"

definition waiting_count :: "FifoScheduler \<Rightarrow> nat" where
  "waiting_count s = length (fs_waiting s)"

definition decoding_count :: "FifoScheduler \<Rightarrow> nat" where
  "decoding_count s = length (fs_decoding s)"

section \<open>Requests behind pointers\<close>

definition deref :: "FifoScheduler \<Rightarrow> ReqPtr \<Rightarrow> Request res" where
  "deref s p =
     (if p < length (fs_requests s) then Inr (fs_requests s ! p)
      else Inl (BadAccess ''Request*''))"

definition put_req :: "ReqPtr \<Rightarrow> Request \<Rightarrow> FifoScheduler \<Rightarrow> FifoScheduler" where
  "put_req p r s = s\<lparr>fs_requests := (fs_requests s)[p := r]\<rparr>"

text \<open>\<open>p->lifecycle().transition_to(to)\<close>\<close>

definition ptr_transition ::
  "'w Clock \<Rightarrow> RequestState \<Rightarrow> ReqPtr \<Rightarrow> FifoScheduler \<times> 'w \<Rightarrow> (FifoScheduler \<times> 'w) res" where
  "ptr_transition now to p sw =
     (case sw of (s, w) \<Rightarrow>
        bnd (deref s p) (\<lambda>r.
          case now w of (t, w') \<Rightarrow>
            bnd (transition_to t to (req_lifecycle r)) (\<lambda>l.
              Inr (put_req p (r\<lparr>req_lifecycle := l\<rparr>) s, w'))))"

section \<open>Submission and retirement\<close>

definition submit ::
  "'w Clock \<Rightarrow> Request \<Rightarrow> FifoScheduler \<times> 'w \<Rightarrow> (ReqPtr \<times> FifoScheduler \<times> 'w) res" where
  "submit now request sw =
     (case sw of (s, w) \<Rightarrow>
        let raw = length (fs_requests s);
            s = s\<lparr>fs_requests := fs_requests s @ [request]\<rparr>
        in bnd (ptr_transition now kAdmitted raw (s, w)) (\<lambda>sw.
           bnd (ptr_transition now kWaitingPrefill raw sw) (\<lambda>(s, w).
             Inr (raw, s\<lparr>fs_waiting := fs_waiting s @ [raw]\<rparr>, w))))"

definition retire ::
  "'w InferenceBackend \<Rightarrow> 'w Clock \<Rightarrow> RequestState \<Rightarrow> ReqPtr \<Rightarrow> FifoScheduler \<times> 'w \<Rightarrow>
   (FifoScheduler \<times> 'w) res" where
  "retire be now terminal_state p sw =
     bnd (ptr_transition now terminal_state p sw) (\<lambda>(s, w).
     bnd (deref s p) (\<lambda>r.
     bnd (case fs_handles s (req_id r) of
            Some h \<Rightarrow>
              bnd (bk_release be h w) (\<lambda>w.
                Inr (s\<lparr>fs_handles := (fs_handles s)(req_id r := None)\<rparr>, w))
          | None \<Rightarrow> Inr (s, w)) (\<lambda>(s, w).
       Inr (s\<lparr>fs_waiting := remove1 p (fs_waiting s),
              fs_decoding := remove1 p (fs_decoding s)\<rparr>, w))))"

section \<open>The three phases of a tick\<close>

text \<open>The requests of a queue whose deadline has passed; the clock is read once for each.\<close>

fun collect_expired ::
  "'w Clock \<Rightarrow> FifoScheduler \<Rightarrow> ReqPtr list \<Rightarrow> 'w \<Rightarrow> (ReqPtr list \<times> 'w) res" where
  "collect_expired now s [] w = Inr ([], w)"
| "collect_expired now s (p # ps) w =
     bnd (deref s p) (\<lambda>r.
       case now w of (t, w1) \<Rightarrow>
         bnd (collect_expired now s ps w1) (\<lambda>(es, w2).
           Inr (if t > req_deadline_at r then p # es else es, w2)))"

text \<open>
  \<open>kWaitingPrefill\<close> has no edge to \<open>kFailed\<close>: a waiting request is failed through
  \<open>kPrefilling\<close>, in \<open>expire_deadlines\<close> and in \<open>prefill_phase\<close> alike.
\<close>

definition fail_waiting ::
  "'w InferenceBackend \<Rightarrow> 'w Clock \<Rightarrow> ReqPtr \<Rightarrow> FifoScheduler \<times> 'w \<Rightarrow> (FifoScheduler \<times> 'w) res" where
  "fail_waiting be now p sw = bnd (ptr_transition now kPrefilling p sw) (retire be now kFailed p)"

definition expire_deadlines ::
  "'w InferenceBackend \<Rightarrow> 'w Clock \<Rightarrow> FifoScheduler \<times> 'w \<Rightarrow> (TickReport \<times> FifoScheduler \<times> 'w) res" where
  "expire_deadlines be now sw =
     (case sw of (s, w) \<Rightarrow>
        case now w of (t, w) \<Rightarrow>
          bnd (collect_expired now s (fs_waiting s) w) (\<lambda>(expired_waiting, w).
          bnd (collect_expired now s (fs_decoding s) w) (\<lambda>(expired_decoding, w).
          bnd (fold_res (fail_waiting be now) expired_waiting (s, w)) (\<lambda>sw.
          bnd (fold_res (retire be now kFailed) expired_decoding sw) (\<lambda>sw.
            Inr ((TickReport_new t)\<lparr>tr_expired_count :=
                   length expired_waiting + length expired_decoding\<rparr>, sw))))))"

definition prefill_one ::
  "'w InferenceBackend \<Rightarrow> 'w Clock \<Rightarrow> ReqPtr \<Rightarrow> BackendError + PrefillOutcome \<Rightarrow>
   TickReport \<times> FifoScheduler \<times> 'w \<Rightarrow> (TickReport \<times> FifoScheduler \<times> 'w) res" where
  "prefill_one be now p outcome rsw =
     (case rsw of (report, s, w) \<Rightarrow>
        (case outcome of
           Inr h \<Rightarrow>
             bnd (deref s p) (\<lambda>r.
               let s = (if fs_handles s (req_id r) = None
                        then s\<lparr>fs_handles := (fs_handles s)(req_id r \<mapsto> h)\<rparr> else s)
               in bnd (ptr_transition now kPrefilling p (s, w)) (\<lambda>sw.
                  bnd (ptr_transition now kWaitingDecode p sw) (\<lambda>sw.
                  bnd (ptr_transition now kDecoding p sw) (\<lambda>(s, w).
                    Inr (report\<lparr>tr_prefill_succeeded := tr_prefill_succeeded report + 1\<rparr>,
                         s\<lparr>fs_waiting := removeAll p (fs_waiting s),
                           fs_decoding := fs_decoding s @ [p]\<rparr>, w)))))
         | Inl error \<Rightarrow>
             bnd (fail_waiting be now p (s, w)) (\<lambda>sw.
               Inr (report\<lparr>tr_prefill_failed := tr_prefill_failed report + 1\<rparr>, sw))))"

text \<open>The loops over \<open>pending[i]\<close> and \<open>results.outcomes[i]\<close>.\<close>

fun outcome_loop ::
  "(ReqPtr \<Rightarrow> 'o \<Rightarrow> 's \<Rightarrow> 's res) \<Rightarrow> ReqPtr list \<Rightarrow> 'o list \<Rightarrow> 's \<Rightarrow> 's res" where
  "outcome_loop f [] outcomes x = Inr x"
| "outcome_loop f (p # ps) [] x = Inl (BadAccess ''results.outcomes'')"
| "outcome_loop f (p # ps) (out # outcomes) x = bnd (f p out x) (outcome_loop f ps outcomes)"

definition prefill_phase ::
  "'w InferenceBackend \<Rightarrow> 'w Clock \<Rightarrow> FifoScheduler \<times> 'w \<Rightarrow> (TickReport \<times> FifoScheduler \<times> 'w) res" where
  "prefill_phase be now sw =
     (case sw of (s, w) \<Rightarrow>
        case now w of (t, w) \<Rightarrow>
          let pending = fs_waiting s
          in bnd (map_res (deref s) pending) (\<lambda>rs.
             let batch = map req_prompt_token_ids rs;
                 report = (TickReport_new t)\<lparr>tr_prefill_tokens := sum_list (map length batch),
                                             tr_prefill_attempted := length pending\<rparr>
             in bnd (bk_prefill be batch w) (\<lambda>(outcomes, w).
                  outcome_loop (prefill_one be now) pending outcomes (report, s, w))))"

definition handle_at :: "FifoScheduler \<Rightarrow> ReqPtr \<Rightarrow> SequenceHandle res" where
  "handle_at s p =
     bnd (deref s p) (\<lambda>r.
       case fs_handles s (req_id r) of
         Some h \<Rightarrow> Inr h
       | None \<Rightarrow> Inl (OutOfRange ''handles_.at''))"

text \<open>\<open>emit_token\<close> reads the clock for the first token only; the time in the other case is not used.\<close>

definition first_token_clock :: "'w Clock \<Rightarrow> Request \<Rightarrow> 'w \<Rightarrow> TimePoint \<times> 'w" where
  "first_token_clock now r w =
     (if req_state r = kDecoding \<and> lc_first_token_at (req_lifecycle r) = None then now w
      else (lc_entered_at (req_lifecycle r), w))"

definition decode_one ::
  "'w InferenceBackend \<Rightarrow> 'w Clock \<Rightarrow> ReqPtr \<Rightarrow> BackendError + DecodedToken \<Rightarrow>
   TickReport \<times> FifoScheduler \<times> 'w \<Rightarrow> (TickReport \<times> FifoScheduler \<times> 'w) res" where
  "decode_one be now p outcome rsw =
     (case rsw of (report, s, w) \<Rightarrow>
        (case outcome of
           Inr tok \<Rightarrow>
             bnd (deref s p) (\<lambda>r.
             case first_token_clock now r w of (t, w) \<Rightarrow>
             bnd (emit_token t (dt_token_id tok) r) (\<lambda>r.
               let s = put_req p r s;
                   eos = dt_finished tok;
                   exhausted = (req_output_tokens_emitted r \<ge> req_max_output_tokens r)
               in if eos \<or> exhausted
                  then bnd (retire be now kCompleted p (s, w)) (\<lambda>sw.
                         Inr (report\<lparr>tr_decode_completed := tr_decode_completed report + 1\<rparr>, sw))
                  else Inr (report, s, w)))
         | Inl error \<Rightarrow>
             bnd (retire be now kFailed p (s, w)) (\<lambda>sw.
               Inr (report\<lparr>tr_decode_failed := tr_decode_failed report + 1\<rparr>, sw))))"

definition decode_phase ::
  "'w InferenceBackend \<Rightarrow> 'w Clock \<Rightarrow> FifoScheduler \<times> 'w \<Rightarrow> (TickReport \<times> FifoScheduler \<times> 'w) res" where
  "decode_phase be now sw =
     (case sw of (s, w) \<Rightarrow>
        case now w of (t, w) \<Rightarrow>
          let pending = fs_decoding s
          in bnd (map_res (handle_at s) pending) (\<lambda>batch.
             let report = (TickReport_new t)\<lparr>tr_decode_tokens := length pending,
                                             tr_decode_attempted := length pending\<rparr>
             in bnd (bk_decode be batch w) (\<lambda>(outcomes, w).
                  outcome_loop (decode_one be now) pending outcomes (report, s, w))))"

definition merge_reports :: "TimePoint \<Rightarrow> TickReport \<Rightarrow> TickReport \<Rightarrow> TickReport \<Rightarrow> TickReport" where
  "merge_reports t expire_report prefill_report decode_report =
     \<lparr>tr_timestamp = t,
      tr_expired_count = tr_expired_count expire_report,
      tr_prefill_attempted = tr_prefill_attempted prefill_report,
      tr_prefill_succeeded = tr_prefill_succeeded prefill_report,
      tr_prefill_failed = tr_prefill_failed prefill_report,
      tr_prefill_tokens = tr_prefill_tokens prefill_report,
      tr_decode_attempted = tr_decode_attempted decode_report,
      tr_decode_tokens = tr_decode_tokens decode_report,
      tr_decode_completed = tr_decode_completed decode_report,
      tr_decode_failed = tr_decode_failed decode_report\<rparr>"

definition tick ::
  "'w InferenceBackend \<Rightarrow> 'w Clock \<Rightarrow> FifoScheduler \<times> 'w \<Rightarrow> (TickReport \<times> FifoScheduler \<times> 'w) res" where
  "tick be now sw =
     bnd (expire_deadlines be now sw) (\<lambda>(expire_report, sw).
     bnd (prefill_phase be now sw) (\<lambda>(prefill_report, sw).
     bnd (decode_phase be now sw) (\<lambda>(decode_report, s, w).
       case now w of (t, w) \<Rightarrow>
         Inr (merge_reports t expire_report prefill_report decode_report, s, w))))"

section \<open>Cancellation\<close>

fun find_ptr :: "FifoScheduler \<Rightarrow> RequestId \<Rightarrow> ReqPtr list \<Rightarrow> ReqPtr option res" where
  "find_ptr s i [] = Inr None"
| "find_ptr s i (p # ps) =
     bnd (deref s p) (\<lambda>r. if req_id r = i then Inr (Some p) else find_ptr s i ps)"

text \<open>One of the two loops of \<open>cancel\<close>: the first match in the queue is retired, then \<open>break\<close>.\<close>

definition cancel_in ::
  "'w InferenceBackend \<Rightarrow> 'w Clock \<Rightarrow> RequestId \<Rightarrow> (FifoScheduler \<Rightarrow> ReqPtr list) \<Rightarrow>
   FifoScheduler \<times> 'w \<Rightarrow> (FifoScheduler \<times> 'w) res" where
  "cancel_in be now i queue sw =
     bnd (find_ptr (fst sw) i (queue (fst sw))) (\<lambda>found.
       case found of
         Some p \<Rightarrow> retire be now kCancelled p sw
       | None \<Rightarrow> Inr sw)"

definition cancel ::
  "'w InferenceBackend \<Rightarrow> 'w Clock \<Rightarrow> RequestId \<Rightarrow> FifoScheduler \<times> 'w \<Rightarrow> (FifoScheduler \<times> 'w) res" where
  "cancel be now i sw =
     bnd (cancel_in be now i fs_waiting sw) (cancel_in be now i fs_decoding)"

end
