(* ===== verification/Scheduler_Inv.thy ===== *)
theory Scheduler_Inv
  imports Scheduler
begin

text \<open>
  The invariant of the FIFO scheduler and its preservation. \<open>sched_inv L t s\<close> says how the
  queues, the request states, the token budgets and the handle table agree when \<open>L\<close> is the set
  of handles the backend holds and \<open>t\<close> bounds every timestamp taken so far: in particular the
  handle table owns exactly \<open>L\<close>, so no handle leaks. The lemmas about the operations are proved
  once, for every backend that keeps the contract.
\<close>

section \<open>The invariant\<close>

definition req_at :: "FifoScheduler \<Rightarrow> ReqPtr \<Rightarrow> Request" where
  "req_at s p = fs_requests s ! p"

definition id_at :: "FifoScheduler \<Rightarrow> ReqPtr \<Rightarrow> RequestId" where
  "id_at s p = req_id (req_at s p)"

definition tracked :: "FifoScheduler \<Rightarrow> ReqPtr list" where
  "tracked s = fs_waiting s @ fs_decoding s"

definition queues_inv :: "FifoScheduler \<Rightarrow> bool" where
  "queues_inv s \<longleftrightarrow>
     distinct (tracked s) \<and>
     set (tracked s) \<subseteq> {..<length (fs_requests s)} \<and>
     inj_on (id_at s) (set (tracked s))"

definition handles_inv :: "SequenceHandle set \<Rightarrow> FifoScheduler \<Rightarrow> bool" where
  "handles_inv L s \<longleftrightarrow>
     dom (fs_handles s) = id_at s ` set (fs_decoding s) \<and>
     inj_on (fs_handles s) (dom (fs_handles s)) \<and>
     ran (fs_handles s) = L"

definition status_ok :: "FifoScheduler \<Rightarrow> ReqPtr \<Rightarrow> bool" where
  "status_ok s p \<longleftrightarrow>
     (if p \<in> set (fs_waiting s)
      then req_state (req_at s p) = kWaitingPrefill \<and> 0 < req_max_output_tokens (req_at s p)
      else if p \<in> set (fs_decoding s)
      then req_state (req_at s p) = kDecoding \<and>
           req_output_tokens_emitted (req_at s p) < req_max_output_tokens (req_at s p)
      else is_terminal (req_state (req_at s p)))"

definition requests_inv :: "TimePoint \<Rightarrow> FifoScheduler \<Rightarrow> bool" where
  "requests_inv t s \<longleftrightarrow>
     (\<forall>p < length (fs_requests s). req_inv t (req_at s p) \<and> status_ok s p)"

definition sched_inv :: "SequenceHandle set \<Rightarrow> TimePoint \<Rightarrow> FifoScheduler \<Rightarrow> bool" where
  "sched_inv L t s \<longleftrightarrow> queues_inv s \<and> handles_inv L s \<and> requests_inv t s"

lemmas sched_inv_defs = sched_inv_def queues_inv_def handles_inv_def requests_inv_def

lemma sched_inv_new: "sched_inv {} t FifoScheduler_new"
  by (simp add: sched_inv_defs FifoScheduler_new_def tracked_def)

lemma sched_inv_later: "sched_inv L t s \<Longrightarrow> t \<le> t' \<Longrightarrow> sched_inv L t' s"
  by (auto simp: sched_inv_def requests_inv_def intro: req_inv_later)

section \<open>Pure updates of the scheduler\<close>

text \<open>The state after a request has been retired: \<open>r\<close> is its final version.\<close>

definition untrack :: "ReqPtr \<Rightarrow> Request \<Rightarrow> FifoScheduler \<Rightarrow> FifoScheduler" where
  "untrack p r s =
     s\<lparr>fs_requests := (fs_requests s)[p := r],
       fs_handles := (fs_handles s)(req_id r := None),
       fs_waiting := remove1 p (fs_waiting s),
       fs_decoding := remove1 p (fs_decoding s)\<rparr>"

text \<open>The state after a waiting request has been promoted with handle \<open>h\<close>.\<close>

definition promote :: "ReqPtr \<Rightarrow> SequenceHandle \<Rightarrow> Request \<Rightarrow> FifoScheduler \<Rightarrow> FifoScheduler" where
  "promote p h r s =
     s\<lparr>fs_requests := (fs_requests s)[p := r],
       fs_handles := (fs_handles s)(req_id r \<mapsto> h),
       fs_waiting := remove1 p (fs_waiting s),
       fs_decoding := fs_decoding s @ [p]\<rparr>"

lemma untrack_sel [simp]:
  shows "length (fs_requests (untrack p r s)) = length (fs_requests s)"
    and "fs_waiting (untrack p r s) = remove1 p (fs_waiting s)"
    and "fs_decoding (untrack p r s) = remove1 p (fs_decoding s)"
    and "fs_handles (untrack p r s) = (fs_handles s)(req_id r := None)"
  by (simp_all add: untrack_def)

lemma promote_sel [simp]:
  shows "length (fs_requests (promote p h r s)) = length (fs_requests s)"
    and "fs_waiting (promote p h r s) = remove1 p (fs_waiting s)"
    and "fs_decoding (promote p h r s) = fs_decoding s @ [p]"
    and "fs_handles (promote p h r s) = (fs_handles s)(req_id r \<mapsto> h)"
  by (simp_all add: promote_def)

lemma put_req_sel [simp]:
  shows "length (fs_requests (put_req p r s)) = length (fs_requests s)"
    and "fs_waiting (put_req p r s) = fs_waiting s"
    and "fs_decoding (put_req p r s) = fs_decoding s"
    and "fs_handles (put_req p r s) = fs_handles s"
  by (simp_all add: put_req_def)

lemma req_at_upd [simp]:
  assumes "p < length (fs_requests s)"
  shows "req_at (put_req p r s) q = (if q = p then r else req_at s q)"
    and "req_at (untrack p r s) q = (if q = p then r else req_at s q)"
    and "req_at (promote p h r s) q = (if q = p then r else req_at s q)"
  using assms by (auto simp: req_at_def put_req_def untrack_def promote_def nth_list_update)

lemma untrack_put [simp]: "untrack p r (put_req p r' s) = untrack p r s"
  by (simp add: untrack_def put_req_def)

lemma promote_put [simp]: "promote p h r (put_req p r' s) = promote p h r s"
  by (simp add: promote_def put_req_def)

lemma put_put [simp]: "put_req p r (put_req p r' s) = put_req p r s"
  by (simp add: put_req_def)

lemma tracked_lt: "queues_inv s \<Longrightarrow> p \<in> set (tracked s) \<Longrightarrow> p < length (fs_requests s)"
  by (auto simp: queues_inv_def)

lemma queues_disjoint: "queues_inv s \<Longrightarrow> set (fs_waiting s) \<inter> set (fs_decoding s) = {}"
  by (auto simp: queues_inv_def tracked_def)

lemma queues_distinct:
  assumes "queues_inv s"
  shows "distinct (fs_waiting s)" and "distinct (fs_decoding s)"
  using assms by (auto simp: queues_inv_def tracked_def)

lemma status_waiting:
  assumes "sched_inv L t s" "p \<in> set (fs_waiting s)"
  shows "p < length (fs_requests s)" and "req_inv t (req_at s p)"
    and "req_state (req_at s p) = kWaitingPrefill" and "0 < req_max_output_tokens (req_at s p)"
    and "fs_handles s (id_at s p) = None"
proof -
  show lt: "p < length (fs_requests s)"
    using assms by (auto simp: sched_inv_def tracked_def dest: tracked_lt)
  then show "req_inv t (req_at s p)" "req_state (req_at s p) = kWaitingPrefill"
    "0 < req_max_output_tokens (req_at s p)"
    using assms by (auto simp: sched_inv_def requests_inv_def status_ok_def)
  have "id_at s p \<notin> id_at s ` set (fs_decoding s)"
    using assms queues_disjoint [of s]
    by (auto simp: sched_inv_def queues_inv_def tracked_def dest!: inj_onD)
  then show "fs_handles s (id_at s p) = None"
    using assms(1) by (auto simp: sched_inv_def handles_inv_def)
qed

lemma status_decoding:
  assumes "sched_inv L t s" "p \<in> set (fs_decoding s)"
  shows "p < length (fs_requests s)" and "req_inv t (req_at s p)"
    and "req_state (req_at s p) = kDecoding"
    and "req_output_tokens_emitted (req_at s p) < req_max_output_tokens (req_at s p)"
    and "\<exists>h. fs_handles s (id_at s p) = Some h \<and> h \<in> L"
proof -
  show lt: "p < length (fs_requests s)"
    using assms by (auto simp: sched_inv_def tracked_def dest: tracked_lt)
  moreover have "p \<notin> set (fs_waiting s)"
    using assms queues_disjoint by (auto simp: sched_inv_def)
  ultimately show "req_inv t (req_at s p)" "req_state (req_at s p) = kDecoding"
    "req_output_tokens_emitted (req_at s p) < req_max_output_tokens (req_at s p)"
    using assms by (auto simp: sched_inv_def requests_inv_def status_ok_def)
  have "id_at s p \<in> dom (fs_handles s)"
    using assms by (auto simp: sched_inv_def handles_inv_def)
  then obtain h where "fs_handles s (id_at s p) = Some h" by blast
  then show "\<exists>h. fs_handles s (id_at s p) = Some h \<and> h \<in> L"
    using assms(1) by (auto simp: sched_inv_def handles_inv_def intro: ranI)
qed

section \<open>The pure updates keep the invariant\<close>

lemma id_at_upd:
  assumes "p < length (fs_requests s)" "req_id r = id_at s p"
  shows "id_at (put_req p r s) = id_at s" and "id_at (untrack p r s) = id_at s"
    and "id_at (promote p h r s) = id_at s"
  using assms by (auto simp: id_at_def fun_eq_iff)

lemma set_remove1_queues:
  assumes "queues_inv s"
  shows "set (remove1 p (fs_waiting s)) = set (fs_waiting s) - {p}"
    and "set (remove1 p (fs_decoding s)) = set (fs_decoding s) - {p}"
  using queues_distinct [OF assms] by simp_all

lemma handles_inv_untrack:
  assumes q: "queues_inv s" and h: "handles_inv L s" and p: "p \<in> set (tracked s)"
    and i: "req_id r = id_at s p"
  shows "handles_inv (L - set_option (fs_handles s (id_at s p))) (untrack p r s)"
proof -
  let ?H = "fs_handles s" and ?i = "id_at s p"
  have lt: "p < length (fs_requests s)" using q p by (rule tracked_lt)
  have inj: "inj_on ?H (dom ?H)" and ran: "ran ?H = L"
    and dom: "dom ?H = id_at s ` set (fs_decoding s)"
    using h by (auto simp: handles_inv_def)
  have inj_id: "inj_on (id_at s) (set (tracked s))" using q by (simp add: queues_inv_def)
  have "id_at s ` (set (fs_decoding s) - {p}) = id_at s ` set (fs_decoding s) - {?i}"
    using inj_id p by (subst inj_on_image_set_diff [OF inj_id]) (auto simp: tracked_def)
  then have "dom (?H(?i := None)) = id_at s ` (set (fs_decoding s) - {p})"
    using dom by simp
  moreover have "inj_on (?H(?i := None)) (dom (?H(?i := None)))"
    using inj by (auto simp: inj_on_def)
  moreover have "ran (?H(?i := None)) = L - set_option (?H ?i)"
  proof -
    have other: "?H j = Some x \<Longrightarrow> ?H ?i = Some x \<Longrightarrow> j = ?i" for j x
      using inj_onD [OF inj, of j ?i] by (metis domI)
    have "x \<in> ran (?H(?i := None)) \<longleftrightarrow> x \<in> L - set_option (?H ?i)" for x
      unfolding ran [symmetric] ran_def by (auto dest: other) metis
    then show ?thesis by blast
  qed
  ultimately show ?thesis
    using set_remove1_queues [OF q] i
    by (simp add: handles_inv_def id_at_upd [OF lt i])
qed

lemma sched_inv_untrack:
  assumes inv: "sched_inv L t s" and p: "p \<in> set (tracked s)" and le: "t \<le> t'"
    and r: "req_id r = id_at s p" "req_inv t' r" "is_terminal (req_state r)"
  shows "sched_inv (L - set_option (fs_handles s (id_at s p))) t' (untrack p r s)"
proof -
  have q: "queues_inv s" and h: "handles_inv L s" and rq: "requests_inv t s"
    using inv by (auto simp: sched_inv_def)
  have lt: "p < length (fs_requests s)" using q p by (rule tracked_lt)
  note sets = set_remove1_queues [OF q]
  have "queues_inv (untrack p r s)"
    using q sets unfolding queues_inv_def
    by (auto simp: tracked_def id_at_upd [OF lt r(1)] distinct_remove1 intro: inj_on_subset)
  moreover have "requests_inv t' (untrack p r s)"
    using rq lt r sets le
    by (auto simp: requests_inv_def status_ok_def intro: req_inv_later)
  ultimately show ?thesis
    using handles_inv_untrack [OF q h p r(1)] by (simp add: sched_inv_def)
qed

lemma sched_inv_put:
  assumes inv: "sched_inv L t s" and p: "p \<in> set (fs_decoding s)" and le: "t \<le> t'"
    and r: "req_id r = id_at s p" "req_inv t' r" "req_state r = kDecoding"
      "req_output_tokens_emitted r < req_max_output_tokens r"
  shows "sched_inv L t' (put_req p r s)"
proof -
  have lt: "p < length (fs_requests s)" using status_decoding(1) [OF inv p] .
  have nw: "p \<notin> set (fs_waiting s)"
    using inv p queues_disjoint by (auto simp: sched_inv_def)
  have "requests_inv t' (put_req p r s)"
    using inv lt nw p r le
    by (auto simp: sched_inv_def requests_inv_def status_ok_def intro: req_inv_later)
  moreover have "queues_inv (put_req p r s)"
    using inv by (simp add: sched_inv_def queues_inv_def tracked_def id_at_upd [OF lt r(1)])
  moreover have "handles_inv L (put_req p r s)"
    using inv by (auto simp: sched_inv_def handles_inv_def id_at_upd [OF lt r(1)])
  ultimately show ?thesis by (simp add: sched_inv_def)
qed

lemma sched_inv_promote:
  assumes inv: "sched_inv L t s" and p: "p \<in> set (fs_waiting s)" and le: "t \<le> t'"
    and r: "req_id r = id_at s p" "req_inv t' r" "req_state r = kDecoding"
      "req_output_tokens_emitted r < req_max_output_tokens r"
    and h: "h \<notin> L"
  shows "sched_inv (insert h L) t' (promote p h r s)"
proof -
  have q: "queues_inv s" and hs: "handles_inv L s" and rq: "requests_inv t s"
    using inv by (auto simp: sched_inv_def)
  note w = status_waiting [OF inv p]
  have nd: "p \<notin> set (fs_decoding s)" using q p queues_disjoint by auto
  note sets = set_remove1_queues [OF q]
  have "queues_inv (promote p h r s)"
  proof -
    have "set (tracked (promote p h r s)) = set (tracked s)"
      using p sets by (auto simp: tracked_def)
    moreover have "distinct (tracked (promote p h r s))"
      using q nd sets by (auto simp: queues_inv_def tracked_def distinct_remove1)
    ultimately show ?thesis
      using q by (simp add: queues_inv_def id_at_upd [OF w(1) r(1)])
  qed
  moreover have "handles_inv (insert h L) (promote p h r s)"
  proof -
    let ?H = "fs_handles s" and ?i = "id_at s p"
    have old: "dom ?H = id_at s ` set (fs_decoding s)" "inj_on ?H (dom ?H)" "ran ?H = L"
      using hs by (auto simp: handles_inv_def)
    have "?H j \<noteq> Some h" for j using h old(3) by (auto intro: ranI)
    then have "inj_on (?H(?i \<mapsto> h)) (dom (?H(?i \<mapsto> h)))"
      using old(2) w(5) by (auto simp: inj_on_def dom_def)
    then show ?thesis
      using old w(5) by (simp add: handles_inv_def id_at_upd [OF w(1) r(1)] r(1) ran_map_upd)
  qed
  moreover have "requests_inv t' (promote p h r s)"
    using rq w(1) r sets le nd p
    by (auto simp: requests_inv_def status_ok_def intro: req_inv_later)
  ultimately show ?thesis by (simp add: sched_inv_def)
qed

end
