(* ===== verification/Scheduler_Ops.thy ===== *)
theory Scheduler_Ops
  imports Scheduler_Inv
begin

text \<open>
  What each scheduler operation does, for every backend that keeps \<open>backend_contract\<close>: the
  relations below say which requests an operation touches and how the queues change, and the
  lemmas in the locale prove, operation by operation, that the code returns without a fault,
  keeps \<open>sched_inv\<close> and realises its relation.
\<close>

section \<open>Effects\<close>

definition with_lifecycle :: "RequestState \<Rightarrow> Request \<Rightarrow> Request \<Rightarrow> bool" where
  "with_lifecycle st r r' \<longleftrightarrow> (\<exists>l. r' = r\<lparr>req_lifecycle := l\<rparr> \<and> lc_state l = st)"

text \<open>The requests of \<open>ps\<close>, and no others, have been failed and left their queues.\<close>

definition failed_batch :: "FifoScheduler \<Rightarrow> ReqPtr list \<Rightarrow> FifoScheduler \<Rightarrow> bool" where
  "failed_batch s ps s' \<longleftrightarrow>
     length (fs_requests s') = length (fs_requests s) \<and>
     fs_waiting s' = filter (\<lambda>p. p \<notin> set ps) (fs_waiting s) \<and>
     fs_decoding s' = filter (\<lambda>p. p \<notin> set ps) (fs_decoding s) \<and>
     (\<forall>p < length (fs_requests s).
        if p \<in> set ps then with_lifecycle kFailed (req_at s p) (req_at s' p)
        else req_at s' p = req_at s p)"

definition succeeded :: "ReqPtr list \<Rightarrow> ('e + 'a) list \<Rightarrow> ReqPtr list" where
  "succeeded ps outs = map fst (filter (\<lambda>(p, out). \<not> isl out) (zip ps outs))"

text \<open>
  The requests of \<open>ps\<close> have been prefilled with outcomes \<open>outs\<close>: the successful ones joined the
  decoding queue in order, the others failed.
\<close>

definition prefilled ::
  "FifoScheduler \<Rightarrow> ReqPtr list \<Rightarrow> (BackendError + PrefillOutcome) list \<Rightarrow> FifoScheduler \<Rightarrow> bool" where
  "prefilled s ps outs s' \<longleftrightarrow>
     length (fs_requests s') = length (fs_requests s) \<and>
     fs_waiting s' = filter (\<lambda>p. p \<notin> set ps) (fs_waiting s) \<and>
     fs_decoding s' = fs_decoding s @ succeeded ps outs \<and>
     (\<forall>p < length (fs_requests s). p \<notin> set ps \<longrightarrow> req_at s' p = req_at s p) \<and>
     (\<forall>i < length ps. with_lifecycle (if isl (outs ! i) then kFailed else kDecoding)
        (req_at s (ps ! i)) (req_at s' (ps ! i)))"

definition decode_effect :: "BackendError + DecodedToken \<Rightarrow> Request \<Rightarrow> Request \<Rightarrow> bool" where
  "decode_effect out r r' \<longleftrightarrow>
     (case out of
        Inl e \<Rightarrow> with_lifecycle kFailed r r'
      | Inr tok \<Rightarrow>
          with_lifecycle
            (if dt_finished tok \<or> req_output_tokens_emitted r + 1 \<ge> req_max_output_tokens r
             then kCompleted else kDecoding)
            (r\<lparr>req_output_tokens_emitted := req_output_tokens_emitted r + 1,
               req_output_token_ids := req_output_token_ids r @ [dt_token_id tok]\<rparr>) r')"

text \<open>The requests of \<open>ps\<close> have been decoded with outcomes \<open>outs\<close>.\<close>

definition decoded ::
  "FifoScheduler \<Rightarrow> ReqPtr list \<Rightarrow> (BackendError + DecodedToken) list \<Rightarrow> FifoScheduler \<Rightarrow> bool" where
  "decoded s ps outs s' \<longleftrightarrow>
     length (fs_requests s') = length (fs_requests s) \<and>
     fs_waiting s' = fs_waiting s \<and>
     fs_decoding s' = filter (\<lambda>p. req_state (req_at s' p) = kDecoding) (fs_decoding s) \<and>
     (\<forall>p < length (fs_requests s). p \<notin> set ps \<longrightarrow> req_at s' p = req_at s p) \<and>
     (\<forall>i < length ps. decode_effect (outs ! i) (req_at s (ps ! i)) (req_at s' (ps ! i)))"

lemma with_lifecycle_trans:
  "with_lifecycle st r r' \<Longrightarrow> with_lifecycle st' r' r'' \<Longrightarrow> with_lifecycle st' r r''"
  by (auto simp: with_lifecycle_def)

lemma with_lifecycle_sel:
  assumes "with_lifecycle st r r'"
  shows "req_state r' = st" "req_id r' = req_id r" "req_deadline_at r' = req_deadline_at r"
    "req_max_output_tokens r' = req_max_output_tokens r"
    "req_output_tokens_emitted r' = req_output_tokens_emitted r"
    "req_prompt_token_ids r' = req_prompt_token_ids r"
    "req_output_token_ids r' = req_output_token_ids r"
  using assms by (auto simp: with_lifecycle_def)

lemma failed_batch_Nil [simp]: "failed_batch s [] s"
  by (simp add: failed_batch_def)

lemma failed_batch_at:
  assumes "failed_batch s ps s'" "p < length (fs_requests s)"
  shows "p \<in> set ps \<Longrightarrow> with_lifecycle kFailed (req_at s p) (req_at s' p)"
    and "p \<notin> set ps \<Longrightarrow> req_at s' p = req_at s p"
  using assms by (auto simp: failed_batch_def split: if_splits)

lemma failed_batch_append:
  assumes "failed_batch s ps s1" "failed_batch s1 qs s2" "set ps \<inter> set qs = {}"
  shows "failed_batch s (ps @ qs) s2"
proof -
  have "if p \<in> set (ps @ qs) then with_lifecycle kFailed (req_at s p) (req_at s2 p)
      else req_at s2 p = req_at s p" if "p < length (fs_requests s)" for p
  proof -
    have "p \<in> set qs \<Longrightarrow> p \<notin> set ps" using assms(3) by blast
    moreover have "p < length (fs_requests s1)" using assms(1) that by (simp add: failed_batch_def)
    ultimately show ?thesis
      using failed_batch_at [OF assms(1) that] failed_batch_at [OF assms(2), of p]
      by (cases "p \<in> set qs") auto
  qed
  then show ?thesis using assms by (auto simp: failed_batch_def intro: filter_cong)
qed

lemma outcome_loop_ok:
  assumes "length ps = length outs"
    and "\<And>p out ps outs x. I (p # ps) (out # outs) x \<Longrightarrow> ok (f p out x) (I ps outs)"
    and "I ps outs x"
  shows "ok (outcome_loop f ps outs x) (I [] [])"
  using assms(1,3)
proof (induction ps outs arbitrary: x rule: list_induct2)
  case Nil
  then show ?case by simp
next
  case (Cons p ps out outs)
  from assms(2) [OF Cons.prems] show ?case by (auto simp: ok_iff dest: Cons.IH)
qed

section \<open>Operations under the contract\<close>

context backend_contract
begin

text \<open>The world has moved on, but the backend holds the same handles.\<close>

definition quiet :: "'w \<Rightarrow> 'w \<Rightarrow> bool" where
  "quiet w w' \<longleftrightarrow> winv w' \<and> live w' = live w \<and> room w' = room w \<and> time w \<le> time w'"

lemma quiet_refl: "winv w \<Longrightarrow> quiet w w"
  by (simp add: quiet_def)

lemma quiet_trans: "quiet w w' \<Longrightarrow> quiet w' w'' \<Longrightarrow> quiet w w''"
  by (auto simp: quiet_def)

lemma now_quiet: "winv w \<Longrightarrow> now w = (t, w') \<Longrightarrow> quiet w w' \<and> time w \<le> t \<and> t \<le> time w'"
  using now_law by (fastforce simp: quiet_def)

lemma ok_ptr_transition:
  assumes "winv w" "p < length (fs_requests s)" "req_inv (time w) (req_at s p)"
    and "is_valid_transition (req_state (req_at s p)) to"
  shows "ok (ptr_transition now to p (s, w)) (\<lambda>(s', w').
    quiet w w' \<and> (\<exists>r. with_lifecycle to (req_at s p) r \<and> req_inv (time w') r \<and> s' = put_req p r s))"
proof -
  obtain t w' where n: "now w = (t, w')" by force
  note q = now_quiet [OF assms(1) n]
  obtain l where l: "transition_to t to (req_lifecycle (req_at s p)) = Inr l" "lc_state l = to"
    using assms(4) by (auto simp: transition_to_Inr req_state_def)
  have "req_inv (time w') (req_at s p\<lparr>req_lifecycle := l\<rparr>)"
    using req_inv_transition [OF assms(3) _ l(1)] q by (auto intro: req_inv_later)
  then show ?thesis
    using assms(2) n l q
    by (auto simp: ptr_transition_def deref_def req_at_def with_lifecycle_def)
qed

lemma ok_retire:
  assumes "winv w" "p < length (fs_requests s)" "req_inv (time w) (req_at s p)"
    and "is_valid_transition (req_state (req_at s p)) to"
    and "set_option (fs_handles s (id_at s p)) \<subseteq> live w"
  shows "ok (retire be now to p (s, w)) (\<lambda>(s', w').
    winv w' \<and> live w' = live w - set_option (fs_handles s (id_at s p)) \<and> room w' = room w \<and>
    time w \<le> time w' \<and>
    (\<exists>r. with_lifecycle to (req_at s p) r \<and> req_inv (time w') r \<and> s' = untrack p r s))"
proof -
  obtain r w1 where tr: "ptr_transition now to p (s, w) = Inr (put_req p r s, w1)"
    and q: "quiet w w1" and r: "with_lifecycle to (req_at s p) r" "req_inv (time w1) r"
    using ok_ptr_transition [OF assms(1-4)] by (auto simp: ok_iff)
  have id: "req_id r = id_at s p" using with_lifecycle_sel(2) [OF r(1)] by (simp add: id_at_def)
  have d: "deref (put_req p r s) p = Inr r" using assms(2) by (simp add: deref_def put_req_def)
  show ?thesis
  proof (cases "fs_handles s (id_at s p)")
    case None
    then have "(fs_handles s)(id_at s p := None) = fs_handles s" by auto
    then show ?thesis
      using None tr d q r id assms(1)
      by (auto simp: retire_def quiet_def untrack_def put_req_def)
  next
    case (Some h)
    then have "h \<in> live w1" "winv w1" using assms(5) q by (auto simp: quiet_def)
    from release_law [OF this(2,1)] obtain w2 where
      rel: "bk_release be h w1 = Inr w2" "winv w2" "live w2 = live w1 - {h}" "room w2 = room w1"
        "time w1 \<le> time w2"
      by (auto simp: ok_iff)
    then show ?thesis
      using Some tr d q r id
      by (auto simp: retire_def quiet_def untrack_def put_req_def intro!: exI [of _ r]
          intro: req_inv_later)
  qed
qed

lemma retire_tracked:
  assumes "winv w" "sched_inv (live w) (time w) s" "p \<in> set (tracked s)"
    and "is_valid_transition (req_state (req_at s p)) to" "is_terminal to"
  shows "ok (retire be now to p (s, w)) (\<lambda>(s', w').
    winv w' \<and> room w' = room w \<and> time w \<le> time w' \<and>
    live w' = live w - set_option (fs_handles s (id_at s p)) \<and>
    sched_inv (live w') (time w') s' \<and>
    (\<exists>r. with_lifecycle to (req_at s p) r \<and> s' = untrack p r s))"
proof -
  have lt: "p < length (fs_requests s)" and ri: "req_inv (time w) (req_at s p)"
    using assms(2,3) tracked_lt by (auto simp: sched_inv_def requests_inv_def)
  have h: "set_option (fs_handles s (id_at s p)) \<subseteq> live w"
    using assms(2) by (auto simp: sched_inv_def handles_inv_def intro: ranI)
  obtain r w' where ret: "retire be now to p (s, w) = Inr (untrack p r s, w')"
    and w': "winv w'" "live w' = live w - set_option (fs_handles s (id_at s p))"
      "room w' = room w" "time w \<le> time w'"
    and r: "with_lifecycle to (req_at s p) r" "req_inv (time w') r"
    using ok_retire [OF assms(1) lt ri assms(4) h] by (auto simp: ok_iff)
  have "sched_inv (live w') (time w') (untrack p r s)"
    unfolding w'(2) using sched_inv_untrack [OF assms(2,3) w'(4), of r] r assms(5)
    by (simp add: with_lifecycle_sel [OF r(1)] id_at_def)
  then show ?thesis using ret w' r by auto
qed

lemma retire_decoding:
  assumes "winv w" "sched_inv (live w) (time w) s" "p \<in> set (fs_decoding s)"
    and "is_valid_transition kDecoding to"
  shows "ok (retire be now to p (s, w)) (\<lambda>(s', w').
    winv w' \<and> room w' = room w \<and> time w \<le> time w' \<and> sched_inv (live w') (time w') s' \<and>
    (\<exists>r. with_lifecycle to (req_at s p) r \<and> s' = untrack p r s))"
proof -
  have "is_terminal to" using assms(4) by (cases to) auto
  moreover have "p \<in> set (tracked s)" using assms(3) by (simp add: tracked_def)
  ultimately show ?thesis
    using assms(4) status_decoding(3) [OF assms(2,3)]
    by (intro ok_mono [OF retire_tracked [OF assms(1,2)]]) auto
qed

lemma fail_waiting_ok:
  assumes "winv w" "sched_inv L (time w) s" "p \<in> set (fs_waiting s)"
  shows "ok (fail_waiting be now p (s, w)) (\<lambda>(s', w').
    quiet w w' \<and> sched_inv L (time w') s' \<and>
    (\<exists>r. with_lifecycle kFailed (req_at s p) r \<and> s' = untrack p r s))"
proof -
  note st = status_waiting [OF assms(2,3)]
  obtain r1 w1 where one: "ptr_transition now kPrefilling p (s, w) = Inr (put_req p r1 s, w1)"
    and q1: "quiet w w1" and r1: "with_lifecycle kPrefilling (req_at s p) r1" "req_inv (time w1) r1"
    using ok_ptr_transition [OF assms(1) st(1,2), of kPrefilling] st(3) by (auto simp: ok_iff)
  have id1: "id_at (put_req p r1 s) = id_at s"
    using id_at_upd(1) [OF st(1)] with_lifecycle_sel(2) [OF r1(1)] by (simp add: id_at_def)
  have "ok (retire be now kFailed p (put_req p r1 s, w1)) (\<lambda>(s', w').
    winv w' \<and> live w' = live w1 \<and> room w' = room w1 \<and> time w1 \<le> time w' \<and>
    (\<exists>r. with_lifecycle kFailed r1 r \<and> req_inv (time w') r \<and> s' = untrack p r s))"
    using ok_retire [of w1 p "put_req p r1 s" kFailed] q1 r1 st(1,5) id1 with_lifecycle_sel(1) [OF r1(1)]
    by (simp add: quiet_def)
  then obtain r2 w2 where two: "retire be now kFailed p (put_req p r1 s, w1) = Inr (untrack p r2 s, w2)"
    and w2: "winv w2" "live w2 = live w1" "room w2 = room w1" "time w1 \<le> time w2"
    and r2: "with_lifecycle kFailed r1 r2" "req_inv (time w2) r2"
    by (auto simp: ok_iff)
  have r: "with_lifecycle kFailed (req_at s p) r2" by (rule with_lifecycle_trans [OF r1(1) r2(1)])
  have tr: "p \<in> set (tracked s)" using assms(3) by (simp add: tracked_def)
  have "sched_inv L (time w2) (untrack p r2 s)"
    using sched_inv_untrack [OF assms(2) tr, of "time w2" r2] r r2 w2 q1 st(5)
    by (simp add: with_lifecycle_sel [OF r] id_at_def quiet_def)
  then show ?thesis using one two w2 q1 r by (auto simp: fail_waiting_def quiet_def)
qed

lemma failed_batch_untrack:
  assumes "queues_inv s" "p \<in> set (tracked s)" "with_lifecycle kFailed (req_at s p) r"
  shows "failed_batch s [p] (untrack p r s)"
  using assms tracked_lt [OF assms(1,2)] queues_distinct [OF assms(1)]
  by (auto simp: failed_batch_def remove1_filter_distinct)

lemma fail_waiting_fold:
  assumes "winv w" "sched_inv (live w) (time w) s" "set ps \<subseteq> set (fs_waiting s)" "distinct ps"
  shows "ok (fold_res (fail_waiting be now) ps (s, w)) (\<lambda>(s', w').
    winv w' \<and> room w' = room w \<and> time w \<le> time w' \<and> sched_inv (live w') (time w') s' \<and>
    failed_batch s ps s')"
  using assms
proof (induction ps arbitrary: s w)
  case Nil
  then show ?case by simp
next
  case (Cons p ps)
  have tr: "p \<in> set (fs_waiting s)" using Cons.prems by simp
  obtain s1 w1 r where one: "fail_waiting be now p (s, w) = Inr (s1, w1)" and q: "quiet w w1"
    and inv1: "sched_inv (live w) (time w1) s1"
    and r: "with_lifecycle kFailed (req_at s p) r" "s1 = untrack p r s"
    using fail_waiting_ok [OF Cons.prems(1,2) tr] by (auto simp: ok_iff)
  have fb: "failed_batch s [p] s1"
    using failed_batch_untrack [of s p r] Cons.prems(2) tr r by (simp add: sched_inv_def tracked_def)
  have "ok (fold_res (fail_waiting be now) ps (s1, w1)) (\<lambda>(s', w').
    winv w' \<and> room w' = room w1 \<and> time w1 \<le> time w' \<and> sched_inv (live w') (time w') s' \<and>
    failed_batch s1 ps s')"
    using Cons.prems q inv1 fb by (intro Cons.IH) (auto simp: quiet_def failed_batch_def)
  then show ?case
    using one q Cons.prems(4) failed_batch_append [OF fb, of ps]
    by (auto simp: quiet_def elim!: ok_mono)
qed

lemma fail_decoding_fold:
  assumes "winv w" "sched_inv (live w) (time w) s" "set ps \<subseteq> set (fs_decoding s)" "distinct ps"
  shows "ok (fold_res (retire be now kFailed) ps (s, w)) (\<lambda>(s', w').
    winv w' \<and> room w' = room w \<and> time w \<le> time w' \<and> sched_inv (live w') (time w') s' \<and>
    failed_batch s ps s')"
  using assms
proof (induction ps arbitrary: s w)
  case Nil
  then show ?case by simp
next
  case (Cons p ps)
  have tr: "p \<in> set (fs_decoding s)" using Cons.prems by simp
  obtain s1 w1 r where one: "retire be now kFailed p (s, w) = Inr (s1, w1)"
    and w1: "winv w1" "room w1 = room w" "time w \<le> time w1"
    and inv1: "sched_inv (live w1) (time w1) s1"
    and r: "with_lifecycle kFailed (req_at s p) r" "s1 = untrack p r s"
    using retire_decoding [OF Cons.prems(1,2) tr, of kFailed] by (auto simp: ok_iff)
  have fb: "failed_batch s [p] s1"
    using failed_batch_untrack [of s p r] Cons.prems(2) tr r by (simp add: sched_inv_def tracked_def)
  have "ok (fold_res (retire be now kFailed) ps (s1, w1)) (\<lambda>(s', w').
    winv w' \<and> room w' = room w1 \<and> time w1 \<le> time w' \<and> sched_inv (live w') (time w') s' \<and>
    failed_batch s1 ps s')"
    using Cons.prems w1 inv1 fb by (intro Cons.IH) (auto simp: failed_batch_def)
  then show ?case
    using one w1 Cons.prems(4) failed_batch_append [OF fb, of ps]
    by (auto elim!: ok_mono)
qed

lemma collect_expired_ok:
  assumes "winv w" "set ps \<subseteq> {..<length (fs_requests s)}"
  shows "ok (collect_expired now s ps w) (\<lambda>(es, w').
    quiet w w' \<and> subseq es ps \<and>
    (\<forall>p \<in> set ps. req_deadline_at (req_at s p) < time w \<longrightarrow> p \<in> set es) \<and>
    (\<forall>p \<in> set es. req_deadline_at (req_at s p) < time w'))"
  using assms
proof (induction ps arbitrary: w)
  case Nil
  then show ?case by (simp add: quiet_refl)
next
  case (Cons p ps)
  obtain t w1 where n: "now w = (t, w1)" by force
  note q = now_quiet [OF Cons.prems(1) n]
  have w1: "winv w1" using q by (simp add: quiet_def)
  obtain es w2 where rest: "collect_expired now s ps w1 = Inr (es, w2)" and q2: "quiet w1 w2"
    and es: "subseq es ps" "\<forall>p \<in> set ps. req_deadline_at (req_at s p) < time w1 \<longrightarrow> p \<in> set es"
      "\<forall>p \<in> set es. req_deadline_at (req_at s p) < time w2"
    using Cons.IH [OF w1] Cons.prems(2) by (auto simp: ok_iff)
  have le: "time w \<le> time w1" "time w1 \<le> time w2" using q q2 by (auto simp: quiet_def)
  have old: "\<forall>p \<in> set ps. req_deadline_at (req_at s p) < time w \<longrightarrow> p \<in> set es"
    using es(2) le(1) by force
  have "deref s p = Inr (req_at s p)" using Cons.prems(2) by (simp add: deref_def req_at_def)
  then show ?case
    using n rest q le es(1,3) old quiet_trans [OF _ q2, of w] by auto
qed

text \<open>The first phase of a tick fails exactly the requests whose deadline has passed.\<close>

lemma expire_deadlines_ok:
  assumes "winv w" "sched_inv (live w) (time w) s"
  shows "ok (expire_deadlines be now (s, w)) (\<lambda>(rep, s', w').
    winv w' \<and> room w' = room w \<and> time w \<le> time w' \<and> sched_inv (live w') (time w') s' \<and>
    (\<exists>es. failed_batch s es s' \<and> distinct es \<and> set es \<subseteq> set (tracked s) \<and>
       tr_expired_count rep = length es \<and>
       (\<forall>p \<in> set (tracked s). req_deadline_at (req_at s p) < time w \<longrightarrow> p \<in> set es) \<and>
       (\<forall>p \<in> set es. req_deadline_at (req_at s p) < time w')))"
proof -
  obtain t w1 where n: "now w = (t, w1)" by force
  note q1 = now_quiet [OF assms(1) n, THEN conjunct1]
  have qs: "queues_inv s" using assms(2) by (simp add: sched_inv_def)
  have lts: "set (fs_waiting s) \<subseteq> {..<length (fs_requests s)}"
    "set (fs_decoding s) \<subseteq> {..<length (fs_requests s)}"
    using qs by (auto simp: queues_inv_def tracked_def)
  obtain ew w2 where ew: "collect_expired now s (fs_waiting s) w1 = Inr (ew, w2)" "quiet w1 w2"
    "subseq ew (fs_waiting s)"
    "\<forall>p \<in> set (fs_waiting s). req_deadline_at (req_at s p) < time w1 \<longrightarrow> p \<in> set ew"
    "\<forall>p \<in> set ew. req_deadline_at (req_at s p) < time w2"
    using collect_expired_ok [OF _ lts(1), of w1] q1 by (auto simp: ok_iff quiet_def)
  obtain ed w3 where ed: "collect_expired now s (fs_decoding s) w2 = Inr (ed, w3)" "quiet w2 w3"
    "subseq ed (fs_decoding s)"
    "\<forall>p \<in> set (fs_decoding s). req_deadline_at (req_at s p) < time w2 \<longrightarrow> p \<in> set ed"
    "\<forall>p \<in> set ed. req_deadline_at (req_at s p) < time w3"
    using collect_expired_ok [OF _ lts(2), of w2] ew(2) by (auto simp: ok_iff quiet_def)
  have q3: "quiet w w3" using q1 ew(2) ed(2) quiet_trans by blast
  have inv3: "winv w3" "sched_inv (live w3) (time w3) s"
    using q3 sched_inv_later [OF assms(2)] by (auto simp: quiet_def)
  have sub: "set ew \<subseteq> set (fs_waiting s)" "distinct ew" "set ed \<subseteq> set (fs_decoding s)" "distinct ed"
    using subseq_subset [OF ew(3)] subseq_subset [OF ed(3)] subseq_distinctD [OF ew(3)]
      subseq_distinctD [OF ed(3)] queues_distinct [OF qs] by blast+
  have disj: "set ew \<inter> set ed = {}" using sub queues_disjoint [OF qs] by blast
  obtain s4 w4 where f1: "fold_res (fail_waiting be now) ew (s, w3) = Inr (s4, w4)"
    "winv w4" "room w4 = room w3" "time w3 \<le> time w4" "sched_inv (live w4) (time w4) s4"
    "failed_batch s ew s4"
    using fail_waiting_fold [OF inv3 sub(1,2)] by (auto simp: ok_iff)
  have "set ed \<subseteq> set (fs_decoding s4)" using f1(6) sub disj by (auto simp: failed_batch_def)
  then obtain s5 w5 where f2: "fold_res (retire be now kFailed) ed (s4, w4) = Inr (s5, w5)"
    "winv w5" "room w5 = room w4" "time w4 \<le> time w5" "sched_inv (live w5) (time w5) s5"
    "failed_batch s4 ed s5"
    using fail_decoding_fold [OF f1(2,5) _ sub(4)] by (auto simp: ok_iff)
  have fb: "failed_batch s (ew @ ed) s5" by (rule failed_batch_append [OF f1(6) f2(6) disj])
  have le: "time w \<le> time w1" "time w1 \<le> time w2" "time w2 \<le> time w3" "time w3 \<le> time w5"
    using q1 ew(2) ed(2) f1(4) f2(4) by (auto simp: quiet_def)
  have early: "\<forall>p \<in> set (tracked s). req_deadline_at (req_at s p) < time w \<longrightarrow> p \<in> set (ew @ ed)"
    using ew(4) ed(4) le unfolding tracked_def by fastforce
  have late: "\<forall>p \<in> set (ew @ ed). req_deadline_at (req_at s p) < time w5"
    using ew(5) ed(5) le by fastforce
  have "distinct (ew @ ed)" "set (ew @ ed) \<subseteq> set (tracked s)"
    using sub disj by (auto simp: tracked_def)
  then show ?thesis
    using n ew(1) ed(1) f1(1,3) f2(1,2,3,5) fb early late le q3
    by (auto simp: expire_deadlines_def quiet_def intro!: exI [of _ "ew @ ed"])
qed

text \<open>One successful outcome of the prefill batch: the request is promoted in this very tick.\<close>

lemma promote_ok:
  assumes "winv w" "sched_inv L (time w) s" "p \<in> set (fs_waiting s)" "h \<notin> L"
  shows "ok (prefill_one be now p (Inr h) (rep, s, w)) (\<lambda>(rep', s', w').
    quiet w w' \<and> sched_inv (insert h L) (time w') s' \<and>
    rep' = rep\<lparr>tr_prefill_succeeded := tr_prefill_succeeded rep + 1\<rparr> \<and>
    (\<exists>r. with_lifecycle kDecoding (req_at s p) r \<and> s' = promote p h r s))"
proof -
  note st = status_waiting [OF assms(2,3)]
  let ?s = "s\<lparr>fs_handles := (fs_handles s)(req_id (req_at s p) \<mapsto> h)\<rparr>"
  have at: "req_at ?s q = req_at s q" for q by (simp add: req_at_def)
  have len: "length (fs_requests ?s) = length (fs_requests s)" by simp
  obtain r1 w1 where one: "ptr_transition now kPrefilling p (?s, w) = Inr (put_req p r1 ?s, w1)"
    and q1: "quiet w w1" and r1: "with_lifecycle kPrefilling (req_at s p) r1" "req_inv (time w1) r1"
    using ok_ptr_transition [OF assms(1), of p ?s kPrefilling] st by (auto simp: ok_iff at)
  obtain r2 w2 where two: "ptr_transition now kWaitingDecode p (put_req p r1 ?s, w1) = Inr (put_req p r2 ?s, w2)"
    and q2: "quiet w1 w2" and r2: "with_lifecycle kWaitingDecode r1 r2" "req_inv (time w2) r2"
    using ok_ptr_transition [of w1 p "put_req p r1 ?s" kWaitingDecode] st(1) q1 r1(2)
      with_lifecycle_sel(1) [OF r1(1)] by (auto simp: ok_iff quiet_def)
  obtain r3 w3 where three: "ptr_transition now kDecoding p (put_req p r2 ?s, w2) = Inr (put_req p r3 ?s, w3)"
    and q3: "quiet w2 w3" and r3: "with_lifecycle kDecoding r2 r3" "req_inv (time w3) r3"
    using ok_ptr_transition [of w2 p "put_req p r2 ?s" kDecoding] st(1) q2 r2(2)
      with_lifecycle_sel(1) [OF r2(1)] by (auto simp: ok_iff quiet_def)
  have q: "quiet w w3" using q1 q2 q3 quiet_trans by blast
  have r: "with_lifecycle kDecoding (req_at s p) r3"
    using r1(1) r2(1) r3(1) with_lifecycle_trans by blast
  note sel = with_lifecycle_sel [OF r]
  have fresh: "fs_handles s (req_id (req_at s p)) = None" using st(5) by (simp add: id_at_def)
  have dist: "distinct (fs_waiting s)" using assms(2) queues_distinct by (auto simp: sched_inv_def)
  have res: "(put_req p r3 ?s)\<lparr>fs_waiting := removeAll p (fs_waiting s),
      fs_decoding := fs_decoding s @ [p]\<rparr> = promote p h r3 s"
    using dist sel(2) by (simp add: promote_def put_req_def distinct_remove1_removeAll)
  have "req_output_tokens_emitted (req_at s p) = 0"
  proof -
    have "lc_first_token_at (req_lifecycle (req_at s p)) = None"
      using st(2,3) by (auto simp: req_inv_def lc_inv_def lc_token_inv_def req_state_def)
    then show ?thesis using st(2) by (auto simp: req_inv_def)
  qed
  then have "sched_inv (insert h L) (time w3) (promote p h r3 s)"
    using sched_inv_promote [OF assms(2,3), of "time w3" r3 h] q sel r3(2) st(4) assms(4)
    by (simp add: id_at_def quiet_def)
  then show ?thesis
    using one two three q r res st(1) fresh
    by (auto simp: prefill_one_def deref_def req_at_def [symmetric] Let_def)
qed

lemma prefill_fail_ok:
  assumes "winv w" "sched_inv L (time w) s" "p \<in> set (fs_waiting s)"
  shows "ok (prefill_one be now p (Inl e) (rep, s, w)) (\<lambda>(rep', s', w').
    quiet w w' \<and> sched_inv L (time w') s' \<and>
    rep' = rep\<lparr>tr_prefill_failed := tr_prefill_failed rep + 1\<rparr> \<and>
    (\<exists>r. with_lifecycle kFailed (req_at s p) r \<and> s' = untrack p r s))"
  using fail_waiting_ok [OF assms] by (auto simp: prefill_one_def ok_iff)

end

lemma succeeded_Cons [simp]:
  "succeeded (p # ps) (out # outs) = (if isl out then [] else [p]) @ succeeded ps outs"
  by (auto simp: succeeded_def)

lemma succeeded_Nil [simp]: "succeeded [] outs = []"
  by (simp add: succeeded_def)

lemma prefilled_Cons:
  assumes one: "s1 = (if isl out then untrack p r s else promote p h r s)"
    and r: "with_lifecycle (if isl out then kFailed else kDecoding) (req_at s p) r"
    and q: "queues_inv s" "p \<in> set (fs_waiting s)" "p \<notin> set ps" "set ps \<subseteq> set (fs_waiting s)"
    and rest: "prefilled s1 ps outs s'"
  shows "prefilled s (p # ps) (out # outs) s'"
proof -
  have lt: "p < length (fs_requests s)" using q by (auto simp: tracked_def dest: tracked_lt)
  have nd: "p \<notin> set (fs_decoding s)" using q queues_disjoint by auto
  have at: "req_at s1 x = (if x = p then r else req_at s x)" for x
    using lt by (simp add: one)
  have len: "length (fs_requests s1) = length (fs_requests s)" by (simp add: one)
  have wt: "fs_waiting s1 = filter (\<lambda>x. x \<noteq> p) (fs_waiting s)"
    using queues_distinct [OF q(1)] by (simp add: one remove1_filter_distinct)
  have dc: "fs_decoding s1 = fs_decoding s @ (if isl out then [] else [p])"
    using nd by (simp add: one remove1_idem)
  have "req_at s' p = r" using rest q(3) lt by (simp add: prefilled_def len at)
  moreover have "ps ! i \<noteq> p" if "i < length ps" for i using that q(3) by (auto dest: nth_mem)
  ultimately have "\<forall>i < length (p # ps).
      with_lifecycle (if isl ((out # outs) ! i) then kFailed else kDecoding)
        (req_at s ((p # ps) ! i)) (req_at s' ((p # ps) ! i))"
    using rest r by (auto simp: prefilled_def at nth_Cons split: nat.splits)
  then show ?thesis
    using rest by (auto simp: prefilled_def len at wt dc intro: filter_cong)
qed

context backend_contract
begin

lemma prefill_loop_ok:
  assumes "length ps = length outs" "winv w" "sched_inv L (time w) s"
    and "set ps \<subseteq> set (fs_waiting s)" "distinct ps"
    and "live w = L \<union> set (successes outs)" "L \<inter> set (successes outs) = {}"
    and "distinct (successes outs)"
  shows "ok (outcome_loop (prefill_one be now) ps outs (rep, s, w)) (\<lambda>(rep', s', w').
    quiet w w' \<and> sched_inv (live w') (time w') s' \<and> prefilled s ps outs s' \<and>
    rep' = rep\<lparr>tr_prefill_succeeded := tr_prefill_succeeded rep + length (succeeded ps outs),
               tr_prefill_failed := tr_prefill_failed rep + (length ps - length (succeeded ps outs))\<rparr>)"
  using assms
proof (induction ps outs arbitrary: rep s w L rule: list_induct2)
  case Nil
  then show ?case by (auto simp: quiet_refl prefilled_def)
next
  case (Cons p ps out outs)
  have p: "p \<in> set (fs_waiting s)" "p \<notin> set ps" "set ps \<subseteq> set (fs_waiting s)" "distinct ps"
    using Cons.prems by auto
  have qs: "queues_inv s" using Cons.prems(2) by (simp add: sched_inv_def)
  have le: "length (succeeded ps outs) \<le> length ps"
    by (simp add: succeeded_def) (metis Cons.hyps length_filter_le length_zip min.idem)
  show ?case
  proof (cases out)
    case (Inl e)
    obtain w1 r where one: "prefill_one be now p out (rep, s, w) =
        Inr (rep\<lparr>tr_prefill_failed := tr_prefill_failed rep + 1\<rparr>, untrack p r s, w1)"
      and q: "quiet w w1" and inv1: "sched_inv L (time w1) (untrack p r s)"
      and r: "with_lifecycle kFailed (req_at s p) r"
      using prefill_fail_ok [OF Cons.prems(1,2) p(1), of e rep] Inl by (auto simp: ok_iff)
    have pre: "winv w1" "set ps \<subseteq> set (fs_waiting (untrack p r s))"
      "live w1 = L \<union> set (successes outs)" "L \<inter> set (successes outs) = {}" "distinct (successes outs)"
      using q p Cons.prems(5-7) Inl by (auto simp: quiet_def set_remove1_queues [OF qs])
    note IH = Cons.IH [OF pre(1) inv1 pre(2) p(4) pre(3-5)]
    have "prefilled s (p # ps) (out # outs) s'" if "prefilled (untrack p r s) ps outs s'" for s'
      using Inl r by (intro prefilled_Cons [OF _ _ qs p(1-3) that]) auto
    then show ?thesis
      using one Inl le
      by (auto intro!: ok_mono [OF IH] intro: quiet_trans [OF q] simp: Suc_diff_le)
  next
    case (Inr h)
    have h: "h \<notin> L" using Cons.prems(6) Inr by simp
    obtain w1 r where one: "prefill_one be now p out (rep, s, w) =
        Inr (rep\<lparr>tr_prefill_succeeded := tr_prefill_succeeded rep + 1\<rparr>, promote p h r s, w1)"
      and q: "quiet w w1" and inv1: "sched_inv (insert h L) (time w1) (promote p h r s)"
      and r: "with_lifecycle kDecoding (req_at s p) r"
      using promote_ok [OF Cons.prems(1,2) p(1) h, of rep] Inr by (auto simp: ok_iff)
    have pre: "winv w1" "set ps \<subseteq> set (fs_waiting (promote p h r s))"
      "live w1 = insert h L \<union> set (successes outs)" "insert h L \<inter> set (successes outs) = {}"
      "distinct (successes outs)"
      using q p Cons.prems(5-7) Inr by (auto simp: quiet_def set_remove1_queues [OF qs])
    note IH = Cons.IH [OF pre(1) inv1 pre(2) p(4) pre(3-5)]
    have "prefilled s (p # ps) (out # outs) s'" if "prefilled (promote p h r s) ps outs s'" for s'
      using Inr r by (intro prefilled_Cons [OF _ _ qs p(1-3) that]) auto
    then show ?thesis
      using one Inr by (auto intro!: ok_mono [OF IH] intro: quiet_trans [OF q])
  qed
qed

lemma prefill_phase_ok:
  assumes "winv w" "sched_inv (live w) (time w) s" "length (fs_waiting s) \<le> room w"
  shows "ok (prefill_phase be now (s, w)) (\<lambda>(rep, s', w').
    winv w' \<and> room w \<le> room w' + length (fs_waiting s) \<and> time w \<le> time w' \<and>
    sched_inv (live w') (time w') s' \<and>
    (\<exists>outs. length outs = length (fs_waiting s) \<and> prefilled s (fs_waiting s) outs s' \<and>
       tr_prefill_attempted rep = length (fs_waiting s) \<and>
       tr_prefill_tokens rep =
         sum_list (map (\<lambda>p. length (req_prompt_token_ids (req_at s p))) (fs_waiting s)) \<and>
       tr_prefill_succeeded rep = length (succeeded (fs_waiting s) outs) \<and>
       tr_prefill_failed rep = length (fs_waiting s) - length (succeeded (fs_waiting s) outs)))"
proof -
  let ?ps = "fs_waiting s"
  obtain t w1 where n: "now w = (t, w1)" by force
  note q1 = now_quiet [OF assms(1) n, THEN conjunct1]
  have qs: "queues_inv s" using assms(2) by (simp add: sched_inv_def)
  have rs: "map_res (deref s) ?ps = Inr (map (req_at s) ?ps)"
    using qs by (intro map_res_Inr) (auto simp: deref_def req_at_def queues_inv_def tracked_def)
  let ?batch = "map req_prompt_token_ids (map (req_at s) ?ps)"
  obtain outs w2 where pf: "bk_prefill be ?batch w1 = Inr (outs, w2)"
    and w2: "winv w2" "length outs = length ?ps" "distinct (successes outs)"
      "set (successes outs) \<inter> live w1 = {}" "live w2 = live w1 \<union> set (successes outs)"
      "room w1 \<le> room w2 + length ?ps" "time w1 \<le> time w2"
    using prefill_law [of w1 ?batch] q1 assms(3) by (auto simp: ok_iff quiet_def)
  have inv2: "sched_inv (live w) (time w2) s"
    using sched_inv_later [OF assms(2)] q1 w2(7) by (auto simp: quiet_def)
  let ?rep = "(TickReport_new t)\<lparr>tr_prefill_tokens := sum_list (map length ?batch),
                                  tr_prefill_attempted := length ?ps\<rparr>"
  have loop: "ok (outcome_loop (prefill_one be now) ?ps outs (?rep, s, w2)) (\<lambda>(rep', s', w').
    quiet w2 w' \<and> sched_inv (live w') (time w') s' \<and> prefilled s ?ps outs s' \<and>
    rep' = ?rep\<lparr>tr_prefill_succeeded := tr_prefill_succeeded ?rep + length (succeeded ?ps outs),
               tr_prefill_failed := tr_prefill_failed ?rep + (length ?ps - length (succeeded ?ps outs))\<rparr>)"
    using w2 q1 queues_distinct [OF qs]
    by (intro prefill_loop_ok [where L = "live w"] inv2) (auto simp: quiet_def)
  show ?thesis
    using n rs pf w2 q1 loop
    by (auto simp: prefill_phase_def Let_def ok_iff quiet_def TickReport_new_def comp_def)
qed

text \<open>A decoded token is emitted by a decoding request, which stays within the invariant.\<close>

lemma decode_emit_ok:
  assumes w: "winv w" and r: "req_inv (time w) r" "req_state r = kDecoding"
      "req_output_tokens_emitted r < req_max_output_tokens r"
  obtains t w1 r1 where "first_token_clock now r w = (t, w1)" "quiet w w1" "emit_token t tok r = Inr r1"
    "with_lifecycle kDecoding (r\<lparr>req_output_tokens_emitted := req_output_tokens_emitted r + 1,
       req_output_token_ids := req_output_token_ids r @ [tok]\<rparr>) r1" "req_inv (time w1) r1"
proof -
  obtain t w1 where n: "first_token_clock now r w = (t, w1)" by force
  have q: "quiet w w1"
    using n now_quiet [OF w] quiet_refl [OF w] by (auto simp: first_token_clock_def split: if_splits)
  obtain r1 where emit: "emit_token t tok r = Inr r1"
    and r1: "with_lifecycle kDecoding (r\<lparr>req_output_tokens_emitted := req_output_tokens_emitted r + 1,
       req_output_token_ids := req_output_token_ids r @ [tok]\<rparr>) r1"
    using emit_token_lifecycle [OF r(2,3), of t tok] by (auto simp: with_lifecycle_def)
  have "req_inv (time w1) r1"
  proof (cases "lc_first_token_at (req_lifecycle r)")
    case None
    then have "time w \<le> t \<and> t \<le> time w1"
      using n now_quiet [OF w] r(2) by (auto simp: first_token_clock_def)
    then show ?thesis using req_inv_emit [OF r(1) _ emit] req_inv_later by blast
  next
    case (Some f)
    then have "emit_token (time w) tok r = Inr r1" using emit by (simp add: emit_token_Inr)
    then have "req_inv (time w) r1" by (rule req_inv_emit [OF r(1) order_refl])
    then show ?thesis by (rule req_inv_later) (use q in \<open>simp add: quiet_def\<close>)
  qed
  then show thesis by (rule that [OF n q emit r1])
qed

text \<open>Completing a request right after its last token was stored.\<close>

lemma retire_completed_ok:
  assumes inv: "sched_inv (live w) (time w) s" and p: "p \<in> set (fs_decoding s)" and q: "quiet w w1"
    and r1: "req_id r1 = id_at s p" "req_state r1 = kDecoding" "req_inv (time w1) r1"
  obtains r2 w2 where "retire be now kCompleted p (put_req p r1 s, w1) = Inr (untrack p r2 s, w2)"
    "winv w2" "room w2 = room w" "time w \<le> time w2" "sched_inv (live w2) (time w2) (untrack p r2 s)"
    "with_lifecycle kCompleted r1 r2"
proof -
  note d = status_decoding [OF inv p]
  have id1: "id_at (put_req p r1 s) = id_at s" by (rule id_at_upd(1) [OF d(1) r1(1)])
  have pre: "winv w1" "p < length (fs_requests (put_req p r1 s))"
    "req_inv (time w1) (req_at (put_req p r1 s) p)"
    "is_valid_transition (req_state (req_at (put_req p r1 s) p)) kCompleted"
    using q d(1) r1(2,3) by (simp_all add: quiet_def)
  have lv: "live w1 = live w" using q by (simp add: quiet_def)
  obtain h where h: "fs_handles s (id_at s p) = Some h" "h \<in> live w" using d(5) by blast
  have "set_option (fs_handles (put_req p r1 s) (id_at (put_req p r1 s) p)) \<subseteq> live w1"
    unfolding id1 put_req_sel h(1) lv using h(2) by simp
  note ret = ok_retire [OF pre this, unfolded id1 put_req_sel untrack_put req_at_upd(1) [OF d(1)]]
  obtain r2 w2 where ret: "retire be now kCompleted p (put_req p r1 s, w1) = Inr (untrack p r2 s, w2)"
    and w2: "winv w2" "live w2 = live w1 - set_option (fs_handles s (id_at s p))"
      "room w2 = room w1" "time w1 \<le> time w2"
    and r2: "with_lifecycle kCompleted r1 r2" "req_inv (time w2) r2"
    using ret by (auto simp: ok_iff)
  have tr: "p \<in> set (tracked s)" using p by (simp add: tracked_def)
  have "sched_inv (live w2) (time w2) (untrack p r2 s)"
    using sched_inv_untrack [OF inv tr, of "time w2" r2] q w2 r2(2) r1(1)
      with_lifecycle_sel(1,2) [OF r2(1)] by (simp add: quiet_def)
  then show thesis using that [OF ret] w2 q r2(1) by (auto simp: quiet_def)
qed

lemma decode_token_ok:
  assumes "winv w" "sched_inv (live w) (time w) s" "p \<in> set (fs_decoding s)"
  shows "ok (decode_one be now p (Inr tok) (rep, s, w)) (\<lambda>(rep', s', w').
    winv w' \<and> room w' = room w \<and> time w \<le> time w' \<and> sched_inv (live w') (time w') s' \<and>
    (\<exists>r. decode_effect (Inr tok) (req_at s p) r \<and>
       (if req_state r = kDecoding then s' = put_req p r s \<and> rep' = rep
        else s' = untrack p r s \<and>
          rep' = rep\<lparr>tr_decode_completed := tr_decode_completed rep + 1\<rparr>)))"
proof -
  note d = status_decoding [OF assms(2,3)]
  let ?r = "req_at s p"
  let ?done = "dt_finished tok \<or> req_output_tokens_emitted ?r + 1 \<ge> req_max_output_tokens ?r"
  obtain t w1 r1 where n: "first_token_clock now ?r w = (t, w1)" and q: "quiet w w1"
    and emit: "emit_token t (dt_token_id tok) ?r = Inr r1"
    and r1: "with_lifecycle kDecoding (?r\<lparr>req_output_tokens_emitted := req_output_tokens_emitted ?r + 1,
       req_output_token_ids := req_output_token_ids ?r @ [dt_token_id tok]\<rparr>) r1"
    and inv_r1: "req_inv (time w1) r1"
    by (rule decode_emit_ok [OF assms(1) d(2,3,4)])
  have sel: "req_state r1 = kDecoding" "req_id r1 = id_at s p"
    "req_output_tokens_emitted r1 = req_output_tokens_emitted ?r + 1"
    "req_max_output_tokens r1 = req_max_output_tokens ?r"
    using r1 by (auto simp: with_lifecycle_def id_at_def)
  have dr: "deref s p = Inr ?r" using d(1) by (simp add: deref_def req_at_def)
  show ?thesis
  proof (cases ?done)
    case False
    have "sched_inv (live w1) (time w1) (put_req p r1 s)"
      using sched_inv_put [OF assms(2,3), of "time w1" r1] q sel inv_r1 False by (simp add: quiet_def)
    moreover have "decode_effect (Inr tok) ?r r1" using r1 False by (simp add: decode_effect_def)
    ultimately show ?thesis
      using n dr emit q sel False by (auto simp: decode_one_def Let_def quiet_def)
  next
    case True
    obtain r2 w2 where ret: "retire be now kCompleted p (put_req p r1 s, w1) = Inr (untrack p r2 s, w2)"
      and w2: "winv w2" "room w2 = room w" "time w \<le> time w2" "sched_inv (live w2) (time w2) (untrack p r2 s)"
      and r2: "with_lifecycle kCompleted r1 r2"
      by (rule retire_completed_ok [OF assms(2,3) q sel(2,1) inv_r1])
    have "decode_effect (Inr tok) ?r r2"
      using with_lifecycle_trans [OF r1 r2] True by (simp add: decode_effect_def)
    then show ?thesis
      using n dr emit sel True ret w2 with_lifecycle_sel(1) [OF r2]
      by (auto simp: decode_one_def Let_def)
  qed
qed

text \<open>One outcome of the decode batch, of either kind.\<close>

lemma decode_one_ok:
  assumes "winv w" "sched_inv (live w) (time w) s" "p \<in> set (fs_decoding s)"
  shows "ok (decode_one be now p out (rep, s, w)) (\<lambda>(rep', s', w').
    winv w' \<and> room w' = room w \<and> time w \<le> time w' \<and> sched_inv (live w') (time w') s' \<and>
    (\<exists>r. decode_effect out (req_at s p) r \<and>
       s' = (if req_state r = kDecoding then put_req p r s else untrack p r s) \<and>
       rep' = rep\<lparr>tr_decode_completed := tr_decode_completed rep + of_bool (req_state r = kCompleted),
                  tr_decode_failed := tr_decode_failed rep + of_bool (req_state r = kFailed)\<rparr>))"
proof (cases out)
  case (Inl e)
  obtain r w1 where "retire be now kFailed p (s, w) = Inr (untrack p r s, w1)"
    "winv w1" "room w1 = room w" "time w \<le> time w1" "sched_inv (live w1) (time w1) (untrack p r s)"
    and r: "with_lifecycle kFailed (req_at s p) r"
    using retire_decoding [OF assms, of kFailed] by (auto simp: ok_iff)
  then show ?thesis
    using Inl with_lifecycle_sel(1) [OF r] by (auto simp: decode_one_def decode_effect_def)
next
  case (Inr tok)
  have st: "req_state r = kDecoding \<or> req_state r = kCompleted"
    if "decode_effect (Inr tok) (req_at s p) r" for r
    using that by (auto simp: decode_effect_def dest: with_lifecycle_sel(1) split: if_splits)
  obtain rep1 s1 w1 r where run: "decode_one be now p (Inr tok) (rep, s, w) = Inr (rep1, s1, w1)"
    and w1: "winv w1" "room w1 = room w" "time w \<le> time w1" "sched_inv (live w1) (time w1) s1"
    and r: "decode_effect (Inr tok) (req_at s p) r"
    and eff: "if req_state r = kDecoding then s1 = put_req p r s \<and> rep1 = rep
        else s1 = untrack p r s \<and>
          rep1 = rep\<lparr>tr_decode_completed := tr_decode_completed rep + 1\<rparr>"
    using decode_token_ok [OF assms, of tok rep] by (auto simp: ok_iff)
  from st [OF r] show ?thesis
    using Inr run w1 r eff by (auto intro!: exI [of _ r])
qed

end

lemma decode_effect_state:
  "decode_effect out r r' \<Longrightarrow> req_state r' \<in> {kDecoding, kCompleted, kFailed}"
  by (auto simp: decode_effect_def with_lifecycle_def split: sum.splits if_splits)

lemma decoded_Cons:
  assumes one: "s1 = (if req_state r = kDecoding then put_req p r s else untrack p r s)"
    and r: "decode_effect out (req_at s p) r"
    and q: "queues_inv s" "p \<in> set (fs_decoding s)" "p \<notin> set ps" "set ps \<subseteq> set (fs_decoding s)"
    and rest: "decoded s1 ps outs s'"
  shows "decoded s (p # ps) (out # outs) s'"
proof -
  have lt: "p < length (fs_requests s)" using q by (auto simp: tracked_def dest: tracked_lt)
  have nw: "p \<notin> set (fs_waiting s)" using q queues_disjoint by auto
  have at: "req_at s1 x = (if x = p then r else req_at s x)" for x
    using lt by (simp add: one)
  have len: "length (fs_requests s1) = length (fs_requests s)" by (simp add: one)
  have wt: "fs_waiting s1 = fs_waiting s" using nw by (simp add: one remove1_idem)
  have at_p: "req_at s' p = r" using rest q(3) lt by (simp add: decoded_def len at)
  have dc: "fs_decoding s' = filter (\<lambda>x. req_state (req_at s' x) = kDecoding) (fs_decoding s)"
    using rest at_p queues_distinct [OF q(1)]
    by (auto simp: decoded_def one remove1_filter_distinct intro: filter_cong)
  have "ps ! i \<noteq> p" if "i < length ps" for i using that q(3) by (auto dest: nth_mem)
  then have "\<forall>i < length (p # ps). decode_effect ((out # outs) ! i)
        (req_at s ((p # ps) ! i)) (req_at s' ((p # ps) ! i))"
    using rest r at_p by (auto simp: decoded_def at nth_Cons split: nat.splits)
  then show ?thesis using rest dc by (auto simp: decoded_def len at wt)
qed

definition in_state :: "FifoScheduler \<Rightarrow> RequestState \<Rightarrow> ReqPtr list \<Rightarrow> nat" where
  "in_state s st ps = length (filter (\<lambda>p. req_state (req_at s p) = st) ps)"

context backend_contract
begin

lemma decode_loop_ok:
  assumes "length ps = length outs" "winv w" "sched_inv (live w) (time w) s"
    and "set ps \<subseteq> set (fs_decoding s)" "distinct ps"
  shows "ok (outcome_loop (decode_one be now) ps outs (rep, s, w)) (\<lambda>(rep', s', w').
    winv w' \<and> room w' = room w \<and> time w \<le> time w' \<and> sched_inv (live w') (time w') s' \<and>
    decoded s ps outs s' \<and>
    rep' = rep\<lparr>tr_decode_completed := tr_decode_completed rep + in_state s' kCompleted ps,
               tr_decode_failed := tr_decode_failed rep + in_state s' kFailed ps\<rparr>)"
  using assms
proof (induction ps outs arbitrary: rep s w rule: list_induct2)
  case Nil
  have "filter (\<lambda>p. req_state (req_at s p) = kDecoding) (fs_decoding s) = fs_decoding s"
    using status_decoding(3) [OF Nil(2)] by (simp add: filter_id_conv)
  then show ?case using Nil by (auto simp: decoded_def in_state_def)
next
  case (Cons p ps out outs)
  have p: "p \<in> set (fs_decoding s)" "p \<notin> set ps" "set ps \<subseteq> set (fs_decoding s)" "distinct ps"
    using Cons.prems by auto
  have qs: "queues_inv s" using Cons.prems(2) by (simp add: sched_inv_def)
  obtain w1 s1 r rep1 where one: "decode_one be now p out (rep, s, w) = Inr (rep1, s1, w1)"
    and w1: "winv w1" "room w1 = room w" "time w \<le> time w1"
    and inv1: "sched_inv (live w1) (time w1) s1"
    and r: "decode_effect out (req_at s p) r"
    and s1: "s1 = (if req_state r = kDecoding then put_req p r s else untrack p r s)"
    and rep1: "rep1 = rep\<lparr>tr_decode_completed := tr_decode_completed rep + of_bool (req_state r = kCompleted),
                  tr_decode_failed := tr_decode_failed rep + of_bool (req_state r = kFailed)\<rparr>"
    using decode_one_ok [OF Cons.prems(1,2) p(1), of out rep] by (auto simp: ok_iff)
  have pre: "set ps \<subseteq> set (fs_decoding s1)"
    using p by (auto simp: s1 set_remove1_queues [OF qs])
  have lt: "p < length (fs_requests s)" by (rule status_decoding(1) [OF Cons.prems(2) p(1)])
  have dec: "decoded s (p # ps) (out # outs) s'" if "decoded s1 ps outs s'" for s'
    by (rule decoded_Cons [OF s1 r qs p(1-3) that])
  have at_p: "req_at s' p = r" if "decoded s1 ps outs s'" for s'
    using that p(2) lt by (simp add: decoded_def s1)
  show ?case
    using one w1 dec at_p rep1
    by (auto intro!: ok_mono [OF Cons.IH [OF w1(1) inv1 pre p(4)]] simp: in_state_def)
qed

lemma decode_phase_ok:
  assumes "winv w" "sched_inv (live w) (time w) s"
  shows "ok (decode_phase be now (s, w)) (\<lambda>(rep, s', w').
    winv w' \<and> room w' = room w \<and> time w \<le> time w' \<and> sched_inv (live w') (time w') s' \<and>
    (\<exists>outs. length outs = length (fs_decoding s) \<and> decoded s (fs_decoding s) outs s') \<and>
    tr_decode_attempted rep = length (fs_decoding s) \<and>
    tr_decode_tokens rep = length (fs_decoding s) \<and>
    tr_decode_completed rep = in_state s' kCompleted (fs_decoding s) \<and>
    tr_decode_failed rep = in_state s' kFailed (fs_decoding s))"
proof -
  let ?ps = "fs_decoding s"
  obtain t w1 where n: "now w = (t, w1)" by force
  note q1 = now_quiet [OF assms(1) n, THEN conjunct1]
  have qs: "queues_inv s" using assms(2) by (simp add: sched_inv_def)
  have inv1: "winv w1" "sched_inv (live w1) (time w1) s"
    using q1 sched_inv_later [OF assms(2)] by (auto simp: quiet_def)
  have at: "handle_at s p = Inr (the (fs_handles s (id_at s p)))" "the (fs_handles s (id_at s p)) \<in> live w1"
    if "p \<in> set ?ps" for p
    using status_decoding(1,5) [OF inv1(2) that]
    by (auto simp: handle_at_def deref_def id_at_def req_at_def)
  have hs: "map_res (handle_at s) ?ps = Inr (map (\<lambda>p. the (fs_handles s (id_at s p))) ?ps)"
    by (rule map_res_Inr) (rule at)
  let ?batch = "map (\<lambda>p. the (fs_handles s (id_at s p))) ?ps"
  have "set ?batch \<subseteq> live w1" using at(2) by auto
  then obtain outs w2 where dc: "bk_decode be ?batch w1 = Inr (outs, w2)"
    and w2: "winv w2" "length outs = length ?ps" "live w2 = live w1" "room w2 = room w1"
      "time w1 \<le> time w2"
    using decode_law [OF inv1(1), of ?batch] by (auto simp: ok_iff)
  have inv2: "sched_inv (live w2) (time w2) s"
    using sched_inv_later [OF inv1(2) w2(5)] w2(3) by simp
  let ?rep = "(TickReport_new t)\<lparr>tr_decode_tokens := length ?ps, tr_decode_attempted := length ?ps\<rparr>"
  obtain rep s' w3 where run: "outcome_loop (decode_one be now) ?ps outs (?rep, s, w2) = Inr (rep, s', w3)"
    and post: "winv w3" "room w3 = room w2" "time w2 \<le> time w3" "sched_inv (live w3) (time w3) s'"
      "decoded s ?ps outs s'"
      "rep = ?rep\<lparr>tr_decode_completed := tr_decode_completed ?rep + in_state s' kCompleted ?ps,
               tr_decode_failed := tr_decode_failed ?rep + in_state s' kFailed ?ps\<rparr>"
    using decode_loop_ok [OF _ w2(1) inv2, of ?ps outs ?rep] w2(2) queues_distinct [OF qs]
    by (auto simp: ok_iff)
  show ?thesis
    using n hs dc run post w2 q1
    by (auto simp: decode_phase_def Let_def quiet_def TickReport_new_def)
qed

end

section \<open>The effect of a whole tick\<close>

text \<open>
  A tick between times \<open>t\<close> and \<open>t'\<close>: requests past their deadline are failed, the rest of the
  waiting queue is prefilled, everything then decoding is decoded, and the report counts it.
\<close>

definition tick_effect ::
  "TimePoint \<Rightarrow> TimePoint \<Rightarrow> FifoScheduler \<Rightarrow> TickReport \<Rightarrow> FifoScheduler \<Rightarrow> bool" where
  "tick_effect t t' s rep s' \<longleftrightarrow>
     (\<exists>es s1 outs1 s2 outs2.
        failed_batch s es s1 \<and> distinct es \<and> set es \<subseteq> set (tracked s) \<and>
        (\<forall>p \<in> set (tracked s). req_deadline_at (req_at s p) < t \<longrightarrow> p \<in> set es) \<and>
        (\<forall>p \<in> set es. req_deadline_at (req_at s p) < t') \<and>
        length outs1 = length (fs_waiting s1) \<and> prefilled s1 (fs_waiting s1) outs1 s2 \<and>
        length outs2 = length (fs_decoding s2) \<and> decoded s2 (fs_decoding s2) outs2 s' \<and>
        tr_expired_count rep = length es \<and>
        tr_prefill_attempted rep = length (fs_waiting s1) \<and>
        tr_prefill_tokens rep =
          sum_list (map (\<lambda>p. length (req_prompt_token_ids (req_at s1 p))) (fs_waiting s1)) \<and>
        tr_prefill_succeeded rep = length (succeeded (fs_waiting s1) outs1) \<and>
        tr_prefill_failed rep = length (fs_waiting s1) - length (succeeded (fs_waiting s1) outs1) \<and>
        tr_decode_attempted rep = length (fs_decoding s2) \<and>
        tr_decode_tokens rep = length (fs_decoding s2) \<and>
        tr_decode_completed rep = in_state s' kCompleted (fs_decoding s2) \<and>
        tr_decode_failed rep = in_state s' kFailed (fs_decoding s2))"

context backend_contract
begin

lemma tick_ok:
  assumes "winv w" "sched_inv (live w) (time w) s" "length (fs_waiting s) \<le> room w"
  shows "ok (tick be now (s, w)) (\<lambda>(rep, s', w').
    winv w' \<and> room w \<le> room w' + length (fs_waiting s) \<and> time w \<le> time w' \<and>
    sched_inv (live w') (time w') s' \<and> tick_effect (time w) (time w') s rep s')"
proof -
  obtain rep1 s1 w1 es where p1: "expire_deadlines be now (s, w) = Inr (rep1, s1, w1)"
    and w1: "winv w1" "room w1 = room w" "time w \<le> time w1" "sched_inv (live w1) (time w1) s1"
    and es: "failed_batch s es s1" "distinct es" "set es \<subseteq> set (tracked s)"
      "tr_expired_count rep1 = length es"
      "\<forall>p \<in> set (tracked s). req_deadline_at (req_at s p) < time w \<longrightarrow> p \<in> set es"
      "\<forall>p \<in> set es. req_deadline_at (req_at s p) < time w1"
    using expire_deadlines_ok [OF assms(1,2)] by (auto simp: ok_iff)
  have len: "length (fs_waiting s1) \<le> length (fs_waiting s)"
    using es(1) by (simp add: failed_batch_def)
  then have "length (fs_waiting s1) \<le> room w1" using assms(3) w1(2) by simp
  from prefill_phase_ok [OF w1(1,4) this]
  obtain rep2 s2 w2 outs1 where p2: "prefill_phase be now (s1, w1) = Inr (rep2, s2, w2)"
    and w2: "winv w2" "room w1 \<le> room w2 + length (fs_waiting s1)" "time w1 \<le> time w2"
      "sched_inv (live w2) (time w2) s2"
    and outs1: "length outs1 = length (fs_waiting s1)" "prefilled s1 (fs_waiting s1) outs1 s2"
      "tr_prefill_attempted rep2 = length (fs_waiting s1)"
      "tr_prefill_tokens rep2 =
         sum_list (map (\<lambda>p. length (req_prompt_token_ids (req_at s1 p))) (fs_waiting s1))"
      "tr_prefill_succeeded rep2 = length (succeeded (fs_waiting s1) outs1)"
      "tr_prefill_failed rep2 = length (fs_waiting s1) - length (succeeded (fs_waiting s1) outs1)"
    by (auto simp: ok_iff)
  obtain rep3 s3 w3 outs2 where p3: "decode_phase be now (s2, w2) = Inr (rep3, s3, w3)"
    and w3: "winv w3" "room w3 = room w2" "time w2 \<le> time w3" "sched_inv (live w3) (time w3) s3"
    and outs2: "length outs2 = length (fs_decoding s2)" "decoded s2 (fs_decoding s2) outs2 s3"
      "tr_decode_attempted rep3 = length (fs_decoding s2)"
      "tr_decode_tokens rep3 = length (fs_decoding s2)"
      "tr_decode_completed rep3 = in_state s3 kCompleted (fs_decoding s2)"
      "tr_decode_failed rep3 = in_state s3 kFailed (fs_decoding s2)"
    using decode_phase_ok [OF w2(1,4)] by (auto simp: ok_iff)
  obtain t w4 where n: "now w3 = (t, w4)" by force
  note q = now_quiet [OF w3(1) n, THEN conjunct1]
  have times: "time w \<le> time w4" "time w1 \<le> time w4" "time w3 \<le> time w4"
    using w1(3) w2(3) w3(3) q by (auto simp: quiet_def)
  have es_late: "\<forall>p \<in> set es. req_deadline_at (req_at s p) < time w4"
    using es(6) times(2) by fastforce
  have "tick_effect (time w) (time w4) s (merge_reports t rep1 rep2 rep3) s3"
    unfolding tick_effect_def
    by (rule exI [of _ es], rule exI [of _ s1], rule exI [of _ outs1], rule exI [of _ s2],
        rule exI [of _ outs2])
      (use es es_late outs1 outs2 in \<open>simp add: merge_reports_def\<close>)
  moreover have "sched_inv (live w4) (time w4) s3"
    using sched_inv_later [OF w3(4) times(3)] q by (simp add: quiet_def)
  moreover have "room w \<le> room w4 + length (fs_waiting s)"
    using w1(2) w2(2) w3(2) q len by (simp add: quiet_def)
  ultimately show ?thesis
    using p1 p2 p3 n q times by (simp add: tick_def quiet_def)
qed

end

section \<open>Submission and cancellation\<close>

definition enqueue :: "Request \<Rightarrow> FifoScheduler \<Rightarrow> FifoScheduler" where
  "enqueue r s =
     s\<lparr>fs_requests := fs_requests s @ [r],
       fs_waiting := fs_waiting s @ [length (fs_requests s)]\<rparr>"

lemma req_at_enqueue:
  "p < length (fs_requests s) \<Longrightarrow> req_at (enqueue r s) p = req_at s p"
  "req_at (enqueue r s) (length (fs_requests s)) = r"
  by (simp_all add: req_at_def enqueue_def nth_append)

lemma enqueue_sel [simp]:
  shows "length (fs_requests (enqueue r s)) = Suc (length (fs_requests s))"
    and "fs_waiting (enqueue r s) = fs_waiting s @ [length (fs_requests s)]"
    and "fs_decoding (enqueue r s) = fs_decoding s"
    and "fs_handles (enqueue r s) = fs_handles s"
  by (simp_all add: enqueue_def)

lemma sched_inv_enqueue:
  assumes inv: "sched_inv L t s" and le: "t \<le> t'"
    and r: "req_inv t' r" "req_state r = kWaitingPrefill" "0 < req_max_output_tokens r"
      "req_id r \<notin> id_at s ` set (tracked s)"
  shows "sched_inv L t' (enqueue r s)"
proof -
  let ?n = "length (fs_requests s)"
  have qs: "queues_inv s" and hs: "handles_inv L s" and rq: "requests_inv t s"
    using inv by (auto simp: sched_inv_def)
  have lt: "p < ?n" if "p \<in> set (tracked s)" for p using tracked_lt [OF qs that] .
  have id: "id_at (enqueue r s) p = id_at s p" if "p < ?n" for p
    using that by (simp add: id_at_def req_at_enqueue)
  have idn: "id_at (enqueue r s) ?n = req_id r" by (simp add: id_at_def req_at_enqueue)
  have set_eq: "set (tracked (enqueue r s)) = insert ?n (set (tracked s))"
    by (auto simp: tracked_def)
  have "inj_on (id_at (enqueue r s)) (set (tracked s))"
    using qs id lt by (auto simp: queues_inv_def inj_on_def)
  moreover have "id_at (enqueue r s) ` set (tracked s) = id_at s ` set (tracked s)"
    using id lt by (intro image_cong) auto
  moreover have "set (tracked (enqueue r s)) \<subseteq> {..<length (fs_requests (enqueue r s))}"
    unfolding set_eq using lt by (auto intro: less_SucI)
  moreover have "distinct (tracked (enqueue r s))"
    using qs lt by (fastforce simp: queues_inv_def tracked_def)
  ultimately have "queues_inv (enqueue r s)"
    using r(4) lt unfolding queues_inv_def set_eq by (auto simp: idn)
  moreover have "handles_inv L (enqueue r s)"
  proof -
    have "id_at (enqueue r s) ` set (fs_decoding s) = id_at s ` set (fs_decoding s)"
      using id lt by (intro image_cong) (auto simp: tracked_def)
    then show ?thesis using hs unfolding handles_inv_def by simp metis
  qed
  moreover have "requests_inv t' (enqueue r s)"
    unfolding requests_inv_def
  proof (intro allI impI)
    fix p assume p: "p < length (fs_requests (enqueue r s))"
    show "req_inv t' (req_at (enqueue r s) p) \<and> status_ok (enqueue r s) p"
    proof (cases "p = ?n")
      case True
      then show ?thesis using r by (simp add: req_at_enqueue status_ok_def)
    next
      case False
      with p have "p < ?n" by simp
      then show ?thesis
        using rq le by (auto simp: requests_inv_def status_ok_def req_at_enqueue intro: req_inv_later)
    qed
  qed
  ultimately show ?thesis by (simp add: sched_inv_def)
qed

lemma find_ptr_find:
  "set ps \<subseteq> {..<length (fs_requests s)} \<Longrightarrow>
   find_ptr s i ps = Inr (List.find (\<lambda>p. id_at s p = i) ps)"
  by (induction ps) (auto simp: deref_def id_at_def req_at_def)

context backend_contract
begin

lemma submit_ok:
  assumes "winv w" "sched_inv (live w) (time w) s"
    and r: "req_inv (time w) r" "req_state r = kReceived" "0 < req_max_output_tokens r"
      "req_id r \<notin> id_at s ` set (tracked s)"
  shows "ok (submit now r (s, w)) (\<lambda>(p, s', w').
    quiet w w' \<and> sched_inv (live w') (time w') s' \<and> p = length (fs_requests s) \<and>
    (\<exists>r'. with_lifecycle kWaitingPrefill r r' \<and> s' = enqueue r' s))"
proof -
  let ?n = "length (fs_requests s)" and ?s = "\<lambda>r. s\<lparr>fs_requests := fs_requests s @ [r]\<rparr>"
  have at: "req_at (?s r) ?n = r" for r by (simp add: req_at_def)
  have put: "put_req ?n r' (?s r) = ?s r'" for r r' by (simp add: put_req_def)
  obtain r1 w1 where one: "ptr_transition now kAdmitted ?n (?s r, w) = Inr (?s r1, w1)"
    and q1: "quiet w w1" and r1: "with_lifecycle kAdmitted r r1" "req_inv (time w1) r1"
    using ok_ptr_transition [OF assms(1), of ?n "?s r" kAdmitted] r(1,2)
    by (auto simp: ok_iff at put)
  obtain r2 w2 where two: "ptr_transition now kWaitingPrefill ?n (?s r1, w1) = Inr (?s r2, w2)"
    and q2: "quiet w1 w2" and r2: "with_lifecycle kWaitingPrefill r1 r2" "req_inv (time w2) r2"
    using ok_ptr_transition [of w1 ?n "?s r1" kWaitingPrefill] q1 r1(2) with_lifecycle_sel(1) [OF r1(1)]
    by (auto simp: ok_iff at put quiet_def)
  have r': "with_lifecycle kWaitingPrefill r r2" by (rule with_lifecycle_trans [OF r1(1) r2(1)])
  note sel = with_lifecycle_sel [OF r']
  have q: "quiet w w2" by (rule quiet_trans [OF q1 q2])
  then have "sched_inv (live w2) (time w2) (enqueue r2 s)"
    using sched_inv_enqueue [OF assms(2), of "time w2" r2] r2(2) sel r(3,4) by (simp add: quiet_def)
  then show ?thesis using one two q r' by (auto simp: submit_def Let_def enqueue_def)
qed

text \<open>What \<open>cancel\<close> leaves: the tracked request with that id retired as cancelled, if there is one.\<close>

definition cancelled :: "RequestId \<Rightarrow> FifoScheduler \<times> 'w \<Rightarrow> FifoScheduler \<times> 'w \<Rightarrow> bool" where
  "cancelled i sw sw' \<longleftrightarrow>
     (case (sw, sw') of ((s, w), (s', w')) \<Rightarrow>
        winv w' \<and> room w' = room w \<and> time w \<le> time w' \<and> sched_inv (live w') (time w') s' \<and>
        (if i \<in> id_at s ` set (tracked s)
         then \<exists>p r. p \<in> set (tracked s) \<and> id_at s p = i \<and> with_lifecycle kCancelled (req_at s p) r \<and>
                s' = untrack p r s \<and> live w' = live w - set_option (fs_handles s i)
         else s' = s \<and> w' = w))"

lemma cancel_in_ok:
  assumes "winv w" "sched_inv (live w) (time w) s" "set (queue s) \<subseteq> set (tracked s)"
    and "i \<in> id_at s ` set (queue s) \<or> i \<notin> id_at s ` set (tracked s)"
  shows "ok (cancel_in be now i queue (s, w)) (cancelled i (s, w))"
proof -
  have qs: "queues_inv s" using assms(2) by (simp add: sched_inv_def)
  have f: "find_ptr s i (queue s) = Inr (List.find (\<lambda>p. id_at s p = i) (queue s))"
    using assms(3) qs by (intro find_ptr_find) (auto simp: queues_inv_def)
  show ?thesis
  proof (cases "List.find (\<lambda>p. id_at s p = i) (queue s)")
    case None
    then have "i \<notin> id_at s ` set (tracked s)" using assms(4) by (auto simp: find_None_iff)
    then show ?thesis using None f assms(1,2) by (simp add: cancel_in_def cancelled_def)
  next
    case (Some p)
    then have p: "p \<in> set (tracked s)" "id_at s p = i"
      using assms(3) by (auto simp: find_Some_iff)
    then have mem: "i \<in> id_at s ` set (tracked s)" by blast
    have "is_valid_transition (req_state (req_at s p)) kCancelled"
      using p(1) assms(2) status_waiting(3) status_decoding(3) by (auto simp: tracked_def)
    from retire_tracked [OF assms(1,2) p(1) this] show ?thesis
      using Some f p mem by (auto simp: cancel_in_def cancelled_def ok_iff intro!: exI [of _ p])
  qed
qed

lemma cancel_ok:
  assumes "winv w" "sched_inv (live w) (time w) s"
  shows "ok (cancel be now i (s, w)) (cancelled i (s, w))"
proof (cases "i \<in> id_at s ` set (fs_waiting s)")
  case True
  then have mem: "i \<in> id_at s ` set (tracked s)" by (auto simp: tracked_def)
  obtain s1 w1 where one: "cancel_in be now i fs_waiting (s, w) = Inr (s1, w1)"
    and c1: "cancelled i (s, w) (s1, w1)"
    using cancel_in_ok [OF assms, of fs_waiting i] True by (auto simp: ok_iff tracked_def)
  then obtain p r where p: "p \<in> set (tracked s)" "id_at s p = i"
    and r: "with_lifecycle kCancelled (req_at s p) r" "s1 = untrack p r s"
    using mem by (auto simp: cancelled_def)
  have qs: "queues_inv s" using assms(2) by (simp add: sched_inv_def)
  have lt: "p < length (fs_requests s)" by (rule tracked_lt [OF qs p(1)])
  have ids: "id_at s1 = id_at s"
    using id_at_upd(2) [OF lt, of r] with_lifecycle_sel(2) [OF r(1)] r(2) by (simp add: id_at_def)
  have gone: "i \<notin> id_at s1 ` set (tracked s1)"
  proof
    assume "i \<in> id_at s1 ` set (tracked s1)"
    then obtain q where q: "q \<in> set (tracked s1)" and "id_at s q = i" unfolding ids by blast
    moreover have "q \<in> set (tracked s) \<and> q \<noteq> p"
      using q qs by (auto simp: r(2) tracked_def set_remove1_queues)
    ultimately have "q \<in> set (tracked s)" "q \<noteq> p" "id_at s q = i" by auto
    then show False using qs p by (auto simp: queues_inv_def inj_on_def)
  qed
  have w1: "winv w1" "sched_inv (live w1) (time w1) s1" using c1 by (auto simp: cancelled_def)
  have "ok (cancel_in be now i fs_decoding (s1, w1)) (cancelled i (s1, w1))"
    using gone by (intro cancel_in_ok w1) (auto simp: tracked_def)
  then have "cancel_in be now i fs_decoding (s1, w1) = Inr (s1, w1)"
    using gone by (auto simp: ok_iff cancelled_def)
  then show ?thesis using one c1 by (simp add: cancel_def)
next
  case False
  have "find_ptr s i (fs_waiting s) = Inr (List.find (\<lambda>p. id_at s p = i) (fs_waiting s))"
    using assms(2) by (intro find_ptr_find) (auto simp: sched_inv_def queues_inv_def tracked_def)
  moreover have "List.find (\<lambda>p. id_at s p = i) (fs_waiting s) = None"
    using False by (auto simp: find_None_iff)
  ultimately have "cancel_in be now i fs_waiting (s, w) = Inr (s, w)"
    by (simp add: cancel_in_def)
  moreover have "ok (cancel_in be now i fs_decoding (s, w)) (cancelled i (s, w))"
    using False by (intro cancel_in_ok assms) (auto simp: tracked_def)
  ultimately show ?thesis by (simp add: cancel_def)
qed

end

end
