(* ===== verification/Mock_Backend.thy ===== *)
theory Mock_Backend
  imports Backend
begin

text \<open>
  The deterministic backend of \<open>include/tokamak/backend/mock_backend.h\<close> and
  \<open>src/backend/mock_backend.cpp\<close>. The \<open>FakeClock\<close> the C++ object refers to is a field of the
  record: the record is the whole world that a scheduler over this backend acts on. Sequence ids
  are 64-bit and token counts 32-bit words, and both wrap as in the code.
\<close>

record SequenceState =
  tokens_emitted :: uint32
  finished_after_tokens :: "uint32 option"

record MockBackend =
  mb_clock :: FakeClock
  mb_per_token_prefill_cost :: Duration
  mb_per_decode_cost :: Duration
  mb_next_sequence_id :: uint64
  mb_sequences :: "uint64 \<rightharpoonup> SequenceState"
  mb_pending_prefill_errors :: "BackendError list"
  mb_pending_decode_errors :: "BackendError list"

definition MockBackend_new :: "FakeClock \<Rightarrow> Duration \<Rightarrow> Duration \<Rightarrow> MockBackend" where
  "MockBackend_new clock per_token_prefill_cost per_decode_cost =
     \<lparr>mb_clock = clock, mb_per_token_prefill_cost = per_token_prefill_cost,
      mb_per_decode_cost = per_decode_cost, mb_next_sequence_id = 0,
      mb_sequences = Map.empty, mb_pending_prefill_errors = [], mb_pending_decode_errors = []\<rparr>"

definition mock_capabilities :: "MockBackend \<Rightarrow> BackendCapabilities" where
  "mock_capabilities b =
     \<lparr>supports_continuous_batching = True, supports_prefix_sharing = False,
      supports_kv_export = False, max_context_tokens = 8192\<rparr>"

definition mock_tokenize :: "string \<Rightarrow> MockBackend \<Rightarrow> (TokenizedPrompt \<times> MockBackend) res" where
  "mock_tokenize txt b = Inr (map (\<lambda>c. word_of_nat (of_char c)) txt, b)"

text \<open>One iteration of the loop in \<open>prefill()\<close>; \<open>emplace\<close> keeps an entry that is already there.\<close>

definition mock_prefill_one ::
  "PrefillRequest \<Rightarrow> PrefillResult \<times> MockBackend \<Rightarrow> (PrefillResult \<times> MockBackend) res" where
  "mock_prefill_one request rb =
     (case rb of (outcomes, b) \<Rightarrow>
        bnd (advance (mb_per_token_prefill_cost b * int (length request)) (mb_clock b)) (\<lambda>clock.
          let b = b\<lparr>mb_clock := clock\<rparr>
          in case mb_pending_prefill_errors b of
               error # rest \<Rightarrow> Inr (outcomes @ [Inl error], b\<lparr>mb_pending_prefill_errors := rest\<rparr>)
             | [] \<Rightarrow>
                 (let i = mb_next_sequence_id b;
                      seqs = mb_sequences b
                  in Inr (outcomes @ [Inr (SequenceHandle i)],
                          b\<lparr>mb_next_sequence_id := i + 1,
                            mb_sequences :=
                              (case seqs i of
                                 None \<Rightarrow> seqs(i \<mapsto> \<lparr>tokens_emitted = 0, finished_after_tokens = None\<rparr>)
                               | Some st \<Rightarrow> seqs)\<rparr>))))"

definition mock_prefill :: "PrefillBatch \<Rightarrow> MockBackend \<Rightarrow> (PrefillResult \<times> MockBackend) res" where
  "mock_prefill batch b = fold_res mock_prefill_one batch ([], b)"

definition mock_decode_one ::
  "DecodeRequest \<Rightarrow> DecodeResult \<times> MockBackend \<Rightarrow> (DecodeResult \<times> MockBackend) res" where
  "mock_decode_one request rb =
     (case rb of (outcomes, b) \<Rightarrow>
        (case mb_pending_decode_errors b of
           error # rest \<Rightarrow> Inr (outcomes @ [Inl error], b\<lparr>mb_pending_decode_errors := rest\<rparr>)
         | [] \<Rightarrow>
             (case mb_sequences b (handle_id request) of
                None \<Rightarrow> panic ''decode() called with unknown or already-released SequenceHandle''
              | Some st \<Rightarrow>
                  (let n = tokens_emitted st + 1;
                       finished = (case finished_after_tokens st of None \<Rightarrow> False | Some k \<Rightarrow> n \<ge> k)
                   in Inr (outcomes @ [Inr \<lparr>dt_token_id = n, dt_finished = finished\<rparr>],
                           b\<lparr>mb_sequences :=
                               (mb_sequences b)(handle_id request \<mapsto> st\<lparr>tokens_emitted := n\<rparr>)\<rparr>)))))"

definition mock_decode :: "DecodeBatch \<Rightarrow> MockBackend \<Rightarrow> (DecodeResult \<times> MockBackend) res" where
  "mock_decode batch b =
     bnd (advance (mb_per_decode_cost b) (mb_clock b)) (\<lambda>clock.
       fold_res mock_decode_one batch ([], b\<lparr>mb_clock := clock\<rparr>))"

definition mock_release :: "SequenceHandle \<Rightarrow> MockBackend \<Rightarrow> MockBackend res" where
  "mock_release h b =
     (case mb_sequences b (handle_id h) of
        None \<Rightarrow> panic ''release() called with unknown or already-released SequenceHandle''
      | Some st \<Rightarrow> Inr (b\<lparr>mb_sequences := (mb_sequences b)(handle_id h := None)\<rparr>))"

definition configure_eos :: "SequenceHandle \<Rightarrow> uint32 \<Rightarrow> MockBackend \<Rightarrow> MockBackend res" where
  "configure_eos h after_tokens b =
     (case mb_sequences b (handle_id h) of
        None \<Rightarrow> panic ''configure_eos() called with unknown or already-released SequenceHandle''
      | Some st \<Rightarrow>
          Inr (b\<lparr>mb_sequences :=
                   (mb_sequences b)(handle_id h \<mapsto> st\<lparr>finished_after_tokens := Some after_tokens\<rparr>)\<rparr>))"

definition fail_next_prefill :: "BackendError \<Rightarrow> MockBackend \<Rightarrow> MockBackend" where
  "fail_next_prefill error b =
     b\<lparr>mb_pending_prefill_errors := mb_pending_prefill_errors b @ [error]\<rparr>"

definition fail_next_decode :: "BackendError \<Rightarrow> MockBackend \<Rightarrow> MockBackend" where
  "fail_next_decode error b =
     b\<lparr>mb_pending_decode_errors := mb_pending_decode_errors b @ [error]\<rparr>"

text \<open>The object's virtual functions, and the \<open>FakeClock\<close> it shares with its scheduler.\<close>

definition mock_backend :: "MockBackend InferenceBackend" where
  "mock_backend =
     \<lparr>bk_capabilities = mock_capabilities, bk_tokenize = mock_tokenize,
      bk_prefill = mock_prefill, bk_decode = mock_decode, bk_release = mock_release\<rparr>"

definition mock_now :: "MockBackend Clock" where
  "mock_now b = (fake_now (mb_clock b), b)"

lemma mock_backend_simps [simp]:
  shows "bk_prefill mock_backend = mock_prefill"
    and "bk_decode mock_backend = mock_decode"
    and "bk_release mock_backend = mock_release"
  by (simp_all add: mock_backend_def)

section \<open>The contract's view of the mock backend\<close>

definition mock_inv :: "MockBackend \<Rightarrow> bool" where
  "mock_inv b \<longleftrightarrow>
     0 \<le> mb_per_token_prefill_cost b \<and> 0 \<le> mb_per_decode_cost b \<and>
     (\<forall>i st. mb_sequences b i = Some st \<longrightarrow> i < mb_next_sequence_id b)"

definition mock_live :: "MockBackend \<Rightarrow> SequenceHandle set" where
  "mock_live b = SequenceHandle ` dom (mb_sequences b)"

definition mock_room :: "MockBackend \<Rightarrow> nat" where
  "mock_room b = 2 ^ 64 - 1 - unat (mb_next_sequence_id b)"

definition mock_time :: "MockBackend \<Rightarrow> TimePoint" where
  "mock_time b = current (mb_clock b)"

lemmas mock_view_defs = mock_live_def mock_room_def mock_time_def

text \<open>The cost configuration is fixed at construction.\<close>

definition same_costs :: "MockBackend \<Rightarrow> MockBackend \<Rightarrow> bool" where
  "same_costs b b' \<longleftrightarrow>
     mb_per_token_prefill_cost b' = mb_per_token_prefill_cost b \<and>
     mb_per_decode_cost b' = mb_per_decode_cost b"

lemma mock_inv_new: "0 \<le> p \<Longrightarrow> 0 \<le> d \<Longrightarrow> mock_inv (MockBackend_new c p d)"
  by (simp add: mock_inv_def MockBackend_new_def)

lemma mock_live_new [simp]: "mock_live (MockBackend_new c p d) = {}"
  by (simp add: mock_live_def MockBackend_new_def)

lemma mem_mock_live: "h \<in> mock_live b \<longleftrightarrow> mb_sequences b (handle_id h) \<noteq> None"
  by (cases h) (auto simp: mock_live_def)

lemma next_id_word:
  assumes "0 < mock_room b"
  shows "unat (mb_next_sequence_id b + 1) = unat (mb_next_sequence_id b) + 1"
  using assms by (simp add: mock_room_def unat_word_ariths)

lemma next_id_less:
  assumes "0 < mock_room b"
  shows "i < mb_next_sequence_id b + 1 \<longleftrightarrow> i \<le> mb_next_sequence_id b"
  using next_id_word [OF assms] by (simp add: word_less_nat_alt word_le_nat_alt less_Suc_eq_le)

section \<open>Prefill\<close>

lemma ok_mock_prefill_one:
  assumes "mock_inv b" "0 < mock_room b"
  shows "ok (mock_prefill_one req (outs, b)) (\<lambda>(outs', b').
    mock_inv b' \<and> same_costs b b' \<and>
    mock_time b' = mock_time b + mb_per_token_prefill_cost b * int (length req) \<and>
    mb_pending_decode_errors b' = mb_pending_decode_errors b \<and>
    (case mb_pending_prefill_errors b of
       e # es \<Rightarrow> outs' = outs @ [Inl e] \<and> mb_pending_prefill_errors b' = es \<and>
         mb_sequences b' = mb_sequences b \<and> mb_next_sequence_id b' = mb_next_sequence_id b
     | [] \<Rightarrow> outs' = outs @ [Inr (SequenceHandle (mb_next_sequence_id b))] \<and>
         mb_pending_prefill_errors b' = [] \<and>
         mb_next_sequence_id b' = mb_next_sequence_id b + 1 \<and>
         mb_sequences b' = (mb_sequences b)(mb_next_sequence_id b \<mapsto>
           \<lparr>tokens_emitted = 0, finished_after_tokens = None\<rparr>)))"
proof -
  have fresh: "mb_sequences b (mb_next_sequence_id b) = None"
    using assms(1) by (fastforce simp: mock_inv_def)
  have cost: "0 \<le> mb_per_token_prefill_cost b * int (length req)"
    using assms(1) by (simp add: mock_inv_def)
  show ?thesis
    using assms fresh cost
    by (auto simp: mock_prefill_one_def advance_def mock_inv_def same_costs_def mock_time_def
        next_id_less Let_def split: list.splits)
qed

text \<open>
  What a whole call of \<open>prefill\<close> does, as one equation: the injected errors answer the first
  sequences of the batch, in order, and every later sequence gets the next id.
\<close>

definition prefill_outcomes :: "nat \<Rightarrow> MockBackend \<Rightarrow> PrefillResult" where
  "prefill_outcomes n b =
     map Inl (take n (mb_pending_prefill_errors b)) @
     map (\<lambda>k. Inr (SequenceHandle (mb_next_sequence_id b + word_of_nat k)))
       [0..<n - length (mb_pending_prefill_errors b)]"

lemma prefill_outcomes_Suc:
  "prefill_outcomes (Suc n) b =
     (case mb_pending_prefill_errors b of
        e # es \<Rightarrow> Inl e # prefill_outcomes n (b\<lparr>mb_pending_prefill_errors := es\<rparr>)
      | [] \<Rightarrow> Inr (SequenceHandle (mb_next_sequence_id b)) #
          prefill_outcomes n (b\<lparr>mb_next_sequence_id := mb_next_sequence_id b + 1\<rparr>))"
  by (auto simp: prefill_outcomes_def upt_conv_Cons map_Suc_upt [symmetric] ac_simps
      simp del: upt_Suc split: list.splits)

lemma prefill_outcomes_cong:
  "mb_pending_prefill_errors b' = mb_pending_prefill_errors b \<Longrightarrow>
   mb_next_sequence_id b' = mb_next_sequence_id b \<Longrightarrow>
   prefill_outcomes n b' = prefill_outcomes n b"
  by (simp add: prefill_outcomes_def)

lemma length_prefill_outcomes [simp]: "length (prefill_outcomes n b) = n"
  by (simp add: prefill_outcomes_def)

definition prefill_post :: "PrefillBatch \<Rightarrow> MockBackend \<Rightarrow> MockBackend \<Rightarrow> bool" where
  "prefill_post batch b b' \<longleftrightarrow>
     mock_inv b' \<and> same_costs b b' \<and>
     mock_time b' = mock_time b + mb_per_token_prefill_cost b * int (sum_list (map length batch)) \<and>
     mb_pending_decode_errors b' = mb_pending_decode_errors b \<and>
     mb_pending_prefill_errors b' = drop (length batch) (mb_pending_prefill_errors b) \<and>
     unat (mb_next_sequence_id b') = unat (mb_next_sequence_id b) +
       (length batch - length (mb_pending_prefill_errors b)) \<and>
     (\<forall>i. mb_sequences b' i =
        (if SequenceHandle i \<in> set (successes (prefill_outcomes (length batch) b))
         then Some \<lparr>tokens_emitted = 0, finished_after_tokens = None\<rparr>
         else mb_sequences b i))"

lemma ok_mock_prefill_fold:
  assumes "mock_inv b" "length batch \<le> mock_room b"
  shows "ok (fold_res mock_prefill_one batch (outs, b)) (\<lambda>(outs', b').
    outs' = outs @ prefill_outcomes (length batch) b \<and> prefill_post batch b b')"
  using assms
proof (induction batch arbitrary: outs b)
  case Nil
  then show ?case by (simp add: prefill_post_def same_costs_def prefill_outcomes_def)
next
  case (Cons req batch)
  have room: "0 < mock_room b" using Cons.prems by simp
  obtain outs1 b1 where one: "mock_prefill_one req (outs, b) = Inr (outs1, b1)"
    and inv1: "mock_inv b1" and costs1: "same_costs b b1"
    and time1: "mock_time b1 = mock_time b + mb_per_token_prefill_cost b * int (length req)"
    and dec1: "mb_pending_decode_errors b1 = mb_pending_decode_errors b"
    and cases1: "case mb_pending_prefill_errors b of
       e # es \<Rightarrow> outs1 = outs @ [Inl e] \<and> mb_pending_prefill_errors b1 = es \<and>
         mb_sequences b1 = mb_sequences b \<and> mb_next_sequence_id b1 = mb_next_sequence_id b
     | [] \<Rightarrow> outs1 = outs @ [Inr (SequenceHandle (mb_next_sequence_id b))] \<and>
         mb_pending_prefill_errors b1 = [] \<and>
         mb_next_sequence_id b1 = mb_next_sequence_id b + 1 \<and>
         mb_sequences b1 = (mb_sequences b)(mb_next_sequence_id b \<mapsto>
           \<lparr>tokens_emitted = 0, finished_after_tokens = None\<rparr>)"
    using ok_mock_prefill_one [OF Cons.prems(1) room, of req outs] by (auto simp: ok_iff)
  have step: "outs1 @ prefill_outcomes n b1 = outs @ prefill_outcomes (Suc n) b" for n
    using cases1 by (auto simp: prefill_outcomes_Suc split: list.splits intro: prefill_outcomes_cong)
  have "length batch \<le> mock_room b1"
    using Cons.prems(2) cases1 next_id_word [OF room]
    by (auto simp: mock_room_def split: list.splits)
  from Cons.IH [OF inv1 this, of outs1]
  obtain b2 where rest: "fold_res mock_prefill_one batch (outs1, b1) =
      Inr (outs1 @ prefill_outcomes (length batch) b1, b2)"
    and post: "prefill_post batch b1 b2"
    by (auto simp: ok_iff)
  have succ: "successes (prefill_outcomes (Suc n) b) =
      (if mb_pending_prefill_errors b = [] then [SequenceHandle (mb_next_sequence_id b)] else []) @
      successes (prefill_outcomes n b1)" for n
    using step [of n, symmetric] cases1 by (auto split: list.splits)
  have "prefill_post (req # batch) b b2"
    using post cases1 costs1 time1 dec1 next_id_word [OF room]
    by (auto simp: prefill_post_def same_costs_def succ algebra_simps split: list.splits)
  then show ?case using one rest step by simp
qed

lemma ok_mock_prefill:
  assumes "mock_inv b" "length batch \<le> mock_room b"
  shows "ok (mock_prefill batch b) (\<lambda>(outs, b').
    outs = prefill_outcomes (length batch) b \<and> prefill_post batch b b')"
  using ok_mock_prefill_fold [OF assms, of "[]"] by (simp add: mock_prefill_def)

lemma successes_map_Inl [simp]: "successes (map Inl xs) = []"
  by (induction xs) auto

lemma successes_map_Inr [simp]: "successes (map (\<lambda>x. Inr (f x)) xs) = map f xs"
  by (induction xs) auto

lemma minted_handles:
  "successes (prefill_outcomes n b) =
     map (\<lambda>k. SequenceHandle (mb_next_sequence_id b + word_of_nat k))
       [0..<n - length (mb_pending_prefill_errors b)]"
  by (simp add: prefill_outcomes_def)

lemma unat_minted:
  assumes "k < mock_room b"
  shows "unat (mb_next_sequence_id b + word_of_nat k) = unat (mb_next_sequence_id b) + k"
proof -
  let ?n = "mb_next_sequence_id b"
  have sum: "unat ?n + k < 2 ^ LENGTH(64)" using assms by (simp add: mock_room_def)
  then have "k < 2 ^ LENGTH(64)" by linarith
  then have "unat (word_of_nat k :: uint64) = k" unfolding unat_of_nat by (rule mod_less)
  then show ?thesis using sum by (metis mod_less unat_word_ariths(1))
qed

lemma distinct_minted:
  assumes "n \<le> mock_room b"
  shows "distinct (successes (prefill_outcomes n b))"
proof -
  have "inj_on (\<lambda>k. SequenceHandle (mb_next_sequence_id b + word_of_nat k))
      {0..<n - length (mb_pending_prefill_errors b)}"
  proof (rule inj_onI)
    fix j k
    assume jk: "j \<in> {0..<n - length (mb_pending_prefill_errors b)}"
      "k \<in> {0..<n - length (mb_pending_prefill_errors b)}"
      and eq: "SequenceHandle (mb_next_sequence_id b + word_of_nat j) =
        SequenceHandle (mb_next_sequence_id b + word_of_nat k)"
    have "j < mock_room b" "k < mock_room b" using jk assms by auto
    then have "unat (mb_next_sequence_id b) + j = unat (mb_next_sequence_id b) + k"
      using eq unat_minted by (metis SequenceHandle.inject)
    then show "j = k" by simp
  qed
  then show ?thesis by (simp add: minted_handles distinct_map)
qed

lemma minted_fresh:
  assumes "mock_inv b" "n \<le> mock_room b"
  shows "set (successes (prefill_outcomes n b)) \<inter> mock_live b = {}"
proof -
  have "\<not> mb_next_sequence_id b + word_of_nat k < mb_next_sequence_id b"
    if "k < n - length (mb_pending_prefill_errors b)" for k
  proof -
    have "k < mock_room b" using that assms(2) by auto
    then show ?thesis using unat_minted [of k b] unfolding word_less_nat_alt by simp
  qed
  then show ?thesis
    using assms(1) by (fastforce simp: minted_handles mock_live_def mock_inv_def)
qed

section \<open>Decode and release\<close>

text \<open>What \<open>decode\<close> answers for one sequence, and the sequence's state after it.\<close>

definition next_token :: "SequenceState \<Rightarrow> DecodedToken" where
  "next_token st =
     \<lparr>dt_token_id = tokens_emitted st + 1,
      dt_finished = (case finished_after_tokens st of None \<Rightarrow> False | Some k \<Rightarrow> tokens_emitted st + 1 \<ge> k)\<rparr>"

definition bump :: "SequenceState \<Rightarrow> SequenceState" where
  "bump st = st\<lparr>tokens_emitted := tokens_emitted st + 1\<rparr>"

definition decode_frame :: "MockBackend \<Rightarrow> MockBackend \<Rightarrow> bool" where
  "decode_frame b b' \<longleftrightarrow>
     same_costs b b' \<and> mb_next_sequence_id b' = mb_next_sequence_id b \<and>
     mb_pending_prefill_errors b' = mb_pending_prefill_errors b \<and>
     mb_clock b' = mb_clock b \<and> dom (mb_sequences b') = dom (mb_sequences b)"

lemma decode_frame_trans: "decode_frame b b' \<Longrightarrow> decode_frame b' b'' \<Longrightarrow> decode_frame b b''"
  by (simp add: decode_frame_def same_costs_def)

lemma ok_mock_decode_one:
  assumes "h \<in> mock_live b"
  shows "ok (mock_decode_one h (outs, b)) (\<lambda>(outs', b').
    length outs' = length outs + 1 \<and> decode_frame b b')"
  using assms
  by (auto simp: mock_decode_one_def mem_mock_live decode_frame_def same_costs_def Let_def
      split: list.splits option.splits)

lemma mock_live_frame: "decode_frame b b' \<Longrightarrow> mock_live b' = mock_live b"
  by (simp add: decode_frame_def mock_live_def)

lemma ok_mock_decode_fold:
  "set hs \<subseteq> mock_live b \<Longrightarrow>
   ok (fold_res mock_decode_one hs (outs, b)) (\<lambda>(outs', b').
     length outs' = length outs + length hs \<and> decode_frame b b')"
proof (induction hs arbitrary: outs b)
  case Nil
  then show ?case by (simp add: decode_frame_def same_costs_def)
next
  case (Cons h hs)
  obtain outs1 b1 where one: "mock_decode_one h (outs, b) = Inr (outs1, b1)"
    and len: "length outs1 = length outs + 1" and frame: "decode_frame b b1"
    using ok_mock_decode_one [of h b outs] Cons.prems by (auto simp: ok_iff)
  have "set hs \<subseteq> mock_live b1" using Cons.prems mock_live_frame [OF frame] by simp
  from Cons.IH [OF this, of outs1] show ?case
    using one len by (auto elim!: ok_mono intro: decode_frame_trans [OF frame])
qed

lemma mock_inv_frame: "mock_inv b \<Longrightarrow> decode_frame b b' \<Longrightarrow> mock_inv b'"
  unfolding mock_inv_def decode_frame_def same_costs_def by (metis domI domD)

lemma ok_mock_decode:
  assumes "mock_inv b" "set hs \<subseteq> mock_live b"
  shows "ok (mock_decode hs b) (\<lambda>(outs, b').
    length outs = length hs \<and> mock_inv b' \<and> mock_live b' = mock_live b \<and>
    mock_room b' = mock_room b \<and> same_costs b b' \<and>
    mb_pending_prefill_errors b' = mb_pending_prefill_errors b \<and>
    mock_time b' = mock_time b + mb_per_decode_cost b)"
proof -
  have cost: "0 \<le> mb_per_decode_cost b" using assms(1) by (simp add: mock_inv_def)
  let ?b = "b\<lparr>mb_clock := (mb_clock b)\<lparr>current := current (mb_clock b) + mb_per_decode_cost b\<rparr>\<rparr>"
  have inv: "mock_inv ?b" using assms(1) by (simp add: mock_inv_def)
  have "ok (fold_res mock_decode_one hs ([], ?b)) (\<lambda>(outs', b').
     length outs' = length hs \<and> decode_frame ?b b')"
    using ok_mock_decode_fold [of hs ?b "[]"] assms(2) by (simp add: mock_live_def)
  moreover have "mock_live b' = mock_live b" if "decode_frame ?b b'" for b'
    using mock_live_frame [OF that] by (simp add: mock_live_def)
  moreover have "mock_inv b' \<and> mock_room b' = mock_room b \<and> same_costs b b' \<and>
      mb_pending_prefill_errors b' = mb_pending_prefill_errors b \<and>
      mock_time b' = mock_time b + mb_per_decode_cost b" if "decode_frame ?b b'" for b'
    using mock_inv_frame [OF inv that] that
    by (simp add: decode_frame_def same_costs_def mock_room_def mock_time_def)
  ultimately show ?thesis
    using cost by (auto simp: mock_decode_def advance_def elim!: ok_mono)
qed

lemma ok_mock_release:
  assumes "mock_inv b" "h \<in> mock_live b"
  shows "ok (mock_release h b) (\<lambda>b'.
    mock_inv b' \<and> mock_live b' = mock_live b - {h} \<and> mock_room b' = mock_room b \<and>
    same_costs b b' \<and> mb_pending_prefill_errors b' = mb_pending_prefill_errors b \<and>
    mb_pending_decode_errors b' = mb_pending_decode_errors b \<and> mock_time b' = mock_time b)"
  using assms
  by (cases h) (auto simp: mock_release_def mock_inv_def mock_view_defs same_costs_def
      split: option.splits)

section \<open>The contract holds\<close>

interpretation mock: backend_contract mock_backend mock_now mock_inv mock_live mock_room mock_time
proof unfold_locales
  show "mock_inv w' \<and> mock_live w' = mock_live w \<and> mock_room w' = mock_room w \<and>
      mock_time w \<le> t \<and> t \<le> mock_time w'"
    if "mock_inv w" "mock_now w = (t, w')" for w t w'
    using that by (auto simp: mock_now_def fake_now_def mock_time_def)
  show "ok (bk_prefill mock_backend b w) (\<lambda>(res, w').
      mock_inv w' \<and> length res = length b \<and> distinct (successes res) \<and>
      set (successes res) \<inter> mock_live w = {} \<and> mock_live w' = mock_live w \<union> set (successes res) \<and>
      mock_room w \<le> mock_room w' + length b \<and> mock_time w \<le> mock_time w')"
    if "mock_inv w" "length b \<le> mock_room w" for w b
  proof -
    have "mock_live w' = mock_live w \<union> set (successes (prefill_outcomes (length b) w))"
      if "prefill_post b w w'" for w'
      using that by (auto simp: prefill_post_def mock_live_def dom_def image_iff split: if_splits)
        (metis SequenceHandle.collapse)+
    moreover have "0 \<le> mb_per_token_prefill_cost w" using that(1) by (simp add: mock_inv_def)
    ultimately show ?thesis
      using distinct_minted [OF that(2)] minted_fresh [OF that]
      by (intro ok_mono [OF ok_mock_prefill [OF that, folded mock_backend_simps]])
        (auto simp: prefill_post_def mock_room_def)
  qed
  show "ok (bk_decode mock_backend hs w) (\<lambda>(res, w').
      mock_inv w' \<and> length res = length hs \<and> mock_live w' = mock_live w \<and>
      mock_room w' = mock_room w \<and> mock_time w \<le> mock_time w')"
    if "mock_inv w" "set hs \<subseteq> mock_live w" for w hs
    using that(1) by (intro ok_mono [OF ok_mock_decode [OF that, folded mock_backend_simps]])
      (auto simp: mock_inv_def)
  show "ok (bk_release mock_backend h w) (\<lambda>w'.
      mock_inv w' \<and> mock_live w' = mock_live w - {h} \<and> mock_room w' = mock_room w \<and>
      mock_time w \<le> mock_time w')"
    if "mock_inv w" "h \<in> mock_live w" for w h
    by (rule ok_mono [OF ok_mock_release [OF that, folded mock_backend_simps]]) simp
qed

section \<open>Properties\<close>

text \<open>
  What a whole call of \<open>decode\<close> answers: the injected errors go to the first sequences of the
  batch, every later sequence gets its next token.
\<close>

definition decode_outcomes :: "DecodeBatch \<Rightarrow> MockBackend \<Rightarrow> DecodeResult" where
  "decode_outcomes hs b =
     map Inl (take (length hs) (mb_pending_decode_errors b)) @
     map (\<lambda>h. Inr (next_token (the (mb_sequences b (handle_id h)))))
       (drop (length (mb_pending_decode_errors b)) hs)"

definition decode_post :: "DecodeBatch \<Rightarrow> MockBackend \<Rightarrow> MockBackend \<Rightarrow> bool" where
  "decode_post hs b b' \<longleftrightarrow>
     mb_pending_decode_errors b' = drop (length hs) (mb_pending_decode_errors b) \<and>
     (\<forall>i. mb_sequences b' i =
        (if SequenceHandle i \<in> set (drop (length (mb_pending_decode_errors b)) hs)
         then map_option bump (mb_sequences b i) else mb_sequences b i))"

lemma mock_decode_fold_exact:
  assumes "set hs \<subseteq> mock_live b" "distinct hs"
  shows "\<exists>b'. fold_res mock_decode_one hs (outs, b) = Inr (outs @ decode_outcomes hs b, b') \<and>
    decode_post hs b b' \<and> decode_frame b b'"
  using assms
proof (induction hs arbitrary: outs b)
  case Nil
  then show ?case by (simp add: decode_outcomes_def decode_post_def decode_frame_def same_costs_def)
next
  case (Cons h hs)
  obtain st where st: "mb_sequences b (handle_id h) = Some st"
    using Cons.prems(1) by (auto simp: mem_mock_live)
  obtain outs1 b1 where one: "mock_decode_one h (outs, b) = Inr (outs1, b1)"
    and frame: "decode_frame b b1"
    using ok_mock_decode_one [of h b outs] Cons.prems by (auto simp: ok_iff)
  have live: "set hs \<subseteq> mock_live b1" using Cons.prems mock_live_frame [OF frame] by simp
  obtain b2 where rest: "fold_res mock_decode_one hs (outs1, b1) = Inr (outs1 @ decode_outcomes hs b1, b2)"
    and post: "decode_post hs b1 b2" and frame2: "decode_frame b1 b2"
    using Cons.IH [OF live] Cons.prems(2) by auto
  have "outs1 @ decode_outcomes hs b1 = outs @ decode_outcomes (h # hs) b \<and> decode_post (h # hs) b b2"
  proof (cases "mb_pending_decode_errors b")
    case (Cons e es)
    then have "outs1 = outs @ [Inl e]" "b1 = b\<lparr>mb_pending_decode_errors := es\<rparr>"
      using one by (auto simp: mock_decode_one_def)
    then show ?thesis using post Cons by (auto simp: decode_outcomes_def decode_post_def)
  next
    case Nil
    then have b1: "outs1 = outs @ [Inr (next_token st)]"
      "mb_sequences b1 = (mb_sequences b)(handle_id h \<mapsto> bump st)" "mb_pending_decode_errors b1 = []"
      using one st by (auto simp: mock_decode_one_def next_token_def bump_def Let_def)
    have other: "handle_id g \<noteq> handle_id h" if "g \<in> set hs" for g
      using that Cons.prems(2) SequenceHandle.expand by fastforce
    have "map (\<lambda>g. next_token (the (mb_sequences b1 (handle_id g)))) hs =
        map (\<lambda>g. next_token (the (mb_sequences b (handle_id g)))) hs"
      using other by (intro map_cong) (auto simp: b1)
    moreover have "SequenceHandle i \<in> set hs \<Longrightarrow> i \<noteq> handle_id h" for i
      using other by fastforce
    ultimately show ?thesis
      using post b1 Nil st Cons.prems(2)
      by (auto simp: decode_outcomes_def decode_post_def fun_eq_iff)
  qed
  then show ?case using one rest frame frame2 decode_frame_trans by fastforce
qed

text \<open>
  C27 (the contract). The mock backend keeps everything the scheduler relies on: a batch is
  answered outcome by outcome, a prefill mints fresh handles only, decoding needs and keeps live
  handles, a release takes back exactly one, and time never runs backwards.
\<close>

theorem mock_backend_keeps_contract:
  "backend_contract mock_backend mock_now mock_inv mock_live mock_room mock_time"
  by (rule mock.backend_contract_axioms)

text \<open>
  Prefill, exactly. A prefill of any batch the id space has room for returns: injected
  errors answer the first sequences in the order they were injected and are used up, the others
  get consecutive new ids, each new sequence starts with no token, and the clock moves by the
  per-token cost of the whole batch, failed sequences included.
\<close>

theorem mock_prefill_exact:
  assumes "mock_inv b" "length batch \<le> mock_room b"
  shows "\<exists>b'. mock_prefill batch b = Inr (prefill_outcomes (length batch) b, b') \<and>
    prefill_post batch b b'"
  using ok_mock_prefill [OF assms] by (auto simp: ok_iff)

theorem mock_prefill_exact_witness:
  "\<exists>b'. mock_prefill [[1, 2, 3], [4]]
       (fail_next_prefill \<lparr>err_category = kUnavailable, err_message = ''x''\<rparr>
          (MockBackend_new (FakeClock_new 0) (ms 1) (ms 5))) =
     Inr ([Inl \<lparr>err_category = kUnavailable, err_message = ''x''\<rparr>, Inr (SequenceHandle 0)], b') \<and>
     mock_time b' = ms 4"
proof -
  let ?b = "fail_next_prefill \<lparr>err_category = kUnavailable, err_message = ''x''\<rparr>
    (MockBackend_new (FakeClock_new 0) (ms 1) (ms 5))"
  have "mock_inv ?b" "length [[1, 2, 3], [4 :: uint32]] \<le> mock_room ?b"
    by (simp_all add: mock_inv_def fail_next_prefill_def MockBackend_new_def ms_def mock_room_def)
  from mock_prefill_exact [OF this] show ?thesis
    by (auto simp: prefill_outcomes_def prefill_post_def mock_time_def fail_next_prefill_def
        MockBackend_new_def FakeClock_new_def ms_def)
qed

text \<open>
  Decode, exactly. Decoding distinct live handles returns: injected errors answer the first
  sequences and leave them untouched, every other sequence gets the token one above its last one
  and is marked finished when its configured length is reached; the clock moves by one flat cost,
  whatever the size of the batch.
\<close>

theorem mock_decode_exact:
  assumes "mock_inv b" "set hs \<subseteq> mock_live b" "distinct hs"
  shows "\<exists>b'. mock_decode hs b = Inr (decode_outcomes hs b, b') \<and> decode_post hs b b' \<and>
    mock_time b' = mock_time b + mb_per_decode_cost b"
proof -
  let ?b = "b\<lparr>mb_clock := (mb_clock b)\<lparr>current := current (mb_clock b) + mb_per_decode_cost b\<rparr>\<rparr>"
  have "set hs \<subseteq> mock_live ?b" using assms(2) by (simp add: mock_live_def)
  from mock_decode_fold_exact [OF this assms(3), of "[]"] show ?thesis
    using assms(1)
    by (auto simp: mock_decode_def advance_def mock_inv_def decode_outcomes_def decode_post_def
        decode_frame_def mock_time_def)
qed

theorem mock_decode_exact_witness:
  "\<exists>b b'. mock_live b = {SequenceHandle 0} \<and>
     mock_decode [SequenceHandle 0] b = Inr ([Inr \<lparr>dt_token_id = 3, dt_finished = True\<rparr>], b') \<and>
     mock_time b' = ms 5"
proof -
  let ?b = "(MockBackend_new (FakeClock_new 0) (ms 1) (ms 5))\<lparr>mb_next_sequence_id := 1,
    mb_sequences := [0 \<mapsto> \<lparr>tokens_emitted = 2, finished_after_tokens = Some 3\<rparr>]\<rparr>"
  have live: "mock_live ?b = {SequenceHandle 0}" by (simp add: mock_live_def)
  have "mock_inv ?b" by (simp add: mock_inv_def MockBackend_new_def ms_def)
  from mock_decode_exact [OF this, of "[SequenceHandle 0]"] live
  obtain b' where "mock_decode [SequenceHandle 0] ?b = Inr (decode_outcomes [SequenceHandle 0] ?b, b')"
    and "mock_time b' = mock_time ?b + mb_per_decode_cost ?b" by auto
  moreover have "decode_outcomes [SequenceHandle 0] ?b = [Inr \<lparr>dt_token_id = 3, dt_finished = True\<rparr>]"
    "mock_time ?b + mb_per_decode_cost ?b = ms 5"
    by (simp_all add: decode_outcomes_def next_token_def MockBackend_new_def mock_time_def FakeClock_new_def)
  ultimately show ?thesis using live by (intro exI [of _ ?b] exI [of _ b']) simp
qed

text \<open>
  A handle is released once. After a release the handle is unknown: a second release and a
  decode of it panic, while every other sequence keeps its state.
\<close>

theorem mock_release_once:
  assumes "mock_release h b = Inr b'" "mb_pending_decode_errors b = []" "0 \<le> mb_per_decode_cost b"
  shows "mock_release h b' = Inl (Panic ''release() called with unknown or already-released SequenceHandle'') \<and>
    mock_decode (h # hs) b' = Inl (Panic ''decode() called with unknown or already-released SequenceHandle'') \<and>
    mock_live b' = mock_live b - {h} \<and>
    (\<forall>g. g \<noteq> h \<longrightarrow> mb_sequences b' (handle_id g) = mb_sequences b (handle_id g))"
proof -
  have b': "b' = b\<lparr>mb_sequences := (mb_sequences b)(handle_id h := None)\<rparr>"
    using assms(1) by (auto simp: mock_release_def panic_def split: option.splits)
  have "mock_live b' = mock_live b - {h}" by (cases h) (auto simp: b' mock_live_def)
  moreover have "handle_id g \<noteq> handle_id h" if "g \<noteq> h" for g using that SequenceHandle.expand by blast
  ultimately show ?thesis
    using assms(2,3) by (simp add: b' mock_release_def mock_decode_def mock_decode_one_def advance_def panic_def)
qed

theorem mock_release_once_witness:
  "\<exists>b b'. mock_release (SequenceHandle 0) b = Inr b' \<and>
     mock_release (SequenceHandle 0) b' =
       Inl (Panic ''release() called with unknown or already-released SequenceHandle'')"
proof -
  let ?b = "(MockBackend_new (FakeClock_new 0) (ms 1) (ms 5))\<lparr>
    mb_sequences := [0 \<mapsto> \<lparr>tokens_emitted = 2, finished_after_tokens = None\<rparr>]\<rparr>"
  have "\<exists>b'. mock_release (SequenceHandle 0) ?b = Inr b'" by (simp add: mock_release_def)
  moreover have "mb_pending_decode_errors ?b = []" "0 \<le> mb_per_decode_cost ?b"
    by (simp_all add: MockBackend_new_def ms_def)
  ultimately show ?thesis using mock_release_once [of "SequenceHandle 0" ?b] by blast
qed

end
