(* ===== verification/Scheduler_Spec.thy ===== *)
theory Scheduler_Spec
  imports Scheduler_Ops Mock_Backend
begin

text \<open>
  What the scheduler promises, apart from how it does it. \<open>fifo_spec\<close> is one line of tickets in
  arrival order with a token count and an outcome for each; \<open>spec_step\<close> says how the line may
  change. \<open>sched_step\<close> is one call on the scheduler (\<open>submit\<close>, \<open>tick\<close>, \<open>cancel\<close>) or a
  move of the world around it, and every such call implements a step of the specification. The
  invariant and the FIFO order then hold in every state that a sequence of calls reaches.
\<close>

section \<open>The abstract scheduler\<close>

record fifo_spec =
  sp_line :: "nat list"
  sp_tokens :: "nat \<Rightarrow> nat"
  sp_outcome :: "nat \<Rightarrow> RequestState option"
  sp_issued :: nat

definition served :: "fifo_spec \<Rightarrow> fifo_spec \<Rightarrow> nat \<Rightarrow> bool" where
  "served a a' p \<longleftrightarrow>
     (case sp_outcome a' p of
        None \<Rightarrow> p \<in> set (sp_line a') \<and> sp_tokens a' p = sp_tokens a p + 1
      | Some st \<Rightarrow> p \<notin> set (sp_line a') \<and>
          (st = kCompleted \<and> sp_tokens a' p = sp_tokens a p + 1 \<or>
           st = kFailed \<and> sp_tokens a' p = sp_tokens a p))"

inductive spec_step :: "fifo_spec \<Rightarrow> fifo_spec \<Rightarrow> bool" where
  arrive: "spec_step a (a\<lparr>sp_line := sp_line a @ [sp_issued a],
      sp_tokens := (sp_tokens a)(sp_issued a := 0),
      sp_outcome := (sp_outcome a)(sp_issued a := None), sp_issued := sp_issued a + 1\<rparr>)"
| serve: "subseq (sp_line a') (sp_line a) \<Longrightarrow> sp_issued a' = sp_issued a \<Longrightarrow>
    \<forall>p \<in> set (sp_line a). served a a' p \<Longrightarrow>
    \<forall>p. p \<notin> set (sp_line a) \<longrightarrow> sp_tokens a' p = sp_tokens a p \<and> sp_outcome a' p = sp_outcome a p \<Longrightarrow>
    spec_step a a'"
| leave: "p \<in> set (sp_line a) \<Longrightarrow>
    spec_step a (a\<lparr>sp_line := remove1 p (sp_line a), sp_outcome := (sp_outcome a)(p \<mapsto> kCancelled)\<rparr>)"
| idle: "spec_step a a"

text \<open>The service order: what is already decoding comes before what waits.\<close>

definition fifo_line :: "FifoScheduler \<Rightarrow> ReqPtr list" where
  "fifo_line s = fs_decoding s @ fs_waiting s"

definition spec_of :: "FifoScheduler \<Rightarrow> fifo_spec" where
  "spec_of s =
     \<lparr>sp_line = fifo_line s,
      sp_tokens = (\<lambda>p. if p < length (fs_requests s)
                       then req_output_tokens_emitted (req_at s p) else 0),
      sp_outcome = (\<lambda>p. if p < length (fs_requests s) \<and> is_terminal (req_state (req_at s p))
                        then Some (req_state (req_at s p)) else None),
      sp_issued = length (fs_requests s)\<rparr>"

text \<open>Tickets are issued in increasing order, so a sorted line is a line in arrival order.\<close>

definition spec_inv :: "fifo_spec \<Rightarrow> bool" where
  "spec_inv a \<longleftrightarrow> sorted_wrt (<) (sp_line a) \<and> set (sp_line a) \<subseteq> {..<sp_issued a}"

lemma sorted_wrt_subseq: "subseq xs ys \<Longrightarrow> sorted_wrt P ys \<Longrightarrow> sorted_wrt P xs"
  by (induction rule: list_emb.induct) (auto dest: subseq_subset)

lemma subseq_remove1: "subseq (remove1 x xs) xs"
  by (induction xs) auto

lemma spec_inv_step: "spec_step a a' \<Longrightarrow> spec_inv a \<Longrightarrow> spec_inv a'"
proof (induction rule: spec_step.induct)
  case (arrive a)
  then show ?case by (auto simp: spec_inv_def sorted_wrt_append)
next
  case (serve a' a)
  then show ?case
    using sorted_wrt_subseq [OF serve(1)] subseq_subset [OF serve(1)] by (auto simp: spec_inv_def)
next
  case (leave p a)
  then show ?case
    using sorted_wrt_subseq [OF subseq_remove1] set_remove1_subset [of p "sp_line a"]
    by (auto simp: spec_inv_def)
qed auto

section \<open>Calls on the scheduler\<close>

text \<open>
  \<open>env\<close> is what may happen to the world between calls; \<open>n\<close> bounds the number of requests
  (a backend mints at most one handle for each). A client submits a fresh \<open>Request\<close> whose
  id no tracked request has and whose token budget is positive: \<open>submit\<close> checks neither.
\<close>

inductive sched_step ::
  "'w InferenceBackend \<Rightarrow> 'w Clock \<Rightarrow> ('w \<Rightarrow> 'w \<Rightarrow> bool) \<Rightarrow> nat \<Rightarrow>
   FifoScheduler \<times> 'w \<Rightarrow> FifoScheduler \<times> 'w \<Rightarrow> bool"
  for be now env n where
  call_submit: "length (fs_requests s) < n \<Longrightarrow> now w = (t1, w1) \<Longrightarrow> now w1 = (t2, w2) \<Longrightarrow>
    0 < m \<Longrightarrow> i \<notin> id_at s ` set (tracked s) \<Longrightarrow>
    submit now (Request_new i t1 t2 d m prompt prio) (s, w2) = Inr (p, sw') \<Longrightarrow>
    sched_step be now env n (s, w) sw'"
| call_tick: "tick be now (s, w) = Inr (rep, sw') \<Longrightarrow> sched_step be now env n (s, w) sw'"
| call_cancel: "cancel be now i (s, w) = Inr sw' \<Longrightarrow> sched_step be now env n (s, w) sw'"
| world_moves: "env w w' \<Longrightarrow> sched_step be now env n (s, w) (s, w')"

abbreviation sched_reach ::
  "'w InferenceBackend \<Rightarrow> 'w Clock \<Rightarrow> ('w \<Rightarrow> 'w \<Rightarrow> bool) \<Rightarrow> nat \<Rightarrow>
   FifoScheduler \<times> 'w \<Rightarrow> FifoScheduler \<times> 'w \<Rightarrow> bool" where
  "sched_reach be now env n \<equiv> (sched_step be now env n)\<^sup>*\<^sup>*"

section \<open>What a tick does to one request\<close>

lemma succeeded_nth:
  assumes "distinct ps" "length outs = length ps" "i < length ps"
  shows "ps ! i \<in> set (succeeded ps outs) \<longleftrightarrow> \<not> isl (outs ! i)"
  using assms by (auto simp: succeeded_def set_zip nth_eq_iff_index_eq) force

lemma subseq_succeeded: "length outs = length ps \<Longrightarrow> subseq (succeeded ps outs) ps"
proof (induction outs ps rule: list_induct2)
  case (Cons out outs p ps)
  then show ?case by (auto simp: succeeded_def)
qed (simp add: succeeded_def)

lemma set_succeeded: "set (succeeded ps outs) \<subseteq> set ps"
  by (auto simp: succeeded_def dest: set_zip_leftD)

text \<open>What the client asked for never changes.\<close>

definition same_terms :: "Request \<Rightarrow> Request \<Rightarrow> bool" where
  "same_terms r r' \<longleftrightarrow>
     req_id r' = req_id r \<and> req_deadline_at r' = req_deadline_at r \<and>
     req_max_output_tokens r' = req_max_output_tokens r \<and>
     req_prompt_token_ids r' = req_prompt_token_ids r \<and> req_priority r' = req_priority r"

lemma same_terms_trans: "same_terms r r' \<Longrightarrow> same_terms r' r'' \<Longrightarrow> same_terms r r''"
  by (simp add: same_terms_def)

lemma with_lifecycle_terms: "with_lifecycle st r r' \<Longrightarrow> same_terms r r'"
  by (auto simp: with_lifecycle_def same_terms_def)

lemma decode_effect_terms: "decode_effect out r r' \<Longrightarrow> same_terms r r'"
  by (auto simp: decode_effect_def with_lifecycle_def same_terms_def split: sum.splits)

text \<open>
  Outcome of one tick for the request \<open>p\<close> that was tracked before it: failed with its tokens
  untouched, or one more token and then completed or still decoding.
\<close>

definition ticked :: "FifoScheduler \<Rightarrow> FifoScheduler \<Rightarrow> ReqPtr \<Rightarrow> bool" where
  "ticked s s' p \<longleftrightarrow>
     same_terms (req_at s p) (req_at s' p) \<and>
     (req_state (req_at s' p) = kFailed \<and> p \<notin> set (fs_decoding s') \<and>
       req_output_token_ids (req_at s' p) = req_output_token_ids (req_at s p) \<and>
       req_output_tokens_emitted (req_at s' p) = req_output_tokens_emitted (req_at s p) \<or>
     (\<exists>tok. req_output_token_ids (req_at s' p) = req_output_token_ids (req_at s p) @ [tok]) \<and>
       req_output_tokens_emitted (req_at s' p) = req_output_tokens_emitted (req_at s p) + 1 \<and>
       (req_state (req_at s' p) = kCompleted \<and> p \<notin> set (fs_decoding s') \<or>
        req_state (req_at s' p) = kDecoding \<and> p \<in> set (fs_decoding s')))"

text \<open>The three phases behind a tick, with the queues each leaves.\<close>

lemma tick_effect_phases:
  assumes "tick_effect t t' s rep s'" "queues_inv s"
  obtains es s1 outs1 s2 outs2 where
    "failed_batch s es s1" "distinct es" "set es \<subseteq> set (tracked s)"
    "\<forall>p \<in> set (tracked s). req_deadline_at (req_at s p) < t \<longrightarrow> p \<in> set es"
    "prefilled s1 (fs_waiting s1) outs1 s2" "length outs1 = length (fs_waiting s1)"
    "decoded s2 (fs_decoding s2) outs2 s'" "length outs2 = length (fs_decoding s2)"
    "distinct (fs_waiting s1)" "distinct (fs_decoding s2)"
    "fs_waiting s' = []" "fs_decoding s2 = fs_decoding s1 @ succeeded (fs_waiting s1) outs1"
    "subseq (fs_decoding s2) (fifo_line s)"
    "set (fs_waiting s1) = set (fs_waiting s) - set es"
    "set (fs_decoding s1) = set (fs_decoding s) - set es"
    "fs_decoding s' = filter (\<lambda>p. req_state (req_at s' p) = kDecoding) (fs_decoding s2)"
    "length (fs_requests s1) = length (fs_requests s)"
    "length (fs_requests s2) = length (fs_requests s)"
    "length (fs_requests s') = length (fs_requests s)"
    "tr_expired_count rep = length es"
    "tr_prefill_attempted rep = length (fs_waiting s1)"
    "tr_prefill_tokens rep =
       sum_list (map (\<lambda>p. length (req_prompt_token_ids (req_at s1 p))) (fs_waiting s1))"
    "tr_prefill_succeeded rep = length (succeeded (fs_waiting s1) outs1)"
    "tr_prefill_failed rep = length (fs_waiting s1) - length (succeeded (fs_waiting s1) outs1)"
    "tr_decode_attempted rep = length (fs_decoding s2)"
    "tr_decode_tokens rep = length (fs_decoding s2)"
    "tr_decode_completed rep = in_state s' kCompleted (fs_decoding s2)"
    "tr_decode_failed rep = in_state s' kFailed (fs_decoding s2)"
proof -
  obtain es s1 outs1 s2 outs2 where
    es: "failed_batch s es s1" "distinct es" "set es \<subseteq> set (tracked s)"
      "\<forall>p \<in> set (tracked s). req_deadline_at (req_at s p) < t \<longrightarrow> p \<in> set es"
    and pre: "prefilled s1 (fs_waiting s1) outs1 s2" "length outs1 = length (fs_waiting s1)"
    and dec: "decoded s2 (fs_decoding s2) outs2 s'" "length outs2 = length (fs_decoding s2)"
    and rep: "tr_expired_count rep = length es"
      "tr_prefill_attempted rep = length (fs_waiting s1)"
      "tr_prefill_tokens rep =
         sum_list (map (\<lambda>p. length (req_prompt_token_ids (req_at s1 p))) (fs_waiting s1))"
      "tr_prefill_succeeded rep = length (succeeded (fs_waiting s1) outs1)"
      "tr_prefill_failed rep = length (fs_waiting s1) - length (succeeded (fs_waiting s1) outs1)"
      "tr_decode_attempted rep = length (fs_decoding s2)"
      "tr_decode_tokens rep = length (fs_decoding s2)"
      "tr_decode_completed rep = in_state s' kCompleted (fs_decoding s2)"
      "tr_decode_failed rep = in_state s' kFailed (fs_decoding s2)"
    using assms(1) unfolding tick_effect_def by blast
  have q1: "fs_waiting s1 = filter (\<lambda>p. p \<notin> set es) (fs_waiting s)"
    "fs_decoding s1 = filter (\<lambda>p. p \<notin> set es) (fs_decoding s)"
    using es(1) by (auto simp: failed_batch_def)
  have q2: "fs_decoding s2 = fs_decoding s1 @ succeeded (fs_waiting s1) outs1"
    "fs_waiting s2 = []"
    using pre(1) by (auto simp: prefilled_def)
  have "subseq (fs_decoding s1) (fs_decoding s)" "subseq (fs_waiting s1) (fs_waiting s)"
    by (simp_all add: q1)
  then have sub: "subseq (fs_decoding s2) (fifo_line s)"
    unfolding q2 fifo_line_def
    by (intro list_emb_append_mono) (auto intro: subseq_order.trans [OF subseq_succeeded [OF pre(2)]])
  have "distinct (fifo_line s)"
    using assms(2) by (auto simp: fifo_line_def queues_inv_def tracked_def)
  then have "distinct (fs_decoding s2)" using sub subseq_distinctD by blast
  moreover have "distinct (fs_waiting s1)" using queues_distinct [OF assms(2)] q1 by simp
  moreover have "fs_waiting s' = []" using dec(1) q2 by (simp add: decoded_def)
  moreover have "set (fs_waiting s1) = set (fs_waiting s) - set es"
    "set (fs_decoding s1) = set (fs_decoding s) - set es" using q1 by auto
  moreover have "length (fs_requests s1) = length (fs_requests s)"
    "length (fs_requests s2) = length (fs_requests s)"
    "length (fs_requests s') = length (fs_requests s)"
    "fs_decoding s' = filter (\<lambda>p. req_state (req_at s' p) = kDecoding) (fs_decoding s2)"
    using es(1) pre(1) dec(1) by (auto simp: failed_batch_def prefilled_def decoded_def)
  ultimately show ?thesis
    using that [OF es pre dec] q2(1) sub rep by blast
qed

lemma decoded_nth:
  assumes "decoded s ps outs s'" "distinct ps" "p \<in> set ps"
  obtains i where "i < length ps" "p = ps ! i" "decode_effect (outs ! i) (req_at s p) (req_at s' p)"
  using assms by (auto simp: decoded_def in_set_conv_nth)

lemma decode_effect_cases:
  assumes "decode_effect out r r'"
  shows "req_state r' = kFailed \<and> req_output_token_ids r' = req_output_token_ids r \<and>
      req_output_tokens_emitted r' = req_output_tokens_emitted r \<or>
    (\<exists>tok. req_output_token_ids r' = req_output_token_ids r @ [tok]) \<and>
      req_output_tokens_emitted r' = req_output_tokens_emitted r + 1 \<and>
      (req_state r' = kCompleted \<or> req_state r' = kDecoding)"
  using assms by (auto simp: decode_effect_def with_lifecycle_def split: sum.splits if_splits)

lemma prefilled_nth:
  assumes "prefilled s ps outs s'" "p \<in> set ps" "distinct ps" "length outs = length ps"
  shows "with_lifecycle (if p \<in> set (succeeded ps outs) then kDecoding else kFailed)
    (req_at s p) (req_at s' p)"
proof -
  obtain i where i: "i < length ps" "p = ps ! i" using assms(2) by (auto simp: in_set_conv_nth)
  then show ?thesis
    using assms(1) succeeded_nth [OF assms(3,4) i(1)] by (auto simp: prefilled_def)
qed

lemma with_lifecycle_failed_ticked:
  assumes "with_lifecycle kFailed (req_at s p) (req_at s' p)" "p \<notin> set (fs_decoding s')"
  shows "ticked s s' p"
  using assms with_lifecycle_sel [OF assms(1)] with_lifecycle_terms [OF assms(1)]
  by (simp add: ticked_def)

lemma prefilled_tokens:
  assumes "prefilled s (fs_waiting s) outs s'" "distinct (fs_waiting s)"
    "length outs = length (fs_waiting s)" "p < length (fs_requests s)"
  shows "same_terms (req_at s p) (req_at s' p)"
    and "req_output_token_ids (req_at s' p) = req_output_token_ids (req_at s p)"
    and "req_output_tokens_emitted (req_at s' p) = req_output_tokens_emitted (req_at s p)"
proof -
  consider "req_at s' p = req_at s p" | st where "with_lifecycle st (req_at s p) (req_at s' p)"
    using assms prefilled_nth [OF assms(1) _ assms(2,3)] by (auto simp: prefilled_def)
  then have "same_terms (req_at s p) (req_at s' p) \<and>
      req_output_token_ids (req_at s' p) = req_output_token_ids (req_at s p) \<and>
      req_output_tokens_emitted (req_at s' p) = req_output_tokens_emitted (req_at s p)"
    by cases (auto simp: same_terms_def with_lifecycle_def)
  then show "same_terms (req_at s p) (req_at s' p)"
    and "req_output_token_ids (req_at s' p) = req_output_token_ids (req_at s p)"
    and "req_output_tokens_emitted (req_at s' p) = req_output_tokens_emitted (req_at s p)"
    by blast+
qed

lemma ticked_decoded:
  assumes "prefilled s1 (fs_waiting s1) outs1 s2" "length outs1 = length (fs_waiting s1)" "distinct (fs_waiting s1)"
    and dec: "decoded s2 (fs_decoding s2) outs2 s'" "distinct (fs_decoding s2)"
    and qs: "fs_decoding s' = filter (\<lambda>p. req_state (req_at s' p) = kDecoding) (fs_decoding s2)"
    and d: "p \<in> set (fs_decoding s2)" and "req_at s1 p = req_at s p" "p < length (fs_requests s1)"
  shows "ticked s s' p"
proof -
  have "same_terms (req_at s p) (req_at s2 p)"
    "req_output_token_ids (req_at s2 p) = req_output_token_ids (req_at s p)"
    "req_output_tokens_emitted (req_at s2 p) = req_output_tokens_emitted (req_at s p)"
    using prefilled_tokens [OF assms(1,3,2), of p] assms(8,9) by simp_all
  moreover obtain i where i: "decode_effect (outs2 ! i) (req_at s2 p) (req_at s' p)"
    using decoded_nth [OF dec d] by blast
  ultimately show ?thesis
    using decode_effect_cases [OF i] same_terms_trans [OF _ decode_effect_terms [OF i]] d qs
    by (auto simp: ticked_def)
qed

text \<open>The fates of the tracked requests: expired, prefill failed, or decoded.\<close>

lemma tick_effect_fates:
  assumes eff: "tick_effect t t' s rep s'" and q: "queues_inv s"
  obtains es d where "set es \<subseteq> set (tracked s)" "set d \<subseteq> set (tracked s) - set es"
    "\<forall>p \<in> set (tracked s). req_deadline_at (req_at s p) < t \<longrightarrow> p \<in> set es"
    "\<And>p. p \<in> set (tracked s) - set d \<Longrightarrow> with_lifecycle kFailed (req_at s p) (req_at s' p)"
    "\<And>p. p \<in> set d \<Longrightarrow> ticked s s' p"
    "\<And>p. p < length (fs_requests s) \<Longrightarrow> p \<notin> set (tracked s) \<Longrightarrow> req_at s' p = req_at s p"
    "set (fs_decoding s') \<subseteq> set d"
proof (rule tick_effect_phases [OF eff q])
  fix es s1 outs1 s2 outs2
  assume es: "failed_batch s es s1" "set es \<subseteq> set (tracked s)"
      "\<forall>p \<in> set (tracked s). req_deadline_at (req_at s p) < t \<longrightarrow> p \<in> set es"
    and pre: "prefilled s1 (fs_waiting s1) outs1 s2" "length outs1 = length (fs_waiting s1)"
      "distinct (fs_waiting s1)"
    and dec: "decoded s2 (fs_decoding s2) outs2 s'" "distinct (fs_decoding s2)"
    and qs: "fs_decoding s2 = fs_decoding s1 @ succeeded (fs_waiting s1) outs1"
      "set (fs_waiting s1) = set (fs_waiting s) - set es"
      "set (fs_decoding s1) = set (fs_decoding s) - set es"
      "fs_decoding s' = filter (\<lambda>p. req_state (req_at s' p) = kDecoding) (fs_decoding s2)"
    and len: "length (fs_requests s1) = length (fs_requests s)"
      "length (fs_requests s2) = length (fs_requests s)"
  have lt: "p < length (fs_requests s)" if "p \<in> set (tracked s)" for p using tracked_lt [OF q that] .
  have sub: "set (fs_decoding s2) \<subseteq> set (tracked s) - set es"
    using set_succeeded [of "fs_waiting s1" outs1] qs by (auto simp: tracked_def)
  have keep: "req_at s' p = req_at s2 p" if "p < length (fs_requests s)" "p \<notin> set (fs_decoding s2)" for p
    using dec(1) that len by (simp add: decoded_def)
  have keep2: "req_at s2 p = req_at s1 p" if "p < length (fs_requests s)" "p \<notin> set (fs_waiting s1)" for p
    using pre(1) that len by (simp add: prefilled_def)
  have tok: "ticked s s' p" if d: "p \<in> set (fs_decoding s2)" for p
  proof -
    have p: "p < length (fs_requests s)" "p \<notin> set es" using lt sub d by auto
    show ?thesis
      using ticked_decoded [OF pre dec qs(4) d failed_batch_at(2) [OF es(1) p]] p(1) len by simp
  qed
  have failed: "with_lifecycle kFailed (req_at s p) (req_at s' p)"
    if p: "p \<in> set (tracked s) - set (fs_decoding s2)" for p
  proof (cases "p \<in> set es")
    case True
    then show ?thesis
      using failed_batch_at(1) [OF es(1) lt] p keep keep2 lt qs(2) by auto
  next
    case False
    then have w: "p \<in> set (fs_waiting s1)" "p \<notin> set (succeeded (fs_waiting s1) outs1)"
      using p qs by (auto simp: tracked_def)
    then show ?thesis
      using prefilled_nth [OF pre(1) w(1) pre(3,2)] failed_batch_at(2) [OF es(1) lt False] p keep lt
      by auto
  qed
  have other: "req_at s' p = req_at s p" if p: "p < length (fs_requests s)" "p \<notin> set (tracked s)" for p
    using p failed_batch_at(2) [OF es(1) p(1)] es(2) keep keep2 sub qs(2)
    by (metis DiffD1 Un_iff in_mono set_append tracked_def)
  show thesis
    using that [OF es(2) sub es(3) failed tok other] qs(4) by auto
qed

lemma tick_effect_requests:
  assumes eff: "tick_effect t t' s rep s'" and q: "queues_inv s"
  shows "p \<in> set (tracked s) \<Longrightarrow> ticked s s' p"
    and "p \<in> set (tracked s) \<Longrightarrow> req_deadline_at (req_at s p) < t \<Longrightarrow>
      req_state (req_at s' p) = kFailed \<and>
      req_output_token_ids (req_at s' p) = req_output_token_ids (req_at s p) \<and>
      p \<notin> set (fs_decoding s')"
    and "p < length (fs_requests s) \<Longrightarrow> p \<notin> set (tracked s) \<Longrightarrow> req_at s' p = req_at s p"
proof -
  obtain es d where sub: "set es \<subseteq> set (tracked s)" "set d \<subseteq> set (tracked s) - set es"
    and late: "\<forall>p \<in> set (tracked s). req_deadline_at (req_at s p) < t \<longrightarrow> p \<in> set es"
    and failed: "\<And>p. p \<in> set (tracked s) - set d \<Longrightarrow> with_lifecycle kFailed (req_at s p) (req_at s' p)"
    and tok: "\<And>p. p \<in> set d \<Longrightarrow> ticked s s' p"
    and other: "\<And>p. p < length (fs_requests s) \<Longrightarrow> p \<notin> set (tracked s) \<Longrightarrow> req_at s' p = req_at s p"
    and d': "set (fs_decoding s') \<subseteq> set d"
    by (rule tick_effect_fates [OF eff q]) blast
  show "ticked s s' p" if "p \<in> set (tracked s)"
    using failed [of p] tok [of p] d' that with_lifecycle_failed_ticked by blast
  show "req_state (req_at s' p) = kFailed \<and>
      req_output_token_ids (req_at s' p) = req_output_token_ids (req_at s p) \<and>
      p \<notin> set (fs_decoding s')"
    if "p \<in> set (tracked s)" "req_deadline_at (req_at s p) < t"
  proof -
    have "p \<notin> set d" using that late sub by blast
    then show ?thesis using failed [of p] d' that by (auto dest: with_lifecycle_sel)
  qed
  show "req_at s' p = req_at s p" if "p < length (fs_requests s)" "p \<notin> set (tracked s)"
    by (rule other [OF that])
qed

lemma tick_effect_queues:
  assumes "tick_effect t t' s rep s'" "queues_inv s"
  shows "fs_waiting s' = []" and "subseq (fs_decoding s') (fifo_line s)"
    and "length (fs_requests s') = length (fs_requests s)"
proof -
  show "fs_waiting s' = []" "length (fs_requests s') = length (fs_requests s)"
    by (rule tick_effect_phases [OF assms], blast)+
  show "subseq (fs_decoding s') (fifo_line s)"
    by (rule tick_effect_phases [OF assms]) (metis subseq_filter_left subseq_order.trans)
qed

section \<open>The report accounts for every request\<close>

lemma in_state_partition:
  assumes "\<forall>p \<in> set ps. req_state (req_at s p) \<in> {kDecoding, kCompleted, kFailed}"
  shows "length ps = in_state s kCompleted ps + in_state s kFailed ps +
    length (filter (\<lambda>p. req_state (req_at s p) = kDecoding) ps)"
  using assms by (induction ps) (auto simp: in_state_def)

lemma filter_notin_length:
  assumes "distinct es" "set es \<subseteq> set ps" "distinct ps"
  shows "length (filter (\<lambda>p. p \<notin> set es) ps) + length es = length ps"
proof -
  have "set (filter (\<lambda>p. p \<in> set es) ps) = set es" using assms(2) by auto
  then have "length (filter (\<lambda>p. p \<in> set es) ps) = length es"
    using assms by (metis distinct_card distinct_filter)
  then show ?thesis using sum_length_filter_compl [of "\<lambda>p. p \<in> set es" ps] by simp
qed

lemma tick_effect_accounting:
  assumes eff: "tick_effect t t' s rep s'" and q: "queues_inv s"
  shows "tr_prefill_attempted rep = tr_prefill_succeeded rep + tr_prefill_failed rep"
    and "tr_decode_attempted rep =
      tr_decode_completed rep + tr_decode_failed rep + length (fs_decoding s')"
    and "length (tracked s) = tr_expired_count rep + tr_prefill_failed rep +
      tr_decode_completed rep + tr_decode_failed rep + length (fs_decoding s')"
    and "tr_decode_tokens rep = tr_decode_attempted rep"
proof -
  obtain es s1 outs1 s2 outs2 where es: "failed_batch s es s1" "distinct es" "set es \<subseteq> set (tracked s)"
    and pre: "length outs1 = length (fs_waiting s1)" "prefilled s1 (fs_waiting s1) outs1 s2"
    and dec: "decoded s2 (fs_decoding s2) outs2 s'" "distinct (fs_decoding s2)"
    and qs: "fs_decoding s2 = fs_decoding s1 @ succeeded (fs_waiting s1) outs1"
      "fs_decoding s' = filter (\<lambda>p. req_state (req_at s' p) = kDecoding) (fs_decoding s2)"
    and rep: "tr_expired_count rep = length es"
      "tr_prefill_attempted rep = length (fs_waiting s1)"
      "tr_prefill_succeeded rep = length (succeeded (fs_waiting s1) outs1)"
      "tr_prefill_failed rep = length (fs_waiting s1) - length (succeeded (fs_waiting s1) outs1)"
      "tr_decode_attempted rep = length (fs_decoding s2)"
      "tr_decode_tokens rep = length (fs_decoding s2)"
      "tr_decode_completed rep = in_state s' kCompleted (fs_decoding s2)"
      "tr_decode_failed rep = in_state s' kFailed (fs_decoding s2)"
    by (rule tick_effect_phases [OF eff q]) blast
  have le: "length (succeeded (fs_waiting s1) outs1) \<le> length (fs_waiting s1)"
    using list_emb_length [OF subseq_succeeded [OF pre(1)]] .
  show 1: "tr_prefill_attempted rep = tr_prefill_succeeded rep + tr_prefill_failed rep"
    using le rep by simp
  have "\<forall>p \<in> set (fs_decoding s2). req_state (req_at s' p) \<in> {kDecoding, kCompleted, kFailed}"
    using decoded_nth [OF dec] decode_effect_cases by (metis insert_iff)
  from in_state_partition [OF this] show 2: "tr_decode_attempted rep =
      tr_decode_completed rep + tr_decode_failed rep + length (fs_decoding s')"
    using rep qs(2) by simp
  have "length (fs_waiting s1) + length (fs_decoding s1) + length es = length (tracked s)"
    using filter_notin_length [OF es(2,3)] es(1) q
    by (simp add: failed_batch_def tracked_def queues_inv_def)
  then show "length (tracked s) = tr_expired_count rep + tr_prefill_failed rep +
      tr_decode_completed rep + tr_decode_failed rep + length (fs_decoding s')"
    using 2 qs(1) rep le by simp
  show "tr_decode_tokens rep = tr_decode_attempted rep" using rep by simp
qed

section \<open>Every call implements a step of the specification\<close>

lemma served_ticked:
  assumes "ticked s s' p" "p < length (fs_requests s)"
    "length (fs_requests s') = length (fs_requests s)" "fs_waiting s' = []"
  shows "served (spec_of s) (spec_of s') p"
  using assms by (auto simp: served_def spec_of_def fifo_line_def ticked_def)

lemma tick_effect_refines:
  assumes "tick_effect t t' s rep s'" "queues_inv s"
  shows "spec_step (spec_of s) (spec_of s')"
proof (rule spec_step.serve)
  note qu = tick_effect_queues [OF assms] and rq = tick_effect_requests [OF assms]
  have line: "set (sp_line (spec_of s)) = set (tracked s)"
    by (auto simp: spec_of_def fifo_line_def tracked_def)
  show "subseq (sp_line (spec_of s')) (sp_line (spec_of s))"
    using qu(1,2) by (simp add: spec_of_def fifo_line_def)
  show "sp_issued (spec_of s') = sp_issued (spec_of s)" using qu(3) by (simp add: spec_of_def)
  show "\<forall>p \<in> set (sp_line (spec_of s)). served (spec_of s) (spec_of s') p"
    using served_ticked rq(1) tracked_lt [OF assms(2)] qu(1,3) unfolding line by blast
  show "\<forall>p. p \<notin> set (sp_line (spec_of s)) \<longrightarrow>
      sp_tokens (spec_of s') p = sp_tokens (spec_of s) p \<and>
      sp_outcome (spec_of s') p = sp_outcome (spec_of s) p"
    using rq(3) qu(3) unfolding line by (auto simp: spec_of_def) metis+
qed

lemma enqueue_refines:
  assumes "req_state r = kWaitingPrefill" "req_output_tokens_emitted r = 0"
  shows "spec_step (spec_of s) (spec_of (enqueue r s))"
proof -
  let ?a = "spec_of s" and ?n = "length (fs_requests s)"
  have "spec_of (enqueue r s) = ?a\<lparr>sp_line := sp_line ?a @ [sp_issued ?a],
      sp_tokens := (sp_tokens ?a)(sp_issued ?a := 0),
      sp_outcome := (sp_outcome ?a)(sp_issued ?a := None), sp_issued := sp_issued ?a + 1\<rparr>"
    using assms
    by (auto simp: spec_of_def fifo_line_def fun_eq_iff req_at_enqueue less_Suc_eq)
  then show ?thesis by (simp only: spec_step.arrive)
qed

lemma untrack_refines:
  assumes "queues_inv s" "p \<in> set (tracked s)" "with_lifecycle kCancelled (req_at s p) r"
  shows "spec_step (spec_of s) (spec_of (untrack p r s))"
proof -
  let ?a = "spec_of s"
  have lt: "p < length (fs_requests s)" by (rule tracked_lt [OF assms(1,2)])
  have "remove1 p (fs_decoding s @ fs_waiting s) =
      remove1 p (fs_decoding s) @ remove1 p (fs_waiting s)"
    using queues_disjoint [OF assms(1)] by (metis disjoint_iff remove1_append remove1_idem)
  then have "spec_of (untrack p r s) = ?a\<lparr>sp_line := remove1 p (sp_line ?a),
      sp_outcome := (sp_outcome ?a)(p \<mapsto> kCancelled)\<rparr>"
    using lt with_lifecycle_sel [OF assms(3)]
    by (auto simp: spec_of_def fifo_line_def fun_eq_iff req_at_def untrack_def nth_list_update)
  moreover have "p \<in> set (sp_line ?a)"
    using assms(2) by (auto simp: spec_of_def fifo_line_def tracked_def)
  ultimately show ?thesis by (simp add: spec_step.leave)
qed

section \<open>Sequences of calls\<close>

text \<open>\<open>k\<close> ticks in a row.\<close>

fun ticks ::
  "'w InferenceBackend \<Rightarrow> 'w Clock \<Rightarrow> nat \<Rightarrow> FifoScheduler \<times> 'w \<Rightarrow> (FifoScheduler \<times> 'w) res" where
  "ticks be now 0 sw = Inr sw"
| "ticks be now (Suc k) sw = bnd (tick be now sw) (\<lambda>(rep, sw'). ticks be now k sw')"

text \<open>The tokens a request may still emit.\<close>

definition remaining :: "FifoScheduler \<Rightarrow> ReqPtr \<Rightarrow> nat" where
  "remaining s p = req_max_output_tokens (req_at s p) - req_output_tokens_emitted (req_at s p)"

lemma sched_inv_remaining:
  assumes "sched_inv L t s" "p \<in> set (tracked s)"
  shows "0 < remaining s p"
proof (cases "p \<in> set (fs_waiting s)")
  case True
  have "req_inv t (req_at s p)" "lc_first_token_at (req_lifecycle (req_at s p)) = None"
    using status_waiting [OF assms(1) True]
    by (auto simp: req_inv_def lc_inv_def lc_token_inv_def req_state_def split: option.splits)
  then show ?thesis using status_waiting(4) [OF assms(1) True] by (simp add: remaining_def req_inv_def)
next
  case False
  then show ?thesis
    using assms status_decoding(4) [OF assms(1), of p] by (auto simp: remaining_def tracked_def)
qed

text \<open>The tokens the tracked requests may still emit together.\<close>

definition work :: "FifoScheduler \<Rightarrow> nat" where
  "work s = (\<Sum>p \<in> set (tracked s). remaining s p)"

lemma remaining_ticked:
  assumes "ticked s s' p" "p \<in> set (fs_decoding s')"
  shows "remaining s' p = remaining s p - 1"
  using assms by (auto simp: ticked_def remaining_def same_terms_def)

lemma work_tick:
  assumes eff: "tick_effect t t' s rep s'" and inv: "sched_inv L t s" and ne: "tracked s \<noteq> []"
  shows "work s' < work s"
proof -
  have q: "queues_inv s" using inv by (simp add: sched_inv_def)
  note qu = tick_effect_queues [OF eff q]
  have sub: "set (tracked s') \<subseteq> set (tracked s)"
    using subseq_subset [OF qu(2)] qu(1) by (auto simp: tracked_def fifo_line_def)
  have "work s' = (\<Sum>p \<in> set (tracked s'). remaining s p - 1)"
    unfolding work_def
    using remaining_ticked tick_effect_requests(1) [OF eff q] sub qu(1)
    by (intro sum.cong) (auto simp: tracked_def)
  also have "\<dots> \<le> (\<Sum>p \<in> set (tracked s). remaining s p - 1)" by (rule sum_mono2) (use sub in auto)
  also have "\<dots> < work s"
    unfolding work_def using sched_inv_remaining [OF inv] ne
    by (intro sum_strict_mono) auto
  finally show ?thesis .
qed

lemma work_enqueue:
  assumes "queues_inv s"
  shows "work (enqueue r s) = work s + (req_max_output_tokens r - req_output_tokens_emitted r)"
proof -
  let ?n = "length (fs_requests s)"
  have set_eq: "set (tracked (enqueue r s)) = insert ?n (set (tracked s))" by (auto simp: tracked_def)
  have lt: "p < ?n" if "p \<in> set (tracked s)" for p by (rule tracked_lt [OF assms that])
  have "(\<Sum>p \<in> set (tracked s). remaining (enqueue r s) p) = work s"
    unfolding work_def by (intro sum.cong) (auto simp: remaining_def req_at_enqueue lt)
  moreover have "?n \<notin> set (tracked s)" using lt by auto
  ultimately show ?thesis
    unfolding work_def [of "enqueue r s"] set_eq by (simp add: remaining_def req_at_enqueue)
qed

text \<open>
  A backend in a world that also moves between the calls: the clock runs, and a test may
  configure the backend. None of this touches the handles that are out.
\<close>

locale backend_world = backend_contract +
  fixes env :: "'a \<Rightarrow> 'a \<Rightarrow> bool"
  assumes env_law:
    "winv w \<Longrightarrow> env w w' \<Longrightarrow> winv w' \<and> live w' = live w \<and> room w' = room w \<and> time w \<le> time w'"
begin

text \<open>\<open>n\<close> handles to begin with; at most one is spent on each request that has left the waiting queue.\<close>

definition sys_inv :: "nat \<Rightarrow> FifoScheduler \<times> 'a \<Rightarrow> bool" where
  "sys_inv n sw \<longleftrightarrow>
     (case sw of (s, w) \<Rightarrow>
        winv w \<and> sched_inv (live w) (time w) s \<and> length (fs_requests s) \<le> n \<and>
        n + length (fs_waiting s) \<le> room w + length (fs_requests s))"

lemma sys_inv_new:
  "winv w \<Longrightarrow> live w = {} \<Longrightarrow> n \<le> room w \<Longrightarrow> sys_inv n (FifoScheduler_new, w)"
  using sched_inv_new by (simp add: sys_inv_def FifoScheduler_new_def)

lemma sys_inv_tick:
  assumes "sys_inv n (s, w)"
  shows "ok (tick be now (s, w)) (\<lambda>(rep, s', w').
    sys_inv n (s', w') \<and> tick_effect (time w) (time w') s rep s' \<and> time w \<le> time w')"
proof -
  have inv: "winv w" "sched_inv (live w) (time w) s"
    and n: "length (fs_requests s) \<le> n" "n + length (fs_waiting s) \<le> room w + length (fs_requests s)"
    using assms by (auto simp: sys_inv_def)
  have q: "queues_inv s" using inv(2) by (simp add: sched_inv_def)
  from n have "length (fs_waiting s) \<le> room w" by linarith
  from tick_ok [OF inv this] obtain rep s' w' where "tick be now (s, w) = Inr (rep, s', w')"
    and "winv w'" "room w \<le> room w' + length (fs_waiting s)" "time w \<le> time w'"
      "sched_inv (live w') (time w') s'" and eff: "tick_effect (time w) (time w') s rep s'"
    by (auto simp: ok_iff)
  then show ?thesis using n tick_effect_queues [OF eff q] by (simp add: sys_inv_def)
qed

lemma sys_inv_submit:
  assumes "sys_inv n (s, w)" "length (fs_requests s) < n" "now w = (t1, w1)" "now w1 = (t2, w2)"
    and "0 < m" "i \<notin> id_at s ` set (tracked s)"
  shows "ok (submit now (Request_new i t1 t2 d m prompt prio) (s, w2)) (\<lambda>(p, s', w').
    sys_inv n (s', w') \<and> p = length (fs_requests s) \<and>
    (\<exists>r. with_lifecycle kWaitingPrefill (Request_new i t1 t2 d m prompt prio) r \<and> s' = enqueue r s))"
proof -
  have inv: "winv w" "sched_inv (live w) (time w) s"
    and n: "n + length (fs_waiting s) \<le> room w + length (fs_requests s)"
    using assms(1) by (auto simp: sys_inv_def)
  have q1: "quiet w w1" "t1 \<le> time w1" using now_law [OF inv(1) assms(3)] by (auto simp: quiet_def)
  then have q2: "quiet w1 w2" using now_law [OF _ assms(4)] by (auto simp: quiet_def)
  have q: "quiet w w2" by (rule quiet_trans [OF q1(1) q2])
  have "t1 \<le> time w2" using q1(2) q2 by (auto simp: quiet_def)
  then have "req_inv (time w2) (Request_new i t1 t2 d m prompt prio)" by (rule req_inv_new)
  moreover have "sched_inv (live w2) (time w2) s"
    using sched_inv_later [OF inv(2)] q by (simp add: quiet_def)
  ultimately show ?thesis
    using assms(2,5,6) q n
    by (intro ok_mono [OF submit_ok])
      (auto simp: sys_inv_def quiet_def Request_new_def req_state_def RequestLifecycle_new_def)
qed

lemma sys_inv_cancel:
  assumes "sys_inv n (s, w)"
  shows "ok (cancel be now i (s, w)) (\<lambda>sw'. sys_inv n sw' \<and> cancelled i (s, w) sw')"
proof -
  have inv: "winv w" "sched_inv (live w) (time w) s" using assms by (auto simp: sys_inv_def)
  have "sys_inv n (s', w')" if c: "cancelled i (s, w) (s', w')" for s' w'
  proof (cases "i \<in> id_at s ` set (tracked s)")
    case True
    then obtain p r where "s' = untrack p r s" using c by (auto simp: cancelled_def)
    then show ?thesis
      using assms c length_remove1 [of p "fs_waiting s"]
      by (auto simp: sys_inv_def cancelled_def split: if_splits)
  next
    case False
    then show ?thesis using assms c by (simp add: cancelled_def)
  qed
  then show ?thesis by (intro ok_mono [OF cancel_ok [OF inv]]) auto
qed

lemma sys_inv_env: "sys_inv n (s, w) \<Longrightarrow> env w w' \<Longrightarrow> sys_inv n (s, w')"
  using env_law by (auto simp: sys_inv_def intro: sched_inv_later)

lemma cancelled_refines:
  assumes "sys_inv n (s, w)" "cancelled i (s, w) (s', w')"
  shows "spec_step (spec_of s) (spec_of s')"
proof (cases "i \<in> id_at s ` set (tracked s)")
  case True
  then show ?thesis
    using assms by (auto simp: cancelled_def sys_inv_def sched_inv_def intro: untrack_refines)
next
  case False
  then show ?thesis using assms(2) by (simp add: cancelled_def spec_step.idle)
qed

lemma sys_step:
  assumes "sched_step be now env n (s, w) (s', w')" "sys_inv n (s, w)"
  shows "sys_inv n (s', w')" and "spec_step (spec_of s) (spec_of s')"
proof -
  have "sys_inv n (s', w') \<and> spec_step (spec_of s) (spec_of s')"
    using assms
  proof (cases rule: sched_step.cases)
    case (call_submit t1 w1 t2 w2 m i d prompt prio p)
    then obtain r where "sys_inv n (s', w')" "s' = enqueue r s"
      and r: "with_lifecycle kWaitingPrefill (Request_new i t1 t2 d m prompt prio) r"
      using sys_inv_submit [OF assms(2), of t1 w1 t2 w2 m i d prompt prio] by auto
    moreover have "spec_step (spec_of s) (spec_of (enqueue r s))"
      using with_lifecycle_sel [OF r] by (intro enqueue_refines) (auto simp: Request_new_def)
    ultimately show ?thesis by simp
  next
    case (call_tick rep)
    moreover have "queues_inv s" using assms(2) by (auto simp: sys_inv_def sched_inv_def)
    ultimately show ?thesis
      using sys_inv_tick [OF assms(2)] tick_effect_refines by auto
  next
    case (call_cancel i)
    then show ?thesis
      using sys_inv_cancel [OF assms(2), of i] cancelled_refines [OF assms(2)] by auto
  next
    case world_moves
    then show ?thesis using sys_inv_env [OF assms(2)] by (auto intro: spec_step.idle)
  qed
  then show "sys_inv n (s', w')" "spec_step (spec_of s) (spec_of s')" by auto
qed

lemma sys_drain:
  assumes "sys_inv n (s, w)" "\<forall>p \<in> set (tracked s). remaining s p \<le> k"
  shows "ok (ticks be now k (s, w)) (\<lambda>(s', w').
    sys_inv n (s', w') \<and> tracked s' = [] \<and> length (fs_requests s') = length (fs_requests s))"
  using assms
proof (induction k arbitrary: s w)
  case 0
  then have "tracked s = []"
    using sched_inv_remaining [of "live w" "time w" s] by (fastforce simp: sys_inv_def neq_Nil_conv)
  then show ?case using 0 by simp
next
  case (Suc k)
  obtain rep s1 w1 where t: "tick be now (s, w) = Inr (rep, s1, w1)" and inv1: "sys_inv n (s1, w1)"
    and eff: "tick_effect (time w) (time w1) s rep s1"
    using sys_inv_tick [OF Suc.prems(1)] by (auto simp: ok_iff)
  have q: "queues_inv s" using Suc.prems(1) by (auto simp: sys_inv_def sched_inv_def)
  note qu = tick_effect_queues [OF eff q]
  have tr: "tracked s1 = fs_decoding s1" using qu(1) by (simp add: tracked_def)
  have "remaining s1 p \<le> k" if "p \<in> set (tracked s1)" for p
  proof -
    have p: "p \<in> set (tracked s)"
      using that tr subseq_subset [OF qu(2)] by (auto simp: fifo_line_def tracked_def)
    then have "remaining s1 p = remaining s p - 1"
      using remaining_ticked tick_effect_requests(1) [OF eff q p] that tr by simp
    then show ?thesis using Suc.prems(2) p by fastforce
  qed
  then have "ok (ticks be now k (s1, w1)) (\<lambda>(s', w'). sys_inv n (s', w') \<and> tracked s' = [] \<and>
      length (fs_requests s') = length (fs_requests s1))"
    by (intro Suc.IH inv1) blast
  then show ?case using t qu(3) by simp
qed

lemma sys_reach:
  assumes "sched_reach be now env n (FifoScheduler_new, w0) (s, w)"
    and "winv w0" "live w0 = {}" "n \<le> room w0"
  shows "sys_inv n (s, w) \<and> spec_inv (spec_of s)"
  using assms(1)
proof (induction rule: rtranclp_induct2)
  case refl
  then show ?case
    using sys_inv_new [OF assms(2,3,4)] by (simp add: spec_inv_def spec_of_def fifo_line_def FifoScheduler_new_def)
next
  case (step s w s' w')
  then show ?case using sys_step [OF step(2)] spec_inv_step by blast
qed

end

end
