(* ===== verification/Token_Channel.thy ===== *)
theory Token_Channel
  imports Prelude
begin

text \<open>
  The bounded channel between the engine thread and a consumer,
  \<open>include/tokamak/http/token_channel.h\<close> and \<open>src/http/token_channel.cpp\<close>. Every operation
  holds the channel's mutex for its whole body, so a run is a sequence of operations; \<open>pop\<close>,
  which waits on the condition variable, is \<open>None\<close> in the states in which it goes on waiting.

  The locale \<open>bounded_channel\<close> is what the two sides rely on, with the buffered events as the
  only view of the implementation; its lemmas are about arbitrary interleavings of the two sides.
\<close>

datatype FinishReason = kNone | kStop | kLength

record TokenEvent =
  te_token_id :: uint32
  te_finish_reason :: FinishReason

record TokenChannel =
  ch_buffer :: "TokenEvent list"
  ch_closed :: bool
  ch_capacity :: nat

definition TokenChannel_new :: "nat \<Rightarrow> TokenChannel" where
  "TokenChannel_new capacity = \<lparr>ch_buffer = [], ch_closed = False, ch_capacity = capacity\<rparr>"

definition try_push :: "TokenEvent \<Rightarrow> TokenChannel \<Rightarrow> bool \<times> TokenChannel" where
  "try_push event ch =
     (if ch_closed ch \<or> length (ch_buffer ch) \<ge> ch_capacity ch then (False, ch)
      else (True, ch\<lparr>ch_buffer := ch_buffer ch @ [event]\<rparr>))"

definition pop :: "TokenChannel \<Rightarrow> (TokenEvent option \<times> TokenChannel) option" where
  "pop ch =
     (if ch_buffer ch \<noteq> [] \<or> ch_closed ch
      then Some (case ch_buffer ch of
                   [] \<Rightarrow> (None, ch)
                 | event # rest \<Rightarrow> (Some event, ch\<lparr>ch_buffer := rest\<rparr>))
      else None)"

definition close :: "TokenChannel \<Rightarrow> TokenChannel" where
  "close ch = ch\<lparr>ch_closed := True\<rparr>"

definition is_closed :: "TokenChannel \<Rightarrow> bool" where
  "is_closed ch = ch_closed ch"

definition channel_size :: "TokenChannel \<Rightarrow> nat" where
  "channel_size ch = length (ch_buffer ch)"

definition capacity :: "TokenChannel \<Rightarrow> nat" where
  "capacity ch = ch_capacity ch"

section \<open>The interface\<close>

datatype 'e chan_op = Push 'e | Pop | Close

text \<open>A run of operations, with the events accepted and the events handed out so far.\<close>

fun chan_run ::
  "('e \<Rightarrow> 'c \<Rightarrow> bool \<times> 'c) \<Rightarrow> ('c \<Rightarrow> ('e option \<times> 'c) option) \<Rightarrow> ('c \<Rightarrow> 'c) \<Rightarrow>
   'e chan_op list \<Rightarrow> 'c \<times> 'e list \<times> 'e list \<Rightarrow> 'c \<times> 'e list \<times> 'e list" where
  "chan_run push popf closef [] x = x"
| "chan_run push popf closef (Push e # ops) (ch, ins, outs) =
     (case push e ch of (b, ch') \<Rightarrow>
        chan_run push popf closef ops (ch', if b then ins @ [e] else ins, outs))"
| "chan_run push popf closef (Pop # ops) (ch, ins, outs) =
     (case popf ch of
        None \<Rightarrow> chan_run push popf closef ops (ch, ins, outs)
      | Some (r, ch') \<Rightarrow> chan_run push popf closef ops (ch', ins, outs @ (case r of None \<Rightarrow> [] | Some e \<Rightarrow> [e])))"
| "chan_run push popf closef (Close # ops) (ch, ins, outs) =
     chan_run push popf closef ops (closef ch, ins, outs)"

locale bounded_channel =
  fixes push :: "'e \<Rightarrow> 'c \<Rightarrow> bool \<times> 'c"
    and popf :: "'c \<Rightarrow> ('e option \<times> 'c) option"
    and closef :: "'c \<Rightarrow> 'c"
    and contents :: "'c \<Rightarrow> 'e list"
    and closed :: "'c \<Rightarrow> bool"
    and cap :: "'c \<Rightarrow> nat"
  assumes push_law: "push e ch = (b, ch') \<Longrightarrow>
      cap ch' = cap ch \<and> closed ch' = closed ch \<and> b = (\<not> closed ch \<and> length (contents ch) < cap ch) \<and>
      contents ch' = (if b then contents ch @ [e] else contents ch)"
    and pop_blocks: "popf ch = None \<longleftrightarrow> contents ch = [] \<and> \<not> closed ch"
    and pop_law: "popf ch = Some (r, ch') \<Longrightarrow>
      cap ch' = cap ch \<and> closed ch' = closed ch \<and>
      (case r of None \<Rightarrow> contents ch = [] \<and> contents ch' = [] | Some e \<Rightarrow> contents ch = e # contents ch')"
    and close_law: "closed (closef ch) \<and> contents (closef ch) = contents ch \<and> cap (closef ch) = cap ch"
begin

lemma run_fifo:
  assumes "chan_run push popf closef ops (ch, ins, outs) = (ch', ins', outs')"
    and "outs @ contents ch = ins" "length (contents ch) \<le> cap ch"
  shows "outs' @ contents ch' = ins'" and "length (contents ch') \<le> cap ch'" and "cap ch' = cap ch"
    and "\<exists>xs. ins' = ins @ xs" and "\<exists>ys. outs' = outs @ ys"
    and "closed ch \<Longrightarrow> closed ch' \<and> ins' = ins"
proof -
  have "outs' @ contents ch' = ins' \<and> length (contents ch') \<le> cap ch' \<and> cap ch' = cap ch \<and>
      (\<exists>xs. ins' = ins @ xs) \<and> (\<exists>ys. outs' = outs @ ys) \<and> (closed ch \<longrightarrow> closed ch' \<and> ins' = ins)"
    using assms
  proof (induction ops arbitrary: ch ins outs)
    case Nil
    then show ?case by simp
  next
    case (Cons op ops)
    show ?case
    proof (cases op)
      case (Push e)
      obtain b ch1 where p: "push e ch = (b, ch1)" by force
      note law = push_law [OF p]
      show ?thesis
        using Cons.IH [of ch1 "if b then ins @ [e] else ins" outs] Cons.prems p law Push
        by (cases b) auto
    next
      case Pop
      show ?thesis
      proof (cases "popf ch")
        case None
        then show ?thesis using Cons.IH [of ch ins outs] Cons.prems Pop by simp
      next
        case (Some x)
        then obtain r ch1 where p: "popf ch = Some (r, ch1)" by (cases x) auto
        show ?thesis
          using Cons.IH [of ch1 ins "outs @ (case r of None \<Rightarrow> [] | Some e \<Rightarrow> [e])"]
            Cons.prems p pop_law [OF p] Pop by (cases r) auto
      qed
    next
      case Close
      then show ?thesis using Cons.IH [of "closef ch" ins outs] Cons.prems close_law [of ch] by auto
    qed
  qed
  then show "outs' @ contents ch' = ins'" "length (contents ch') \<le> cap ch'" "cap ch' = cap ch"
    "\<exists>xs. ins' = ins @ xs" "\<exists>ys. outs' = outs @ ys" "closed ch \<Longrightarrow> closed ch' \<and> ins' = ins" by auto
qed

text \<open>A closed channel is drained: as many pops as events, and then the end of the stream for ever.\<close>

lemma closed_drains:
  assumes "closed ch" "contents ch = es"
  shows "\<exists>ch'. chan_run push popf closef (replicate (length es) Pop) (ch, ins, outs) = (ch', ins, outs @ es) \<and>
    (\<exists>ch''. popf ch' = Some (None, ch''))"
  using assms
proof (induction es arbitrary: ch outs)
  case Nil
  then obtain r ch' where "popf ch = Some (r, ch')" using pop_blocks [of ch] by (cases "popf ch") auto
  then show ?case using pop_law Nil by (cases r) force+
next
  case (Cons e es)
  then obtain r ch1 where p: "popf ch = Some (r, ch1)" using pop_blocks [of ch] by (cases "popf ch") auto
  then have "r = Some e" "closed ch1" "contents ch1 = es"
    using pop_law [OF p] Cons.prems by (auto split: option.splits)
  then show ?case using Cons.IH [of ch1 "outs @ [e]"] p by simp
qed

end

interpretation tc: bounded_channel try_push pop close ch_buffer ch_closed ch_capacity
  by unfold_locales
    (auto simp: try_push_def pop_def close_def split: list.splits if_splits option.splits)

section \<open>Properties\<close>

text \<open>
  C22 (a bounded FIFO under any interleaving). Whatever the interleaving of pushes, pops and
  closes, the consumer has received exactly the accepted events, in order, up to what is still
  buffered; the buffer never exceeds the capacity, and nothing is accepted after a close.
\<close>

theorem token_channel_fifo:
  assumes "chan_run try_push pop close ops (TokenChannel_new c, [], []) = (ch, accepted, received)"
  shows "received @ ch_buffer ch = accepted \<and> channel_size ch \<le> c \<and>
    (is_closed ch \<longrightarrow>
      (\<forall>ops' ch' acc' recv'. chan_run try_push pop close ops' (ch, accepted, received) = (ch', acc', recv') \<longrightarrow>
        is_closed ch' \<and> acc' = accepted \<and> recv' @ ch_buffer ch' = accepted))"
proof -
  have new: "[] @ ch_buffer (TokenChannel_new c) = []" "length (ch_buffer (TokenChannel_new c)) \<le> ch_capacity (TokenChannel_new c)"
    by (simp_all add: TokenChannel_new_def)
  note run = tc.run_fifo [OF assms new]
  have "ch_capacity ch = c" using run(3) by (simp add: TokenChannel_new_def)
  then show ?thesis
    using run(1,2) tc.run_fifo(1,6) [of _ ch accepted received] by (auto simp: channel_size_def is_closed_def)
qed

theorem token_channel_fifo_witness:
  "\<exists>ch. chan_run try_push pop close
       [Pop, Push \<lparr>te_token_id = 1, te_finish_reason = kNone\<rparr>, Push \<lparr>te_token_id = 2, te_finish_reason = kNone\<rparr>,
        Push \<lparr>te_token_id = 3, te_finish_reason = kStop\<rparr>, Pop, Close] (TokenChannel_new 2, [], []) =
     (ch, [\<lparr>te_token_id = 1, te_finish_reason = kNone\<rparr>, \<lparr>te_token_id = 2, te_finish_reason = kNone\<rparr>],
      [\<lparr>te_token_id = 1, te_finish_reason = kNone\<rparr>]) \<and> channel_size ch \<le> 2"
proof -
  let ?ops = "[Pop, Push \<lparr>te_token_id = 1, te_finish_reason = kNone\<rparr>, Push \<lparr>te_token_id = 2, te_finish_reason = kNone\<rparr>,
        Push \<lparr>te_token_id = 3, te_finish_reason = kStop\<rparr>, Pop, Close]"
  obtain ch where "chan_run try_push pop close ?ops (TokenChannel_new 2, [], []) =
     (ch, [\<lparr>te_token_id = 1, te_finish_reason = kNone\<rparr>, \<lparr>te_token_id = 2, te_finish_reason = kNone\<rparr>],
      [\<lparr>te_token_id = 1, te_finish_reason = kNone\<rparr>])"
    by (simp add: try_push_def pop_def close_def TokenChannel_new_def)
  with token_channel_fifo [OF this] show ?thesis by blast
qed

text \<open>
  No event is lost at close. After a close the consumer still receives every buffered
  event, in order, without ever blocking, and then the end of the stream.
\<close>

theorem closed_channel_delivers_rest:
  "\<exists>ch'. chan_run try_push pop close (replicate (channel_size ch) Pop) (close ch, ins, outs) =
       (ch', ins, outs @ ch_buffer ch) \<and>
     pop ch' = Some (None, ch')"
proof -
  have "ch_closed (close ch)" "ch_buffer (close ch) = ch_buffer ch" by (simp_all add: close_def)
  from tc.closed_drains [OF this, of ins outs] obtain ch' ch'' where
    "chan_run try_push pop close (replicate (channel_size ch) Pop) (close ch, ins, outs) =
       (ch', ins, outs @ ch_buffer ch)" and p: "pop ch' = Some (None, ch'')"
    by (auto simp: channel_size_def)
  moreover have "ch'' = ch'" using p by (auto simp: pop_def split: if_splits list.splits)
  ultimately show ?thesis by blast
qed

end
