(* ===== verification/Engine.thy ===== *)
theory Engine
  imports Scheduler_Spec Token_Channel
begin

text \<open>
  The engine of \<open>include/tokamak/http/engine.h\<close> and \<open>src/http/engine.cpp\<close>: network threads push
  submissions and cancellations under a mutex, the engine thread drains them, ticks its scheduler
  and pushes new tokens into the channels of the requests.

  A \<open>TokenChannel*\<close> is a key of \<open>en_channels\<close>, the channels alive (their owners are the callers);
  a \<open>Request*\<close> is the scheduler's index. \<open>active_\<close> is an \<open>unordered_map\<close>: it is kept as an
  association list in iteration order. The world \<open>'w\<close> is the one of the scheduler; \<open>now\<close> reads
  \<open>clock_\<close> and \<open>steady\<close> reads \<open>std::chrono::steady_clock\<close>, which the engine uses directly.
\<close>

section \<open>Data\<close>

type_synonym ChanPtr = nat

record EngineConfig =
  tick_interval :: Duration
  backpressure_timeout :: Duration

definition EngineConfig_default :: EngineConfig where
  "EngineConfig_default = \<lparr>tick_interval = ms 10, backpressure_timeout = ms 5000\<rparr>"

record Submission =
  sub_id :: RequestId
  sub_prompt_token_ids :: "uint32 list"
  sub_max_tokens :: nat
  sub_deadline :: Duration
  sub_channel :: ChanPtr

record ActiveEntry =
  ae_request :: ReqPtr
  ae_channel :: ChanPtr
  ae_last_seen_tokens :: nat
  ae_backpressure_since :: "TimePoint option"

record 'w Engine =
  en_config :: EngineConfig
  en_scheduler :: FifoScheduler
  en_running :: bool
  en_thread :: bool
  en_pending_submissions :: "Submission list"
  en_pending_cancels :: "RequestId list"
  en_active :: "(RequestId \<times> ActiveEntry) list"
  en_channels :: "ChanPtr \<rightharpoonup> TokenChannel"
  en_world :: 'w

definition Engine_new :: "EngineConfig \<Rightarrow> (ChanPtr \<rightharpoonup> TokenChannel) \<Rightarrow> 'w \<Rightarrow> 'w Engine" where
  "Engine_new config channels w =
     \<lparr>en_config = config, en_scheduler = FifoScheduler_new, en_running = False, en_thread = False,
      en_pending_submissions = [], en_pending_cancels = [], en_active = [],
      en_channels = channels, en_world = w\<rparr>"

section \<open>Operations of the network threads\<close>

text \<open>\<open>en_thread\<close>: the engine thread is inside \<open>run\<close>.\<close>

definition engine_start :: "'w Engine \<Rightarrow> 'w Engine" where
  "engine_start e = (if en_running e then e else e\<lparr>en_running := True, en_thread := True\<rparr>)"

text \<open>The first half of \<open>stop\<close>; it then joins the thread, which leaves \<open>run\<close> by itself.\<close>

definition engine_stop :: "'w Engine \<Rightarrow> 'w Engine" where
  "engine_stop e = (if \<not> en_running e then e else e\<lparr>en_running := False\<rparr>)"

definition engine_destroy :: "'w Engine \<Rightarrow> 'w Engine" where
  "engine_destroy e = (if en_running e then engine_stop e else e)"

definition engine_is_running :: "'w Engine \<Rightarrow> bool" where
  "engine_is_running e = en_running e"

text \<open>The part of \<open>submit\<close> under the lock; \<open>running_\<close> is read before the lock is taken.\<close>

definition push_submission :: "Submission \<Rightarrow> 'w Engine \<Rightarrow> 'w Engine" where
  "push_submission submission e =
     e\<lparr>en_pending_submissions := en_pending_submissions e @ [submission]\<rparr>"

definition engine_submit :: "Submission \<Rightarrow> 'w Engine \<Rightarrow> bool \<times> 'w Engine" where
  "engine_submit submission e =
     (if \<not> en_running e then (False, e) else (True, push_submission submission e))"

definition engine_cancel :: "RequestId \<Rightarrow> 'w Engine \<Rightarrow> 'w Engine" where
  "engine_cancel i e = e\<lparr>en_pending_cancels := en_pending_cancels e @ [i]\<rparr>"

section \<open>Helpers of the engine thread\<close>

definition channel_at :: "'w Engine \<Rightarrow> ChanPtr \<Rightarrow> TokenChannel res" where
  "channel_at e c =
     (case en_channels e c of Some ch \<Rightarrow> Inr ch | None \<Rightarrow> Inl (BadAccess ''TokenChannel*''))"

definition close_channel :: "ChanPtr \<Rightarrow> 'w Engine \<Rightarrow> 'w Engine res" where
  "close_channel c e =
     bnd (channel_at e c) (\<lambda>ch. Inr (e\<lparr>en_channels := (en_channels e)(c \<mapsto> close ch)\<rparr>))"

definition active_erase :: "RequestId \<Rightarrow> 'w Engine \<Rightarrow> 'w Engine" where
  "active_erase i e = e\<lparr>en_active := filter (\<lambda>(j, _). j \<noteq> i) (en_active e)\<rparr>"

text \<open>\<open>unordered_map::emplace\<close> keeps an entry that is already there.\<close>

definition active_emplace :: "RequestId \<Rightarrow> ActiveEntry \<Rightarrow> 'w Engine \<Rightarrow> 'w Engine" where
  "active_emplace i entry e =
     (if map_of (en_active e) i = None then e\<lparr>en_active := en_active e @ [(i, entry)]\<rparr> else e)"

text \<open>\<open>scheduler_.cancel(id)\<close>\<close>

definition sched_cancel :: "'w InferenceBackend \<Rightarrow> 'w Clock \<Rightarrow> RequestId \<Rightarrow> 'w Engine \<Rightarrow> 'w Engine res" where
  "sched_cancel be now i e =
     bnd (cancel be now i (en_scheduler e, en_world e)) (\<lambda>(s, w).
       Inr (e\<lparr>en_scheduler := s, en_world := w\<rparr>))"

text \<open>\<open>active_.at(id).channel->close(); active_.erase(id);\<close>\<close>

definition close_and_erase :: "RequestId \<Rightarrow> 'w Engine \<Rightarrow> 'w Engine res" where
  "close_and_erase i e =
     (case map_of (en_active e) i of
        None \<Rightarrow> Inl (OutOfRange ''active_.at'')
      | Some entry \<Rightarrow> bnd (close_channel (ae_channel entry) e) (\<lambda>e. Inr (active_erase i e)))"

section \<open>The phases of the engine loop\<close>

definition drain_submission :: "'w Clock \<Rightarrow> Submission \<Rightarrow> 'w Engine \<Rightarrow> 'w Engine res" where
  "drain_submission now sub e =
     (case now (en_world e) of (t1, w) \<Rightarrow>
      case now w of (t2, w) \<Rightarrow>
        let req = Request_new (sub_id sub) t1 t2 (sub_deadline sub) (sub_max_tokens sub)
                    (sub_prompt_token_ids sub) 0
        in bnd (submit now req (en_scheduler e, w)) (\<lambda>(ref, s, w).
             Inr (active_emplace (sub_id sub)
                    \<lparr>ae_request = ref, ae_channel = sub_channel sub, ae_last_seen_tokens = 0,
                     ae_backpressure_since = None\<rparr>
                    (e\<lparr>en_scheduler := s, en_world := w\<rparr>))))"

definition drain_submissions :: "'w Clock \<Rightarrow> 'w Engine \<Rightarrow> 'w Engine res" where
  "drain_submissions now e =
     fold_res (drain_submission now) (en_pending_submissions e) (e\<lparr>en_pending_submissions := []\<rparr>)"

definition drain_cancel :: "'w InferenceBackend \<Rightarrow> 'w Clock \<Rightarrow> RequestId \<Rightarrow> 'w Engine \<Rightarrow> 'w Engine res" where
  "drain_cancel be now i e =
     bnd (sched_cancel be now i e) (\<lambda>e.
       case map_of (en_active e) i of
         None \<Rightarrow> Inr e
       | Some entry \<Rightarrow> bnd (close_channel (ae_channel entry) e) (\<lambda>e. Inr (active_erase i e)))"

definition drain_cancels :: "'w InferenceBackend \<Rightarrow> 'w Clock \<Rightarrow> 'w Engine \<Rightarrow> 'w Engine res" where
  "drain_cancels be now e =
     fold_res (drain_cancel be now) (en_pending_cancels e) (e\<lparr>en_pending_cancels := []\<rparr>)"

definition finish_reason :: "Request \<Rightarrow> nat \<Rightarrow> FinishReason" where
  "finish_reason r i =
     (let emitted = req_output_tokens_emitted r
      in if is_terminal (req_state r) \<and> i = emitted - 1
         then (if emitted \<ge> req_max_output_tokens r then kLength else kStop)
         else kNone)"

text \<open>The inner loop of \<open>push_tokens\<close> over the indices still to send; a full channel ends it.\<close>

fun push_loop ::
  "'w Clock \<Rightarrow> Request \<Rightarrow> nat list \<Rightarrow> ActiveEntry \<times> TokenChannel \<times> 'w \<Rightarrow>
   (ActiveEntry \<times> TokenChannel \<times> 'w) res" where
  "push_loop steady r [] x = Inr x"
| "push_loop steady r (i # is) (entry, ch, w) =
     (if i \<ge> length (req_output_token_ids r) then Inl (BadAccess ''token_ids'')
      else
        (case try_push \<lparr>te_token_id = req_output_token_ids r ! i, te_finish_reason = finish_reason r i\<rparr> ch of
           (True, ch) \<Rightarrow>
             push_loop steady r is
               (entry\<lparr>ae_last_seen_tokens := i + 1, ae_backpressure_since := None\<rparr>, ch, w)
         | (False, ch) \<Rightarrow>
             (case ae_backpressure_since entry of
                Some t \<Rightarrow> Inr (entry, ch, w)
              | None \<Rightarrow> (case steady w of (t, w) \<Rightarrow> Inr (entry\<lparr>ae_backpressure_since := Some t\<rparr>, ch, w)))))"

definition push_entry ::
  "'w Clock \<Rightarrow> RequestId \<times> ActiveEntry \<Rightarrow> (RequestId \<times> ActiveEntry) list \<times> 'w Engine \<Rightarrow>
   ((RequestId \<times> ActiveEntry) list \<times> 'w Engine) res" where
  "push_entry steady ie ae =
     (case (ie, ae) of ((i, entry), (processed, e)) \<Rightarrow>
        bnd (deref (en_scheduler e) (ae_request entry)) (\<lambda>r.
        let is = [ae_last_seen_tokens entry..<req_output_tokens_emitted r]
        in if is = [] then Inr (processed @ [(i, entry)], e)
           else bnd (channel_at e (ae_channel entry)) (\<lambda>ch.
                bnd (push_loop steady r is (entry, ch, en_world e)) (\<lambda>(entry, ch, w).
                  Inr (processed @ [(i, entry)],
                       e\<lparr>en_channels := (en_channels e)(ae_channel entry \<mapsto> ch), en_world := w\<rparr>)))))"

definition push_tokens :: "'w Clock \<Rightarrow> 'w Engine \<Rightarrow> 'w Engine res" where
  "push_tokens steady e =
     bnd (fold_res (push_entry steady) (en_active e) ([], e)) (\<lambda>(processed, e).
       Inr (e\<lparr>en_active := processed\<rparr>))"

text \<open>The first loop of \<open>check_backpressure\<close>: the entries whose consumer has been slow for too long.\<close>

definition backpressure_expired :: "'w Clock \<Rightarrow> 'w Engine \<Rightarrow> RequestId list \<times> 'w Engine" where
  "backpressure_expired steady e =
     (case steady (en_world e) of (t, w) \<Rightarrow>
        (map fst (filter (\<lambda>(i, entry).
           case ae_backpressure_since entry of
             None \<Rightarrow> False
           | Some since \<Rightarrow> t - since \<ge> backpressure_timeout (en_config e)) (en_active e)),
         e\<lparr>en_world := w\<rparr>))"

text \<open>One iteration of its second loop.\<close>

definition drop_entry :: "'w InferenceBackend \<Rightarrow> 'w Clock \<Rightarrow> RequestId \<Rightarrow> 'w Engine \<Rightarrow> 'w Engine res" where
  "drop_entry be now i e = bnd (sched_cancel be now i e) (close_and_erase i)"

definition check_backpressure :: "'w InferenceBackend \<Rightarrow> 'w Clock \<Rightarrow> 'w Clock \<Rightarrow> 'w Engine \<Rightarrow> 'w Engine res" where
  "check_backpressure be now steady e =
     (case backpressure_expired steady e of (to_cancel, e) \<Rightarrow> fold_res (drop_entry be now) to_cancel e)"

definition reapable :: "'w Engine \<Rightarrow> ActiveEntry \<Rightarrow> bool res" where
  "reapable e entry =
     bnd (deref (en_scheduler e) (ae_request entry)) (\<lambda>r.
       Inr (is_terminal (req_state r) \<and> ae_last_seen_tokens entry \<ge> req_output_tokens_emitted r))"

definition reapable_ids :: "'w Engine \<Rightarrow> RequestId list res" where
  "reapable_ids e =
     bnd (map_res (\<lambda>(i, entry). bnd (reapable e entry) (\<lambda>b. Inr (i, b))) (en_active e)) (\<lambda>ibs.
       Inr (map fst (filter snd ibs)))"

definition reap_terminal :: "'w Engine \<Rightarrow> 'w Engine res" where
  "reap_terminal e = bnd (reapable_ids e) (\<lambda>to_reap. fold_res close_and_erase to_reap e)"

definition engine_tick :: "'w InferenceBackend \<Rightarrow> 'w Clock \<Rightarrow> 'w Engine \<Rightarrow> 'w Engine res" where
  "engine_tick be now e =
     bnd (tick be now (en_scheduler e, en_world e)) (\<lambda>(rep, s, w).
       Inr (e\<lparr>en_scheduler := s, en_world := w\<rparr>))"

text \<open>
  One turn of the loop in \<open>run\<close> after its wait: leave if stopped, else drain both queues and, if
  there is an active request, tick and deliver.
\<close>

definition engine_turn :: "'w InferenceBackend \<Rightarrow> 'w Clock \<Rightarrow> 'w Clock \<Rightarrow> 'w Engine \<Rightarrow> 'w Engine res" where
  "engine_turn be now steady e =
     (if \<not> en_running e then Inr (e\<lparr>en_thread := False\<rparr>)
      else
        bnd (drain_submissions now e) (\<lambda>e.
        bnd (drain_cancels be now e) (\<lambda>e.
          if en_active e \<noteq> []
          then bnd (engine_tick be now e) (\<lambda>e.
               bnd (push_tokens steady e) (\<lambda>e.
               bnd (check_backpressure be now steady e) reap_terminal))
          else Inr e)))"

end
