(* ===== verification/Engine_Inv.thy ===== *)
theory Engine_Inv
  imports Engine
begin

text \<open>
  The invariant of the engine and its preservation by every phase of the loop, for any backend
  that keeps its contract. \<open>sent\<close> records, channel by channel, the events consumers have popped:
  together with what is still buffered it is the stream a consumer will have seen.
\<close>

section \<open>The invariant\<close>

type_synonym stream_log = "ChanPtr \<Rightarrow> TokenEvent list"

definition stream :: "stream_log \<Rightarrow> ChanPtr \<Rightarrow> TokenChannel \<Rightarrow> uint32 list" where
  "stream sent c ch = map te_token_id (sent c @ ch_buffer ch)"

text \<open>The channel of an active request has carried exactly the first \<open>last_seen_tokens\<close> tokens.\<close>

definition entry_ok :: "'w Engine \<Rightarrow> stream_log \<Rightarrow> RequestId \<times> ActiveEntry \<Rightarrow> bool" where
  "entry_ok e sent x \<longleftrightarrow>
     (case x of (i, entry) \<Rightarrow>
        let s = en_scheduler e; p = ae_request entry
        in p < length (fs_requests s) \<and> id_at s p = i \<and>
           ae_last_seen_tokens entry \<le> length (req_output_token_ids (req_at s p)) \<and>
           (\<exists>ch. en_channels e (ae_channel entry) = Some ch \<and>
              stream sent (ae_channel entry) ch =
                take (ae_last_seen_tokens entry) (req_output_token_ids (req_at s p))))"

definition pending_ok :: "'w Engine \<Rightarrow> stream_log \<Rightarrow> Submission \<Rightarrow> bool" where
  "pending_ok e sent sub \<longleftrightarrow>
     0 < sub_max_tokens sub \<and>
     (\<exists>ch. en_channels e (sub_channel sub) = Some ch \<and> stream sent (sub_channel sub) ch = [])"

definition routes_inv :: "'w Engine \<Rightarrow> stream_log \<Rightarrow> bool" where
  "routes_inv e sent \<longleftrightarrow>
     distinct (map fst (en_active e) @ map sub_id (en_pending_submissions e)) \<and>
     distinct (map (ae_channel \<circ> snd) (en_active e) @ map sub_channel (en_pending_submissions e)) \<and>
     (\<forall>x \<in> set (en_active e). entry_ok e sent x) \<and>
     (\<forall>sub \<in> set (en_pending_submissions e). pending_ok e sent sub) \<and>
     (\<forall>p \<in> set (tracked (en_scheduler e)). \<exists>entry.
        (id_at (en_scheduler e) p, entry) \<in> set (en_active e) \<and> ae_request entry = p)"

definition tracked_ids :: "'w Engine \<Rightarrow> RequestId set" where
  "tracked_ids e = id_at (en_scheduler e) ` set (tracked (en_scheduler e))"

lemma routes_tracked:
  "routes_inv e sent \<Longrightarrow> p \<in> set (tracked (en_scheduler e)) \<Longrightarrow>
   \<exists>entry. (id_at (en_scheduler e) p, entry) \<in> set (en_active e) \<and> ae_request entry = p"
  unfolding routes_inv_def by blast

text \<open>How calls on the scheduler change the requests: ids stay, token lists only grow.\<close>

definition sched_ext :: "FifoScheduler \<Rightarrow> FifoScheduler \<Rightarrow> bool" where
  "sched_ext s s' \<longleftrightarrow>
     length (fs_requests s) \<le> length (fs_requests s') \<and>
     (\<forall>p < length (fs_requests s). id_at s' p = id_at s p \<and>
        (\<exists>ts. req_output_token_ids (req_at s' p) = req_output_token_ids (req_at s p) @ ts))"

lemma sched_ext_refl: "sched_ext s s"
  by (simp add: sched_ext_def)

lemma tick_effect_ext:
  assumes "tick_effect t t' s rep s'" "queues_inv s"
  shows "sched_ext s s'" and "set (tracked s') \<subseteq> set (tracked s)"
proof -
  note qu = tick_effect_queues [OF assms] and rq = tick_effect_requests [OF assms]
  have "id_at s' p = id_at s p \<and>
      (\<exists>ts. req_output_token_ids (req_at s' p) = req_output_token_ids (req_at s p) @ ts)"
    if "p < length (fs_requests s)" for p
  proof (cases "p \<in> set (tracked s)")
    case True
    from rq(1) [OF True] show ?thesis by (auto simp: ticked_def same_terms_def id_at_def)
  next
    case False
    then show ?thesis using rq(3) [OF that] by (simp add: id_at_def)
  qed
  then show "sched_ext s s'" using qu(3) by (simp add: sched_ext_def)
  show "set (tracked s') \<subseteq> set (tracked s)"
    using subseq_subset [OF qu(2)] qu(1) by (auto simp: tracked_def fifo_line_def)
qed

lemma untrack_ext:
  assumes "p < length (fs_requests s)" "with_lifecycle st (req_at s p) r"
  shows "sched_ext s (untrack p r s)"
  using assms with_lifecycle_sel [OF assms(2)]
  by (auto simp: sched_ext_def id_at_def req_at_def untrack_def nth_list_update)

lemma enqueue_ext: "sched_ext s (enqueue r s)"
  by (simp add: sched_ext_def id_at_def req_at_enqueue)

lemma entry_ok_ext:
  assumes "entry_ok e sent x" "sched_ext (en_scheduler e) s'"
  shows "entry_ok (e\<lparr>en_scheduler := s', en_world := w\<rparr>) sent x"
proof -
  obtain i entry where x: "x = (i, entry)" by force
  let ?p = "ae_request entry" and ?s = "en_scheduler e"
  have p: "?p < length (fs_requests ?s)" using assms(1) x by (simp add: entry_ok_def Let_def)
  then obtain ts where "id_at s' ?p = id_at ?s ?p"
    "req_output_token_ids (req_at s' ?p) = req_output_token_ids (req_at ?s ?p) @ ts"
    using assms(2) by (auto simp: sched_ext_def)
  then show ?thesis
    using assms p x by (auto simp: entry_ok_def Let_def sched_ext_def)
qed

lemma routes_inv_sched:
  assumes "routes_inv e sent" "sched_ext (en_scheduler e) s'"
    and "set (tracked s') \<subseteq> set (tracked (en_scheduler e))" "queues_inv (en_scheduler e)"
  shows "routes_inv (e\<lparr>en_scheduler := s', en_world := w\<rparr>) sent"
proof -
  have "id_at s' p = id_at (en_scheduler e) p" if "p \<in> set (tracked s')" for p
    using assms(2,3,4) that tracked_lt [OF assms(4), of p] by (auto simp: sched_ext_def)
  then have "\<forall>p \<in> set (tracked s'). \<exists>entry. (id_at s' p, entry) \<in> set (en_active e) \<and> ae_request entry = p"
    using assms(1,3) unfolding routes_inv_def by (metis subsetD)
  then show ?thesis
    using assms(1) entry_ok_ext [OF _ assms(2)] by (simp add: routes_inv_def pending_ok_def)
qed

section \<open>Closing and erasing\<close>

lemma stream_close [simp]: "stream sent c (close ch) = stream sent c ch"
  by (simp add: stream_def close_def)

lemma routes_inv_close:
  assumes "routes_inv e sent" "en_channels e c = Some ch"
  shows "routes_inv (e\<lparr>en_channels := (en_channels e)(c \<mapsto> close ch)\<rparr>) sent"
proof -
  have "entry_ok (e\<lparr>en_channels := (en_channels e)(c \<mapsto> close ch)\<rparr>) sent x" if "entry_ok e sent x" for x
    using that assms(2) by (auto simp: entry_ok_def Let_def)
  moreover have "pending_ok (e\<lparr>en_channels := (en_channels e)(c \<mapsto> close ch)\<rparr>) sent sub"
    if "pending_ok e sent sub" for sub
    using that assms(2) by (auto simp: pending_ok_def)
  ultimately show ?thesis using assms(1) by (simp add: routes_inv_def)
qed

lemma active_erase_sel [simp]:
  shows "en_scheduler (active_erase i e) = en_scheduler e"
    and "en_world (active_erase i e) = en_world e"
    and "en_channels (active_erase i e) = en_channels e"
    and "en_pending_submissions (active_erase i e) = en_pending_submissions e"
    and "en_active (active_erase i e) = filter (\<lambda>(j, _). j \<noteq> i) (en_active e)"
    and "en_config (active_erase i e) = en_config e"
  by (simp_all add: active_erase_def)

lemma map_fst_filter: "map fst (filter (\<lambda>(j, _). P j) xs) = filter P (map fst xs)"
  by (induction xs) auto

lemma routes_inv_erase:
  assumes "routes_inv e sent" "i \<notin> id_at (en_scheduler e) ` set (tracked (en_scheduler e))"
  shows "routes_inv (active_erase i e) sent"
proof -
  have "distinct (filter (\<lambda>j. j \<noteq> i) (map fst (en_active e)) @ map sub_id (en_pending_submissions e))"
    "distinct (map (ae_channel \<circ> snd) (filter (\<lambda>(j, _). j \<noteq> i) (en_active e)) @
       map sub_channel (en_pending_submissions e))"
    using assms(1) by (auto simp: routes_inv_def intro: distinct_map_filter)
  moreover have "\<forall>p \<in> set (tracked (en_scheduler e)). \<exists>entry.
      (id_at (en_scheduler e) p, entry) \<in> set (filter (\<lambda>(j, _). j \<noteq> i) (en_active e)) \<and> ae_request entry = p"
    using assms unfolding routes_inv_def by fastforce
  ultimately show ?thesis
    using assms(1) by (simp add: routes_inv_def map_fst_filter entry_ok_def pending_ok_def)
qed

lemma routes_active:
  assumes "routes_inv e sent" "map_of (en_active e) i = Some entry"
  shows "\<exists>ch. en_channels e (ae_channel entry) = Some ch"
  using assms map_of_SomeD [OF assms(2)] by (fastforce simp: routes_inv_def entry_ok_def Let_def)

text \<open>What closing and erasing one entry leaves.\<close>

definition closed_out :: "RequestId \<Rightarrow> 'w Engine \<Rightarrow> 'w Engine \<Rightarrow> bool" where
  "closed_out i e e' \<longleftrightarrow>
     (\<exists>entry ch. map_of (en_active e) i = Some entry \<and> en_channels e (ae_channel entry) = Some ch \<and>
        e' = active_erase i (e\<lparr>en_channels := (en_channels e)(ae_channel entry \<mapsto> close ch)\<rparr>))"

lemma ok_close_and_erase:
  assumes "routes_inv e sent" "i \<in> fst ` set (en_active e)"
  shows "ok (close_and_erase i e) (closed_out i e)"
proof -
  obtain entry where entry: "map_of (en_active e) i = Some entry"
    using assms(2) by (metis map_of_eq_None_iff option.exhaust)
  obtain ch where "en_channels e (ae_channel entry) = Some ch" using routes_active [OF assms(1) entry] by blast
  then show ?thesis
    using entry by (auto simp: close_and_erase_def close_channel_def channel_at_def closed_out_def)
qed

lemma routes_inv_closed_out:
  assumes "closed_out i e e'" "routes_inv e sent" "i \<notin> id_at (en_scheduler e) ` set (tracked (en_scheduler e))"
  shows "routes_inv e' sent"
proof -
  obtain c ch where "e' = active_erase i (e\<lparr>en_channels := (en_channels e)(c \<mapsto> close ch)\<rparr>)"
    "en_channels e c = Some ch" using assms(1) by (auto simp: closed_out_def)
  then show ?thesis using routes_inv_close [OF assms(2)] assms(3) by (auto intro!: routes_inv_erase)
qed

lemma closed_out_sel:
  assumes "closed_out i e e'"
  shows "en_scheduler e' = en_scheduler e" and "en_world e' = en_world e"
    and "en_pending_submissions e' = en_pending_submissions e"
    and "map fst (en_active e') = filter (\<lambda>j. j \<noteq> i) (map fst (en_active e))"
    and "en_config e' = en_config e"
  using assms by (auto simp: closed_out_def map_fst_filter)

text \<open>The entries of \<open>is\<close> are closed and erased, and nothing else changes.\<close>

definition closed_all :: "RequestId set \<Rightarrow> 'w Engine \<Rightarrow> 'w Engine \<Rightarrow> bool" where
  "closed_all is e e' \<longleftrightarrow>
     (\<exists>chans. e' = e\<lparr>en_active := filter (\<lambda>(i, _). i \<notin> is) (en_active e), en_channels := chans\<rparr> \<and>
        (\<forall>c. chans c =
           (if \<exists>i entry. (i, entry) \<in> set (en_active e) \<and> i \<in> is \<and> ae_channel entry = c
            then map_option close (en_channels e c) else en_channels e c)))"

lemma map_option_close_idem [simp]: "map_option close (map_option close x) = map_option close x"
  by (cases x) (simp_all add: close_def)

lemma closed_all_step:
  assumes "closed_out i e e1" "distinct (map fst (en_active e))" "closed_all is e1 e2"
  shows "closed_all (insert i is) e e2"
proof -
  obtain entry ch where entry: "map_of (en_active e) i = Some entry" "en_channels e (ae_channel entry) = Some ch"
    and e1: "e1 = active_erase i (e\<lparr>en_channels := (en_channels e)(ae_channel entry \<mapsto> close ch)\<rparr>)"
    using assms(1) by (auto simp: closed_out_def)
  obtain chans where e2: "e2 = e1\<lparr>en_active := filter (\<lambda>(i, _). i \<notin> is) (en_active e1), en_channels := chans\<rparr>"
    and chans: "\<forall>c. chans c =
      (if \<exists>i entry. (i, entry) \<in> set (en_active e1) \<and> i \<in> is \<and> ae_channel entry = c
       then map_option close (en_channels e1 c) else en_channels e1 c)"
    using assms(3) by (auto simp: closed_all_def)
  have mem: "(i, entry') \<in> set (en_active e) \<longleftrightarrow> entry' = entry" for entry'
    using entry(1) assms(2) by (metis map_of_eq_Some_iff option.inject)
  have "chans c = (if \<exists>j entry'. (j, entry') \<in> set (en_active e) \<and> j \<in> insert i is \<and> ae_channel entry' = c
      then map_option close (en_channels e c) else en_channels e c)" for c
  proof -
    have eq: "(\<exists>j entry'. (j, entry') \<in> set (en_active e) \<and> j \<in> insert i is \<and> ae_channel entry' = c) \<longleftrightarrow>
        ae_channel entry = c \<or> (\<exists>j entry'. (j, entry') \<in> set (en_active e1) \<and> j \<in> is \<and> ae_channel entry' = c)"
      using mem by (auto simp: e1) metis+
    have "en_channels e1 c = (if ae_channel entry = c then map_option close (en_channels e c) else en_channels e c)"
      using entry(2) by (auto simp: e1)
    then show ?thesis using chans [rule_format, of c] unfolding eq by auto
  qed
  moreover have "e2 = e\<lparr>en_active := filter (\<lambda>(j, _). j \<notin> insert i is) (en_active e), en_channels := chans\<rparr>"
    by (simp add: e2 e1 active_erase_def filter_filter case_prod_unfold conj_commute)
  ultimately show ?thesis unfolding closed_all_def by blast
qed

lemma ok_close_all:
  assumes "routes_inv e sent" "set is \<subseteq> fst ` set (en_active e)" "distinct is"
    and "set is \<inter> id_at (en_scheduler e) ` set (tracked (en_scheduler e)) = {}"
  shows "ok (fold_res close_and_erase is e) (\<lambda>e'. closed_all (set is) e e' \<and> routes_inv e' sent)"
  using assms
proof (induction "is" arbitrary: e)
  case Nil
  then show ?case by (cases e) (simp add: closed_all_def)
next
  case (Cons i js)
  obtain e1 where one: "close_and_erase i e = Inr e1" and out: "closed_out i e e1"
    using ok_close_and_erase [OF Cons.prems(1)] Cons.prems(2) by (auto simp: ok_iff)
  have r1: "routes_inv e1 sent" using routes_inv_closed_out [OF out Cons.prems(1)] Cons.prems(4) by auto
  have "set js \<subseteq> set (map fst (en_active e1))"
    unfolding closed_out_sel(4) [OF out] using Cons.prems(2,3) by auto
  then have "ok (fold_res close_and_erase js e1) (\<lambda>e'. closed_all (set js) e1 e' \<and> routes_inv e' sent)"
    using Cons.prems(3,4) closed_out_sel(1) [OF out] by (intro Cons.IH r1) auto
  moreover have "distinct (map fst (en_active e))" using Cons.prems(1) by (simp add: routes_inv_def)
  ultimately show ?case using one closed_all_step [OF out] by (auto elim!: ok_mono)
qed

section \<open>Pushing tokens\<close>

text \<open>The events for the tokens with indices from \<open>k\<close> to before \<open>j\<close>.\<close>

definition token_events :: "Request \<Rightarrow> nat \<Rightarrow> nat \<Rightarrow> TokenEvent list" where
  "token_events r k j =
     map (\<lambda>i. \<lparr>te_token_id = req_output_token_ids r ! i, te_finish_reason = finish_reason r i\<rparr>) [k..<j]"

text \<open>
  The tokens up to \<open>j\<close> have been pushed: all of them, or as many as the channel takes, and in
  the latter case the backpressure timer runs.
\<close>

definition pushed ::
  "'w Clock \<Rightarrow> Request \<Rightarrow> nat \<Rightarrow> ActiveEntry \<times> TokenChannel \<times> 'w \<Rightarrow> ActiveEntry \<times> TokenChannel \<times> 'w \<Rightarrow> bool" where
  "pushed steady r m x x' \<longleftrightarrow>
     (case (x, x') of ((entry, ch, w), (entry', ch', w')) \<Rightarrow>
        let k = ae_last_seen_tokens entry; j = ae_last_seen_tokens entry'
        in k \<le> j \<and> j \<le> m \<and> ch' = ch\<lparr>ch_buffer := ch_buffer ch @ token_events r k j\<rparr> \<and>
           ae_request entry' = ae_request entry \<and> ae_channel entry' = ae_channel entry \<and>
           (w' = w \<or> (\<exists>t. steady w = (t, w'))) \<and>
           (if j < m
            then (ch_closed ch' \<or> ch_capacity ch' \<le> length (ch_buffer ch')) \<and> ae_backpressure_since entry' \<noteq> None
            else ae_backpressure_since entry' = (if k < m then None else ae_backpressure_since entry)))"

lemma token_events_Cons:
  "k < j \<Longrightarrow> token_events r k j =
     \<lparr>te_token_id = req_output_token_ids r ! k, te_finish_reason = finish_reason r k\<rparr> # token_events r (Suc k) j"
  by (simp add: token_events_def upt_conv_Cons)

lemma token_events_empty [simp]: "token_events r k k = []"
  by (simp add: token_events_def)

lemma ok_push_loop:
  assumes "m \<le> length (req_output_token_ids r)" "ae_last_seen_tokens entry \<le> m"
  shows "ok (push_loop steady r [ae_last_seen_tokens entry..<m] (entry, ch, w)) (pushed steady r m (entry, ch, w))"
  using assms
proof (induction "m - ae_last_seen_tokens entry" arbitrary: entry ch)
  case 0
  then show ?case by (simp add: pushed_def Let_def)
next
  case (Suc d)
  let ?k = "ae_last_seen_tokens entry"
  let ?ev = "\<lparr>te_token_id = req_output_token_ids r ! ?k, te_finish_reason = finish_reason r ?k\<rparr>"
  have k: "?k < m" "[?k..<m] = ?k # [Suc ?k..<m]" using Suc.hyps(2) by (simp_all add: upt_conv_Cons)
  show ?case
  proof (cases "ch_closed ch \<or> ch_capacity ch \<le> length (ch_buffer ch)")
    case True
    then show ?thesis
      using k Suc.prems(1) by (auto simp: try_push_def pushed_def Let_def split: option.splits prod.splits)
  next
    case False
    let ?entry = "entry\<lparr>ae_last_seen_tokens := Suc ?k, ae_backpressure_since := None\<rparr>"
    let ?ch = "ch\<lparr>ch_buffer := ch_buffer ch @ [?ev]\<rparr>"
    have "ok (push_loop steady r [Suc ?k..<m] (?entry, ?ch, w)) (pushed steady r m (?entry, ?ch, w))"
      using Suc.hyps(1) [of ?entry ?ch] Suc.hyps(2) Suc.prems(1) k(1) by simp
    moreover have "pushed steady r m (entry, ch, w) x" if push: "pushed steady r m (?entry, ?ch, w) x" for x
    proof -
      obtain entry' ch' w' where x: "x = (entry', ch', w')" by (cases x)
      have "Suc ?k \<le> ae_last_seen_tokens entry'" using push x by (simp add: pushed_def Let_def)
      then show ?thesis
        using push x k(1) token_events_Cons [of ?k "ae_last_seen_tokens entry'" r]
        by (auto simp: pushed_def Let_def split: if_splits)
    qed
    moreover have "push_loop steady r [?k..<m] (entry, ch, w) = push_loop steady r [Suc ?k..<m] (?entry, ?ch, w)"
      using k False Suc.prems(1) by (simp add: try_push_def)
    ultimately show ?thesis by (metis ok_mono)
  qed
qed

lemma stream_pushed:
  assumes "stream sent c ch = take k (req_output_token_ids r)" "k \<le> j" "j \<le> length (req_output_token_ids r)"
  shows "stream sent c (ch\<lparr>ch_buffer := ch_buffer ch @ token_events r k j\<rparr>) = take j (req_output_token_ids r)"
proof -
  have "map te_token_id (token_events r k j) = map ((!) (req_output_token_ids r)) [k..<j]"
    by (simp add: token_events_def)
  also have "\<dots> = drop k (take j (req_output_token_ids r))"
    using assms(2,3) by (auto intro!: nth_equalityI)
  finally have "stream sent c (ch\<lparr>ch_buffer := ch_buffer ch @ token_events r k j\<rparr>) =
      take k (take j (req_output_token_ids r)) @ drop k (take j (req_output_token_ids r))"
    using assms(1,2) by (simp add: stream_def min_def)
  then show ?thesis by (simp only: append_take_drop_id)
qed

lemma route_unique:
  assumes "routes_inv e sent" "(i, entry) \<in> set (en_active e)" "(j, entry') \<in> set (en_active e)"
    and "j = i \<or> ae_channel entry' = ae_channel entry"
  shows "j = i \<and> entry' = entry"
proof -
  have d: "distinct (map fst (en_active e))" "inj_on (ae_channel \<circ> snd) (set (en_active e))"
    using assms(1) by (simp_all add: routes_inv_def distinct_map)
  show ?thesis
    using assms(4) eq_key_imp_eq_value [OF d(1) assms(2), of entry'] assms(3) inj_onD [OF d(2) _ assms(3,2)] by auto
qed

text \<open>The condition of \<open>reap_terminal\<close>: the request has ended and its tokens are all sent.\<close>

definition ended :: "FifoScheduler \<Rightarrow> ActiveEntry \<Rightarrow> bool" where
  "ended s entry \<longleftrightarrow> is_terminal (req_state (req_at s (ae_request entry))) \<and>
     ae_last_seen_tokens entry \<ge> req_output_tokens_emitted (req_at s (ae_request entry))"

lemma routes_other_channels:
  assumes "routes_inv (e\<lparr>en_active := xs @ (i, entry) # ys\<rparr>) sent"
  shows "x \<in> set (xs @ ys) \<Longrightarrow> ae_channel (snd x) \<noteq> ae_channel entry"
    and "sub \<in> set (en_pending_submissions e) \<Longrightarrow> sub_channel sub \<noteq> ae_channel entry"
proof -
  have "distinct (map (ae_channel \<circ> snd) (xs @ (i, entry) # ys) @ map sub_channel (en_pending_submissions e))"
    using assms by (simp add: routes_inv_def)
  then have "ae_channel entry \<notin> (\<lambda>x. ae_channel (snd x)) ` set (xs @ ys)"
    "ae_channel entry \<notin> sub_channel ` set (en_pending_submissions e)"
    by auto
  then show "x \<in> set (xs @ ys) \<Longrightarrow> ae_channel (snd x) \<noteq> ae_channel entry"
    "sub \<in> set (en_pending_submissions e) \<Longrightarrow> sub_channel sub \<noteq> ae_channel entry" by (metis imageI)+
qed

lemma routes_inv_push:
  assumes inv: "routes_inv (e\<lparr>en_active := xs @ (i, entry) # ys\<rparr>) sent"
    and ch: "en_channels e (ae_channel entry) = Some ch"
    and push: "pushed steady (req_at (en_scheduler e) (ae_request entry)) m (entry, ch, w) (entry', ch', w')"
    and m: "m \<le> length (req_output_token_ids (req_at (en_scheduler e) (ae_request entry)))"
  shows "routes_inv (e\<lparr>en_channels := (en_channels e)(ae_channel entry \<mapsto> ch'), en_world := w',
    en_active := xs @ (i, entry') # ys\<rparr>) sent"
proof -
  let ?c = "ae_channel entry" and ?r = "req_at (en_scheduler e) (ae_request entry)"
  let ?e = "e\<lparr>en_channels := (en_channels e)(?c \<mapsto> ch'), en_world := w', en_active := xs @ (i, entry') # ys\<rparr>"
  have same: "ae_request entry' = ae_request entry" "ae_channel entry' = ?c"
    and j: "ae_last_seen_tokens entry \<le> ae_last_seen_tokens entry'" "ae_last_seen_tokens entry' \<le> m"
    and ch': "ch' = ch\<lparr>ch_buffer := ch_buffer ch @
      token_events ?r (ae_last_seen_tokens entry) (ae_last_seen_tokens entry')\<rparr>"
    using push by (simp_all add: pushed_def Let_def)
  have ok: "\<forall>x \<in> set (xs @ (i, entry) # ys). entry_ok e sent x"
    "\<forall>sub \<in> set (en_pending_submissions e). pending_ok e sent sub"
    using inv by (auto simp: routes_inv_def entry_ok_def pending_ok_def)
  note dist = routes_other_channels [OF inv]
  have this_ok: "entry_ok e sent (i, entry)" using ok(1) by simp
  then have "stream sent ?c ch = take (ae_last_seen_tokens entry) (req_output_token_ids ?r)"
    using ch by (simp add: entry_ok_def Let_def)
  from stream_pushed [OF this j(1)] have "entry_ok ?e sent (i, entry')"
    using this_ok same j(2) m ch' by (simp add: entry_ok_def Let_def)
  moreover have "entry_ok ?e sent x" if "x \<in> set (xs @ ys)" for x
  proof -
    have "entry_ok e sent x" "ae_channel (snd x) \<noteq> ?c" using ok(1) dist(1) [OF that] that by auto
    then show ?thesis by (cases x) (simp add: entry_ok_def Let_def)
  qed
  moreover have "pending_ok ?e sent sub" if "sub \<in> set (en_pending_submissions e)" for sub
    using ok(2) dist(2) [of sub] that by (simp add: pending_ok_def)
  moreover have "\<forall>p \<in> set (tracked (en_scheduler e)). \<exists>entry0.
      (id_at (en_scheduler e) p, entry0) \<in> set (xs @ (i, entry') # ys) \<and> ae_request entry0 = p"
  proof
    fix p assume "p \<in> set (tracked (en_scheduler e))"
    then obtain entry0 where "(id_at (en_scheduler e) p, entry0) \<in> set (xs @ (i, entry) # ys)" "ae_request entry0 = p"
      using routes_tracked [OF inv, of p] by auto
    then show "\<exists>entry0. (id_at (en_scheduler e) p, entry0) \<in> set (xs @ (i, entry') # ys) \<and> ae_request entry0 = p"
      using same(1) by auto
  qed
  ultimately show ?thesis
    using inv same(2) by (simp add: routes_inv_def)
qed

section \<open>Admitting a submission\<close>

definition fresh_entry :: "ReqPtr \<Rightarrow> Submission \<Rightarrow> ActiveEntry" where
  "fresh_entry p sub =
     \<lparr>ae_request = p, ae_channel = sub_channel sub, ae_last_seen_tokens = 0, ae_backpressure_since = None\<rparr>"

definition admitted :: "Request \<Rightarrow> Submission \<Rightarrow> 'w \<Rightarrow> 'w Engine \<Rightarrow> 'w Engine" where
  "admitted r sub w e =
     e\<lparr>en_scheduler := enqueue r (en_scheduler e), en_world := w,
       en_active := en_active e @ [(sub_id sub, fresh_entry (length (fs_requests (en_scheduler e))) sub)]\<rparr>"

lemma tracked_active_ids:
  "routes_inv e sent \<Longrightarrow> id_at (en_scheduler e) ` set (tracked (en_scheduler e)) \<subseteq> fst ` set (en_active e)"
  unfolding routes_inv_def by (metis (no_types, lifting) fst_conv image_eqI image_subsetI)

lemma routes_inv_admit:
  assumes "routes_inv (e\<lparr>en_pending_submissions := sub # subs\<rparr>) sent" "queues_inv (en_scheduler e)"
    and "req_id r = sub_id sub"
  shows "routes_inv ((admitted r sub w e)\<lparr>en_pending_submissions := subs\<rparr>) sent"
proof -
  let ?s = "en_scheduler e" and ?e = "(admitted r sub w e)\<lparr>en_pending_submissions := subs\<rparr>"
  let ?n = "length (fs_requests ?s)"
  let ?x = "(sub_id sub, fresh_entry ?n sub)"
  have rules: "\<forall>x \<in> set (en_active e). entry_ok e sent x" "pending_ok e sent sub"
    "\<forall>sub \<in> set subs. pending_ok e sent sub"
    using assms(1) by (auto simp: routes_inv_def entry_ok_def pending_ok_def)
  have "entry_ok ?e sent x" if "x \<in> set (en_active e)" for x
    using entry_ok_ext [OF _ enqueue_ext [of "en_scheduler e" r], of sent x w] rules(1) that
    by (simp add: entry_ok_def admitted_def)
  moreover have "entry_ok ?e sent ?x"
    using rules(2) assms(3)
    by (simp add: entry_ok_def admitted_def fresh_entry_def pending_ok_def req_at_enqueue id_at_def Let_def)
  moreover have "pending_ok ?e sent sub'" if "sub' \<in> set subs" for sub'
    using rules(3) that by (simp add: pending_ok_def admitted_def)
  moreover have "\<exists>entry. (id_at (enqueue r ?s) p, entry) \<in> set (en_active e @ [?x]) \<and> ae_request entry = p"
    if "p \<in> set (tracked (enqueue r ?s))" for p
  proof (cases "p = ?n")
    case True
    then show ?thesis using assms(3) by (auto simp: id_at_def req_at_enqueue fresh_entry_def)
  next
    case False
    then have p: "p \<in> set (tracked ?s)" using that by (auto simp: tracked_def)
    then have "id_at (enqueue r ?s) p = id_at ?s p"
      using tracked_lt [OF assms(2)] by (simp add: id_at_def req_at_enqueue)
    moreover obtain entry where "(id_at ?s p, entry) \<in> set (en_active e)" "ae_request entry = p"
      using routes_tracked [OF assms(1), of p] p by auto
    ultimately show ?thesis by auto
  qed
  ultimately show ?thesis
    using assms(1) by (auto simp: routes_inv_def admitted_def fresh_entry_def)
qed

section \<open>The phases under the contract\<close>

locale engine_world = backend_world +
  fixes steady :: "'a Clock"
  assumes steady_law: "winv w \<Longrightarrow> steady w = (t, w') \<Longrightarrow>
    winv w' \<and> live w' = live w \<and> room w' = room w \<and> time w \<le> time w'"
begin

definition engine_inv :: "nat \<Rightarrow> 'a Engine \<Rightarrow> stream_log \<Rightarrow> bool" where
  "engine_inv n e sent \<longleftrightarrow>
     sys_inv n (en_scheduler e, en_world e) \<and> routes_inv e sent \<and>
     length (fs_requests (en_scheduler e)) + length (en_pending_submissions e) \<le> n"

lemma engine_inv_sched:
  assumes "engine_inv n e sent" "sys_inv n (s', w')" "sched_ext (en_scheduler e) s'"
    and "set (tracked s') \<subseteq> set (tracked (en_scheduler e))"
    and "length (fs_requests s') = length (fs_requests (en_scheduler e))"
  shows "engine_inv n (e\<lparr>en_scheduler := s', en_world := w'\<rparr>) sent"
  using assms routes_inv_sched [of e sent s' w']
  by (auto simp: engine_inv_def sys_inv_def sched_inv_def)

lemma engine_inv_queues: "engine_inv n e sent \<Longrightarrow> queues_inv (en_scheduler e)"
  by (simp add: engine_inv_def sys_inv_def sched_inv_def)

lemma engine_tick_ok:
  assumes "engine_inv n e sent"
  shows "ok (engine_tick be now e) (\<lambda>e'. engine_inv n e' sent \<and> en_active e' = en_active e \<and>
    en_pending_submissions e' = en_pending_submissions e)"
proof -
  have sys: "sys_inv n (en_scheduler e, en_world e)" using assms by (simp add: engine_inv_def)
  obtain rep s' w' where t: "tick be now (en_scheduler e, en_world e) = Inr (rep, s', w')"
    and inv: "sys_inv n (s', w')"
    and eff: "tick_effect (time (en_world e)) (time w') (en_scheduler e) rep s'"
    using sys_inv_tick [OF sys] by (auto simp: ok_iff)
  have q: "queues_inv (en_scheduler e)" by (rule engine_inv_queues [OF assms])
  have "engine_inv n (e\<lparr>en_scheduler := s', en_world := w'\<rparr>) sent"
    by (intro engine_inv_sched [OF assms inv] tick_effect_ext [OF eff q] tick_effect_queues(3) [OF eff q])
  then show ?thesis using t by (simp add: engine_tick_def)
qed

lemma sched_cancel_ok:
  assumes "engine_inv n e sent"
  shows "ok (sched_cancel be now i e) (\<lambda>e'. engine_inv n e' sent \<and> en_active e' = en_active e \<and>
    en_channels e' = en_channels e \<and> en_pending_submissions e' = en_pending_submissions e \<and>
    en_pending_cancels e' = en_pending_cancels e \<and>
    tracked_ids e' = tracked_ids e - {i} \<and> i \<notin> id_at (en_scheduler e') ` set (tracked (en_scheduler e')))"
proof -
  let ?s = "en_scheduler e" and ?w = "en_world e"
  have sys: "sys_inv n (?s, ?w)" using assms by (simp add: engine_inv_def)
  have q: "queues_inv ?s" by (rule engine_inv_queues [OF assms])
  obtain s' w' where c: "cancel be now i (?s, ?w) = Inr (s', w')" and inv: "sys_inv n (s', w')"
    and eff: "cancelled i (?s, ?w) (s', w')"
    using sys_inv_cancel [OF sys, of i] by (auto simp: ok_iff)
  have "sched_ext ?s s' \<and> set (tracked s') \<subseteq> set (tracked ?s) \<and>
      length (fs_requests s') = length (fs_requests ?s) \<and>
      id_at s' ` set (tracked s') = id_at ?s ` set (tracked ?s) - {i}"
  proof (cases "i \<in> id_at ?s ` set (tracked ?s)")
    case True
    then obtain p r where p: "p \<in> set (tracked ?s)" "id_at ?s p = i"
      and r: "with_lifecycle kCancelled (req_at ?s p) r" "s' = untrack p r ?s"
      using eff by (auto simp: cancelled_def)
    have lt: "p < length (fs_requests ?s)" by (rule tracked_lt [OF q p(1)])
    have ids: "id_at s' = id_at ?s"
      using id_at_upd(2) [OF lt] with_lifecycle_sel(2) [OF r(1)] r(2) by (simp add: id_at_def)
    have tr: "set (tracked s') = set (tracked ?s) - {p}"
      using set_remove1_queues [OF q] r(2) by (auto simp: tracked_def)
    have "inj_on (id_at ?s) (set (tracked ?s))" using q by (simp add: queues_inv_def)
    then have "id_at s' ` set (tracked s') = id_at ?s ` set (tracked ?s) - {i}"
      unfolding ids tr using p by (auto dest: inj_onD)
    then show ?thesis using untrack_ext [OF lt r(1)] r(2) tr by simp
  next
    case False
    then show ?thesis using eff sched_ext_refl by (simp add: cancelled_def)
  qed
  then show ?thesis using c engine_inv_sched [OF assms inv] by (simp add: sched_cancel_def tracked_ids_def)
qed

lemma engine_inv_closed_out:
  assumes "engine_inv n e sent" "closed_out i e e'" "i \<notin> id_at (en_scheduler e) ` set (tracked (en_scheduler e))"
  shows "engine_inv n e' sent"
  using assms closed_out_sel [OF assms(2)] routes_inv_closed_out [OF assms(2) _ assms(3)]
  by (simp add: engine_inv_def)

lemma drain_submission_ok:
  assumes "engine_inv n (e\<lparr>en_pending_submissions := sub # subs\<rparr>) sent"
  shows "ok (drain_submission now sub e) (\<lambda>e'.
    engine_inv n (e'\<lparr>en_pending_submissions := subs\<rparr>) sent \<and>
    en_pending_submissions e' = en_pending_submissions e \<and>
    (\<exists>r w. e' = admitted r sub w e \<and> req_max_output_tokens r = sub_max_tokens sub \<and>
       req_output_tokens_emitted r = 0))"
proof -
  let ?s = "en_scheduler e"
  have inv: "sys_inv n (?s, en_world e)" "length (fs_requests ?s) + length (sub # subs) \<le> n"
    and routes: "routes_inv (e\<lparr>en_pending_submissions := sub # subs\<rparr>) sent"
    using assms by (simp_all add: engine_inv_def)
  have q: "queues_inv ?s" using engine_inv_queues [OF assms] by simp
  have new: "sub_id sub \<notin> fst ` set (en_active e)" "0 < sub_max_tokens sub"
    using routes by (auto simp: routes_inv_def pending_ok_def)
  then have fresh: "sub_id sub \<notin> id_at ?s ` set (tracked ?s)" using tracked_active_ids [OF routes] by auto
  obtain t1 w1 t2 w2 where now: "now (en_world e) = (t1, w1)" "now w1 = (t2, w2)"
    by (metis surj_pair)
  let ?req = "Request_new (sub_id sub) t1 t2 (sub_deadline sub) (sub_max_tokens sub) (sub_prompt_token_ids sub) 0"
  obtain r w' where sub: "submit now ?req (?s, w2) = Inr (length (fs_requests ?s), enqueue r ?s, w')"
    and sys: "sys_inv n (enqueue r ?s, w')" and r: "with_lifecycle kWaitingPrefill ?req r"
    using sys_inv_submit [OF inv(1) _ now new(2) fresh,
        of "sub_deadline sub" "sub_prompt_token_ids sub" 0] inv(2)
    by (auto simp: ok_iff)
  have terms: "req_id r = sub_id sub" "req_max_output_tokens r = sub_max_tokens sub" "req_output_tokens_emitted r = 0"
    using with_lifecycle_sel [OF r] by (simp_all add: Request_new_def)
  from routes_inv_admit [OF routes q terms(1)]
  have "engine_inv n ((admitted r sub w' e)\<lparr>en_pending_submissions := subs\<rparr>) sent"
    using sys inv(2) by (simp add: engine_inv_def admitted_def)
  moreover have "drain_submission now sub e = Inr (admitted r sub w' e)"
    using now sub new(1)
    by (simp add: drain_submission_def Let_def active_emplace_def admitted_def fresh_entry_def
        map_of_eq_None_iff image_iff)
  ultimately show ?thesis using terms by (auto simp: admitted_def)
qed

lemma pending_update_id: "en_pending_submissions e = subs \<Longrightarrow> e\<lparr>en_pending_submissions := subs\<rparr> = e"
  by (cases e) simp

lemma drain_submissions_ok:
  assumes "engine_inv n e sent"
  shows "ok (drain_submissions now e) (\<lambda>e'. engine_inv n e' sent \<and> en_pending_submissions e' = [])"
proof -
  have "ok (fold_res (drain_submission now) (en_pending_submissions e) (e\<lparr>en_pending_submissions := []\<rparr>))
      (\<lambda>e'. engine_inv n (e'\<lparr>en_pending_submissions := []\<rparr>) sent \<and> en_pending_submissions e' = [])"
    by (rule ok_fold_res [where I = "\<lambda>subs e. engine_inv n (e\<lparr>en_pending_submissions := subs\<rparr>) sent \<and>
        en_pending_submissions e = []"])
      (auto intro: ok_mono [OF drain_submission_ok] simp: assms)
  then show ?thesis
    by (auto simp: drain_submissions_def pending_update_id elim!: ok_mono)
qed

lemma engine_inv_cancels [simp]: "engine_inv n (e\<lparr>en_pending_cancels := cs\<rparr>) sent = engine_inv n e sent"
  by (simp add: engine_inv_def routes_inv_def entry_ok_def pending_ok_def)

lemma drain_cancel_ok:
  assumes "engine_inv n e sent"
  shows "ok (drain_cancel be now i e) (\<lambda>e'. engine_inv n e' sent \<and>
    en_pending_submissions e' = en_pending_submissions e)"
proof -
  obtain e1 where c: "sched_cancel be now i e = Inr e1" and inv: "engine_inv n e1 sent"
    and pend: "en_pending_submissions e1 = en_pending_submissions e"
    and gone: "i \<notin> id_at (en_scheduler e1) ` set (tracked (en_scheduler e1))"
    using sched_cancel_ok [OF assms, of i] by (auto simp: ok_iff)
  show ?thesis
  proof (cases "map_of (en_active e1) i")
    case None
    then show ?thesis using c inv pend by (simp add: drain_cancel_def)
  next
    case (Some entry)
    have "routes_inv e1 sent" using inv by (simp add: engine_inv_def)
    moreover have "i \<in> fst ` set (en_active e1)" using Some by (force dest: map_of_SomeD)
    ultimately obtain e2 where "close_and_erase i e1 = Inr e2" and "closed_out i e1 e2"
      using ok_close_and_erase unfolding ok_iff by blast
    moreover from this have "engine_inv n e2 sent" "en_pending_submissions e2 = en_pending_submissions e"
      using engine_inv_closed_out [OF inv _ gone] closed_out_sel(3) [of i e1 e2] pend by auto
    ultimately show ?thesis using c Some by (simp add: drain_cancel_def close_and_erase_def)
  qed
qed

lemma drain_cancels_ok:
  assumes "engine_inv n e sent"
  shows "ok (drain_cancels be now e) (\<lambda>e'. engine_inv n e' sent \<and>
    en_pending_submissions e' = en_pending_submissions e)"
  unfolding drain_cancels_def
  by (rule ok_fold_res [where I = "\<lambda>_ e'. engine_inv n e' sent \<and>
      en_pending_submissions e' = en_pending_submissions e"])
    (auto intro: ok_mono [OF drain_cancel_ok] simp: assms)

lemma engine_inv_world:
  assumes "engine_inv n e sent" "steady (en_world e) = (t, w)"
  shows "engine_inv n (e\<lparr>en_world := w\<rparr>) sent"
  using assms steady_law [OF _ assms(2)]
  by (auto simp: engine_inv_def sys_inv_def routes_inv_def entry_ok_def pending_ok_def intro: sched_inv_later)

lemma sys_inv_req:
  assumes "sys_inv n (s, w)" "p < length (fs_requests s)"
  shows "req_output_tokens_emitted (req_at s p) = length (req_output_token_ids (req_at s p))"
  using assms by (simp add: sys_inv_def sched_inv_def requests_inv_def req_inv_def)

lemma push_entry_ok:
  assumes inv: "engine_inv n (e\<lparr>en_active := xs @ (i, entry) # ys\<rparr>) sent"
  shows "ok (push_entry steady (i, entry) (xs, e)) (\<lambda>(xs', e').
    engine_inv n (e'\<lparr>en_active := xs' @ ys\<rparr>) sent \<and>
    en_pending_submissions e' = en_pending_submissions e)"
proof -
  let ?s = "en_scheduler e" and ?p = "ae_request entry" and ?c = "ae_channel entry"
  let ?r = "req_at ?s ?p"
  have sys: "sys_inv n (?s, en_world e)" and routes: "routes_inv (e\<lparr>en_active := xs @ (i, entry) # ys\<rparr>) sent"
    using inv by (simp_all add: engine_inv_def)
  have ok: "?p < length (fs_requests ?s)" "ae_last_seen_tokens entry \<le> length (req_output_token_ids ?r)"
    and "\<exists>ch. en_channels e ?c = Some ch"
    using routes by (auto simp: routes_inv_def entry_ok_def Let_def)
  then obtain ch where ch: "en_channels e ?c = Some ch" by blast
  have len: "req_output_tokens_emitted ?r = length (req_output_token_ids ?r)" by (rule sys_inv_req [OF sys ok(1)])
  have dr: "deref ?s ?p = Inr ?r" using ok(1) by (simp add: deref_def req_at_def)
  let ?is = "[ae_last_seen_tokens entry..<length (req_output_token_ids ?r)]"
  obtain entry' ch' w' where loop: "push_loop steady ?r ?is (entry, ch, en_world e) = Inr (entry', ch', w')"
    and push: "pushed steady ?r (length (req_output_token_ids ?r)) (entry, ch, en_world e) (entry', ch', w')"
    using ok_push_loop [OF order_refl ok(2), of steady ch "en_world e"] by (auto simp: ok_iff)
  have "w' = en_world e \<or> (\<exists>t. steady (en_world e) = (t, w'))" using push by (simp add: pushed_def Let_def)
  then have "sys_inv n (?s, w')"
    using sys steady_law [of "en_world e"] by (auto simp: sys_inv_def intro: sched_inv_later)
  then have "engine_inv n (e\<lparr>en_channels := (en_channels e)(?c \<mapsto> ch'), en_world := w',
      en_active := xs @ (i, entry') # ys\<rparr>) sent"
    using inv routes_inv_push [OF routes _ push] ch by (simp add: engine_inv_def)
  moreover have "ae_channel entry' = ?c" using push by (simp add: pushed_def Let_def)
  ultimately show ?thesis
    using inv dr len ch loop by (auto simp: push_entry_def channel_at_def Let_def)
qed

lemma active_update_id: "en_active e = xs \<Longrightarrow> e\<lparr>en_active := xs\<rparr> = e"
  by (cases e) simp

lemma push_tokens_ok:
  assumes "engine_inv n e sent"
  shows "ok (push_tokens steady e) (\<lambda>e'. engine_inv n e' sent \<and>
    en_pending_submissions e' = en_pending_submissions e)"
proof -
  have "ok (fold_res (push_entry steady) (en_active e) ([], e)) (\<lambda>(xs, e').
      engine_inv n (e'\<lparr>en_active := xs @ []\<rparr>) sent \<and> en_pending_submissions e' = en_pending_submissions e)"
    by (rule ok_fold_res [where I = "\<lambda>ys (xs, e'). engine_inv n (e'\<lparr>en_active := xs @ ys\<rparr>) sent \<and>
        en_pending_submissions e' = en_pending_submissions e"])
      (auto intro!: ok_mono [OF push_entry_ok] simp: assms active_update_id)
  then show ?thesis by (auto simp: push_tokens_def elim!: ok_mono)
qed

text \<open>A loop that closes and erases the entries of a list of ids.\<close>

lemma erase_loop_ok:
  assumes step: "\<And>i e. engine_inv n e sent \<Longrightarrow> i \<in> fst ` set (en_active e) \<Longrightarrow> P i e \<Longrightarrow>
      ok (f i e) (\<lambda>e'. engine_inv n e' sent \<and> map fst (en_active e') = filter (\<lambda>j. j \<noteq> i) (map fst (en_active e)) \<and>
        en_pending_submissions e' = en_pending_submissions e \<and> (\<forall>j. P j e \<longrightarrow> P j e'))"
    and "engine_inv n e sent" "set is \<subseteq> fst ` set (en_active e)" "distinct is" "\<forall>i \<in> set is. P i e"
  shows "ok (fold_res f is e) (\<lambda>e'. engine_inv n e' sent \<and> en_pending_submissions e' = en_pending_submissions e)"
proof -
  have "ok (fold_res f is e) (\<lambda>e'. engine_inv n e' sent \<and> en_pending_submissions e' = en_pending_submissions e \<and>
      set [] \<subseteq> set (map fst (en_active e')) \<and> distinct ([] :: RequestId list) \<and> (\<forall>i \<in> set []. P i e'))"
  proof (rule ok_fold_res [where I = "\<lambda>is e'. engine_inv n e' sent \<and>
      en_pending_submissions e' = en_pending_submissions e \<and>
      set is \<subseteq> set (map fst (en_active e')) \<and> distinct is \<and> (\<forall>i \<in> set is. P i e')"])
    fix i js e'
    assume "engine_inv n e' sent \<and> en_pending_submissions e' = en_pending_submissions e \<and>
      set (i # js) \<subseteq> set (map fst (en_active e')) \<and> distinct (i # js) \<and> (\<forall>i \<in> set (i # js). P i e')"
    then show "ok (f i e') (\<lambda>e''. engine_inv n e'' sent \<and> en_pending_submissions e'' = en_pending_submissions e \<and>
      set js \<subseteq> set (map fst (en_active e'')) \<and> distinct js \<and> (\<forall>i \<in> set js. P i e''))"
      by (intro ok_mono [OF step]) auto
  qed (use assms in auto)
  then show ?thesis by (rule ok_mono) simp
qed

lemma drop_entry_ok:
  assumes "engine_inv n e sent" "i \<in> fst ` set (en_active e)"
  shows "ok (drop_entry be now i e) (\<lambda>e'. engine_inv n e' sent \<and>
    map fst (en_active e') = filter (\<lambda>j. j \<noteq> i) (map fst (en_active e)) \<and>
    en_pending_submissions e' = en_pending_submissions e)"
proof -
  obtain e2 where c: "sched_cancel be now i e = Inr e2" "engine_inv n e2 sent" "en_active e2 = en_active e"
    "en_pending_submissions e2 = en_pending_submissions e"
    "i \<notin> id_at (en_scheduler e2) ` set (tracked (en_scheduler e2))"
    using sched_cancel_ok [OF assms(1), of i] by (auto simp: ok_iff)
  then have "ok (close_and_erase i e2) (closed_out i e2)"
    using assms(2) by (intro ok_close_and_erase [of _ sent]) (auto simp: engine_inv_def)
  then show ?thesis
    using c engine_inv_closed_out [OF c(2) _ c(5)] closed_out_sel(3,4) [of i e2]
    by (simp add: drop_entry_def ok_iff) metis
qed

lemma backpressure_expired_ids:
  assumes "engine_inv n e sent" "backpressure_expired steady e = (is, e')"
  shows "engine_inv n e' sent" and "en_active e' = en_active e"
    and "en_pending_submissions e' = en_pending_submissions e"
    and "set is \<subseteq> fst ` set (en_active e)" and "distinct is"
proof -
  obtain t w where st: "steady (en_world e) = (t, w)" by force
  have dist: "distinct (map fst (en_active e))" using assms(1) by (auto simp: engine_inv_def routes_inv_def)
  show "engine_inv n e' sent" "en_active e' = en_active e"
    "en_pending_submissions e' = en_pending_submissions e" "set is \<subseteq> fst ` set (en_active e)" "distinct is"
    using assms(2) engine_inv_world [OF assms(1) st] st
    by (auto simp: backpressure_expired_def intro!: distinct_map_filter [OF dist])
qed

lemma check_backpressure_ok:
  assumes "engine_inv n e sent"
  shows "ok (check_backpressure be now steady e) (\<lambda>e'. engine_inv n e' sent \<and>
    en_pending_submissions e' = en_pending_submissions e)"
proof -
  obtain "is" e1 where ex: "backpressure_expired steady e = (is, e1)" by force
  note ids = backpressure_expired_ids [OF assms ex]
  have "ok (fold_res (drop_entry be now) is e1) (\<lambda>e'. engine_inv n e' sent \<and>
      en_pending_submissions e' = en_pending_submissions e1)"
    using ids by (intro erase_loop_ok [where P = "\<lambda>_ _. True"]) (auto intro!: drop_entry_ok)
  then show ?thesis by (simp add: check_backpressure_def ex ids(3))
qed

text \<open>The entries \<open>reap_terminal\<close> removes: the request has ended and all its tokens are sent.\<close>

definition delivered :: "'a Engine \<Rightarrow> RequestId set" where
  "delivered e = {i. \<exists>entry. (i, entry) \<in> set (en_active e) \<and>
     is_terminal (req_state (req_at (en_scheduler e) (ae_request entry))) \<and>
     ae_last_seen_tokens entry \<ge> req_output_tokens_emitted (req_at (en_scheduler e) (ae_request entry))}"

lemma tracked_not_terminal:
  assumes "sys_inv n (s, w)" "p \<in> set (tracked s)"
  shows "\<not> is_terminal (req_state (req_at s p))"
  using assms status_waiting(3) status_decoding(3) by (auto simp: sys_inv_def tracked_def)

lemma delivered_untracked:
  assumes "engine_inv n e sent"
  shows "delivered e \<inter> id_at (en_scheduler e) ` set (tracked (en_scheduler e)) = {}"
proof -
  let ?s = "en_scheduler e"
  have False if i: "i \<in> delivered e" and p: "p \<in> set (tracked ?s)" "id_at ?s p = i" for i p
  proof -
    obtain entry where entry: "(i, entry) \<in> set (en_active e)"
      "is_terminal (req_state (req_at ?s (ae_request entry)))" using i by (auto simp: delivered_def)
    obtain entry' where "(i, entry') \<in> set (en_active e)" "ae_request entry' = p"
      using routes_tracked [of e sent p] assms p by (auto simp: engine_inv_def)
    moreover have "distinct (map fst (en_active e))" using assms by (simp add: engine_inv_def routes_inv_def)
    ultimately have "ae_request entry = p" using entry(1) by (metis eq_key_imp_eq_value)
    then show False using entry(2) tracked_not_terminal [of n ?s "en_world e" p] assms p by (simp add: engine_inv_def)
  qed
  then show ?thesis by blast
qed

lemma reapable_ids_ok:
  assumes "engine_inv n e sent"
  shows "ok (reapable_ids e) (\<lambda>is. set is = delivered e \<and> distinct is)"
proof -
  let ?s = "en_scheduler e"
  let ?done = "\<lambda>(i, entry). is_terminal (req_state (req_at ?s (ae_request entry))) \<and>
    ae_last_seen_tokens entry \<ge> req_output_tokens_emitted (req_at ?s (ae_request entry))"
  let ?is = "map fst (filter ?done (en_active e))"
  have routes: "routes_inv e sent" using assms by (simp add: engine_inv_def)
  have "deref ?s (ae_request entry) = Inr (req_at ?s (ae_request entry))" if "(i, entry) \<in> set (en_active e)" for i entry
    using that routes by (auto simp: routes_inv_def entry_ok_def Let_def deref_def req_at_def)
  then have m: "map_res (\<lambda>(i, entry). bnd (reapable e entry) (\<lambda>b. Inr (i, b))) (en_active e) =
      Inr (map (\<lambda>x. (fst x, ?done x)) (en_active e))"
    by (intro map_res_Inr) (auto simp: reapable_def)
  have is_eq: "map fst (filter snd (map (\<lambda>x. (fst x, ?done x)) (en_active e))) = ?is"
    by (simp add: filter_map comp_def)
  have "set ?is = delivered e" by (force simp: delivered_def)
  moreover have "distinct ?is" using routes by (auto simp: routes_inv_def intro: distinct_map_filter)
  ultimately show ?thesis unfolding reapable_ids_def m bnd_Inr is_eq by simp
qed

lemma delivered_active: "delivered e \<subseteq> fst ` set (en_active e)"
  by (force simp: delivered_def)

lemma reap_terminal_ok:
  assumes "engine_inv n e sent"
  shows "ok (reap_terminal e) (\<lambda>e'. engine_inv n e' sent \<and> closed_all (delivered e) e e')"
proof -
  obtain "is" where ids: "reapable_ids e = Inr is" "set is = delivered e" "distinct is"
    using reapable_ids_ok [OF assms] by (auto simp: ok_iff)
  have routes: "routes_inv e sent" using assms by (simp add: engine_inv_def)
  have "ok (fold_res close_and_erase is e) (\<lambda>e'. closed_all (delivered e) e e' \<and> routes_inv e' sent)"
    using ok_close_all [OF routes, of "is"] ids delivered_active delivered_untracked [OF assms] by simp
  then show ?thesis
    using assms unfolding reap_terminal_def ids(1) bnd_Inr
    by (elim ok_mono) (auto simp: closed_all_def engine_inv_def)
qed

text \<open>
  What reaping does, entry by entry: an entry that ended goes and its channel is closed; the other
  entries stay with the channels they had, and so do the channels no entry streams to.
\<close>

lemma reap_exact:
  assumes inv: "engine_inv n e sent"
  shows "ok (reap_terminal e) (\<lambda>e'. engine_inv n e' sent \<and>
    (\<exists>chans. e' = e\<lparr>en_active := filter (\<lambda>x. \<not> ended (en_scheduler e) (snd x)) (en_active e), en_channels := chans\<rparr> \<and>
      (\<forall>(i, entry) \<in> set (en_active e). chans (ae_channel entry) =
         (if ended (en_scheduler e) entry then map_option close else id) (en_channels e (ae_channel entry))) \<and>
      (\<forall>c. c \<notin> (ae_channel \<circ> snd) ` set (en_active e) \<longrightarrow> chans c = en_channels e c)))"
proof -
  let ?s = "en_scheduler e"
  have routes: "routes_inv e sent" using inv by (simp add: engine_inv_def)
  have mem: "i \<in> delivered e \<longleftrightarrow> ended ?s entry" if "(i, entry) \<in> set (en_active e)" for i entry
    using that route_unique [OF routes that] by (auto simp: delivered_def ended_def)
  obtain e' where e': "reap_terminal e = Inr e'" "engine_inv n e' sent" "closed_all (delivered e) e e'"
    using reap_terminal_ok [OF inv] by (auto simp: ok_iff)
  obtain chans where upd: "e' = e\<lparr>en_active := filter (\<lambda>(i, _). i \<notin> delivered e) (en_active e), en_channels := chans\<rparr>"
    and chans: "\<And>c. chans c =
      (if \<exists>i entry. (i, entry) \<in> set (en_active e) \<and> i \<in> delivered e \<and> ae_channel entry = c
       then map_option close (en_channels e c) else en_channels e c)"
    using e'(3) by (auto simp: closed_all_def)
  have "filter (\<lambda>(i, _). i \<notin> delivered e) (en_active e) = filter (\<lambda>x. \<not> ended ?s (snd x)) (en_active e)"
    using mem by (auto intro!: filter_cong)
  moreover have "chans (ae_channel entry) = (if ended ?s entry then map_option close else id) (en_channels e (ae_channel entry))"
    if x: "(i, entry) \<in> set (en_active e)" for i entry
  proof -
    have "(\<exists>i' entry'. (i', entry') \<in> set (en_active e) \<and> i' \<in> delivered e \<and>
        ae_channel entry' = ae_channel entry) \<longleftrightarrow> ended ?s entry"
      using mem [OF x] x route_unique [OF routes x] by blast
    then show ?thesis unfolding chans by simp
  qed
  moreover have "chans c = en_channels e c" if "c \<notin> (ae_channel \<circ> snd) ` set (en_active e)" for c
    using that unfolding chans by force
  ultimately show ?thesis using e'(1,2) upd by auto
qed

text \<open>The channel of an entry that ended has carried the whole output.\<close>

lemma ended_stream:
  assumes "engine_inv n e sent" "(i, entry) \<in> set (en_active e)" "ended (en_scheduler e) entry"
  obtains ch where "en_channels e (ae_channel entry) = Some ch"
    and "ae_request entry < length (fs_requests (en_scheduler e))" "id_at (en_scheduler e) (ae_request entry) = i"
    and "stream sent (ae_channel entry) ch = req_output_token_ids (req_at (en_scheduler e) (ae_request entry))"
proof -
  have "entry_ok e sent (i, entry)" "sys_inv n (en_scheduler e, en_world e)"
    using assms(1,2) by (auto simp: engine_inv_def routes_inv_def)
  then show thesis using that assms(3) sys_inv_req by (fastforce simp: entry_ok_def Let_def ended_def)
qed

lemma engine_inv_thread [simp]: "engine_inv n (e\<lparr>en_thread := b\<rparr>) sent = engine_inv n e sent"
  by (simp add: engine_inv_def routes_inv_def entry_ok_def pending_ok_def)

lemma engine_turn_ok:
  assumes "engine_inv n e sent"
  shows "ok (engine_turn be now steady e) (\<lambda>e'. engine_inv n e' sent)"
proof (cases "en_running e")
  case True
  have deliver: "ok (bnd (engine_tick be now e) (\<lambda>e. bnd (push_tokens steady e) (\<lambda>e.
      bnd (check_backpressure be now steady e) reap_terminal))) (\<lambda>e'. engine_inv n e' sent)"
    if "engine_inv n e sent" for e
    using engine_tick_ok [OF that] push_tokens_ok check_backpressure_ok reap_terminal_ok
    by (fastforce simp: ok_iff)
  have "ok (drain_submissions now e) (\<lambda>e1. ok (drain_cancels be now e1) (\<lambda>e2. engine_inv n e2 sent))"
    using drain_submissions_ok [OF assms] drain_cancels_ok by (fastforce simp: ok_iff)
  then show ?thesis
    using True deliver by (auto simp: engine_turn_def elim!: ok_mono)
next
  case False
  then show ?thesis using assms by (simp add: engine_turn_def)
qed


end

end
