(* ===== verification/Scheduler_Props.thy ===== *)
theory Scheduler_Props
  imports Scheduler_Spec
begin

text \<open>
  The scheduler over the mock backend, and the properties of the scheduler over any backend that
  keeps its contract. A property that has hypotheses is followed by its application to a
  concrete run over the mock backend.
\<close>

section \<open>The world of the mock backend\<close>

inductive mock_env :: "MockBackend \<Rightarrow> MockBackend \<Rightarrow> bool" where
  clock_runs: "advance d (mb_clock b) = Inr c \<Longrightarrow> mock_env b (b\<lparr>mb_clock := c\<rparr>)"
| set_eos: "configure_eos h k b = Inr b' \<Longrightarrow> mock_env b b'"
| inject_prefill_error: "mock_env b (fail_next_prefill e b)"
| inject_decode_error: "mock_env b (fail_next_decode e b)"

lemma mock_env_law:
  assumes "mock_inv b" "mock_env b b'"
  shows "mock_inv b' \<and> mock_live b' = mock_live b \<and> mock_room b' = mock_room b \<and> mock_time b \<le> mock_time b'"
  using assms(2,1)
proof (cases rule: mock_env.cases)
  case (clock_runs d c)
  then show ?thesis using assms(1) by (auto simp: advance_iff mock_inv_def mock_view_defs)
next
  case (set_eos h k)
  then show ?thesis
    using assms(1)
    by (auto simp: configure_eos_def panic_def mock_inv_def mock_view_defs insert_absorb
        split: option.splits if_splits)
qed (auto simp: fail_next_prefill_def fail_next_decode_def mock_inv_def mock_view_defs)

interpretation mock_sys: backend_world mock_backend mock_now mock_inv mock_live mock_room mock_time mock_env
  by unfold_locales (rule mock_env_law)

section \<open>Runs\<close>

text \<open>
  A scheduler state and a world that a sequence of calls reaches from a new scheduler over a
  backend with no sequences and room for \<open>n\<close> handles.
\<close>

definition fifo_run ::
  "'w InferenceBackend \<Rightarrow> 'w Clock \<Rightarrow> ('w \<Rightarrow> bool) \<Rightarrow> ('w \<Rightarrow> SequenceHandle set) \<Rightarrow> ('w \<Rightarrow> nat) \<Rightarrow>
   ('w \<Rightarrow> TimePoint) \<Rightarrow> ('w \<Rightarrow> 'w \<Rightarrow> bool) \<Rightarrow> nat \<Rightarrow> FifoScheduler \<Rightarrow> 'w \<Rightarrow> bool" where
  "fifo_run be now winv live room time env n s w \<longleftrightarrow>
     backend_world be now winv live room time env \<and>
     (\<exists>w0. winv w0 \<and> live w0 = {} \<and> n \<le> room w0 \<and>
        sched_reach be now env n (FifoScheduler_new, w0) (s, w))"

lemma fifo_run_world: "fifo_run be now winv live room time env n s w \<Longrightarrow>
    backend_world be now winv live room time env"
  by (simp add: fifo_run_def)

lemma fifo_run_inv:
  assumes "fifo_run be now winv live room time env n s w"
  shows "backend_world.sys_inv winv live room time n (s, w)" and "spec_inv (spec_of s)"
    and "winv w" and "sched_inv (live w) (time w) s" and "queues_inv s"
proof -
  have w: "backend_world be now winv live room time env" by (rule fifo_run_world [OF assms])
  show 1: "backend_world.sys_inv winv live room time n (s, w)" "spec_inv (spec_of s)"
    using assms backend_world.sys_reach [OF w] by (auto simp: fifo_run_def)
  then show "winv w" "sched_inv (live w) (time w) s" "queues_inv s"
    by (auto simp: backend_world.sys_inv_def [OF w] sched_inv_def)
qed

lemma fifo_run_tick:
  assumes "fifo_run be now winv live room time env n s w" "tick be now (s, w) = Inr (rep, s', w')"
  shows "tick_effect (time w) (time w') s rep s'"
  using backend_world.sys_inv_tick [OF fifo_run_world fifo_run_inv(1), OF assms(1) assms(1)] assms(2)
  by simp

text \<open>
  A run over the mock backend to try the properties on: two requests are submitted and ticked
  once, the second runs out of time, and a third and a fourth arrive, the third of them with a
  prefill error ahead.
\<close>

definition demo0 :: "FifoScheduler \<times> MockBackend" where
  "demo0 = (FifoScheduler_new, MockBackend_new (FakeClock_new 0) (ms 1) (ms 5))"

definition demo_submit ::
  "RequestId \<Rightarrow> Duration \<Rightarrow> nat \<Rightarrow> uint32 list \<Rightarrow> FifoScheduler \<times> MockBackend \<Rightarrow> FifoScheduler \<times> MockBackend" where
  "demo_submit i d m prompt sw =
     (let t = fst (mock_now (snd sw))
      in snd (projr (submit mock_now (Request_new i t t d m prompt 0) sw)))"

definition demo_tick :: "FifoScheduler \<times> MockBackend \<Rightarrow> TickReport \<times> FifoScheduler \<times> MockBackend" where
  "demo_tick sw = projr (tick mock_backend mock_now sw)"

definition demo1 :: "FifoScheduler \<times> MockBackend" where
  "demo1 = demo_submit ''a'' (ms 100) 3 [1, 2, 3] demo0"

definition demo2 :: "FifoScheduler \<times> MockBackend" where
  "demo2 = demo_submit ''b'' (ms 15) 4 [4, 5] demo1"

definition demo3 :: "FifoScheduler \<times> MockBackend" where
  "demo3 = snd (demo_tick demo2)"

definition demo4 :: "FifoScheduler \<times> MockBackend" where
  "demo4 = (fst demo3, fail_next_prefill \<lparr>err_category = kOutOfMemory, err_message = ''oom''\<rparr>
     ((snd demo3)\<lparr>mb_clock := \<lparr>current = ms 20\<rparr>\<rparr>))"

definition demo5 :: "FifoScheduler \<times> MockBackend" where
  "demo5 = demo_submit ''d'' (ms 50) 1 [7] (demo_submit ''c'' (ms 50) 1 [6] demo4)"

abbreviation mock_run :: "nat \<Rightarrow> FifoScheduler \<times> MockBackend \<Rightarrow> bool" where
  "mock_run n sw \<equiv>
     fifo_run mock_backend mock_now mock_inv mock_live mock_room mock_time mock_env n (fst sw) (snd sw)"

lemma mock_run_step:
  "mock_run n sw \<Longrightarrow> sched_step mock_backend mock_now mock_env n sw sw' \<Longrightarrow> mock_run n sw'"
  unfolding fifo_run_def by (auto intro: rtranclp.rtrancl_into_rtrancl)

lemma mock_run_submit:
  assumes "mock_run n sw" "length (fs_requests (fst sw)) < n" "0 < m"
    and "i \<notin> id_at (fst sw) ` set (tracked (fst sw))"
  shows "mock_run n (demo_submit i d m prompt sw)"
proof (rule mock_run_step [OF assms(1)])
  obtain s b where sw: "sw = (s, b)" by force
  let ?t = "fake_now (mb_clock b)"
  have "ok (submit mock_now (Request_new i ?t ?t d m prompt 0) (s, b)) (\<lambda>_. True)"
    using assms sw
    by (intro ok_mono [OF mock_sys.sys_inv_submit [of n s b]])
      (auto simp: mock_now_def dest: fifo_run_inv(1))
  then show "sched_step mock_backend mock_now mock_env n sw (demo_submit i d m prompt sw)"
    using assms sw
    by (auto simp: demo_submit_def ok_iff mock_now_def intro!: sched_step.call_submit)
qed

lemma mock_run_tick:
  assumes "mock_run n sw"
  shows "mock_run n (snd (demo_tick sw))"
    and "tick mock_backend mock_now sw = Inr (fst (demo_tick sw), snd (demo_tick sw))"
proof -
  obtain rsw where t: "tick mock_backend mock_now sw = Inr rsw"
    using mock_sys.sys_inv_tick [of n "fst sw" "snd sw"] fifo_run_inv(1) [OF assms]
    by (auto simp: ok_iff)
  then show "tick mock_backend mock_now sw = Inr (fst (demo_tick sw), snd (demo_tick sw))"
    by (simp add: demo_tick_def)
  from t show "mock_run n (snd (demo_tick sw))"
    by (intro mock_run_step [OF assms])
      (metis demo_tick_def prod.collapse sched_step.call_tick sum.sel(2))
qed

lemma demo0_run: "mock_run 9 demo0"
  unfolding fifo_run_def demo0_def
  using mock_sys.backend_world_axioms
  by (auto intro!: exI [of _ "MockBackend_new (FakeClock_new 0) (ms 1) (ms 5)"] mock_inv_new
      simp: ms_def mock_room_def MockBackend_new_def mock_live_def)

lemma demo1_run: "mock_run 9 demo1"
  unfolding demo1_def by (rule mock_run_submit [OF demo0_run]) code_simp+

lemma demo2_run: "mock_run 9 demo2"
  unfolding demo2_def by (rule mock_run_submit [OF demo1_run]) code_simp+

lemma demo3_run: "mock_run 9 demo3"
  unfolding demo3_def by (rule mock_run_tick(1) [OF demo2_run])

lemma demo4_run: "mock_run 9 demo4"
proof -
  have "current (mb_clock (snd demo3)) = ms 10" by code_simp
  then have "advance (ms 10) (mb_clock (snd demo3)) = Inr \<lparr>current = ms 20\<rparr>"
    by (simp add: advance_def ms_def)
  from mock_env.clock_runs [OF this] have "mock_run 9 (fst demo3, (snd demo3)\<lparr>mb_clock := \<lparr>current = ms 20\<rparr>\<rparr>)"
    using mock_run_step [OF demo3_run] sched_step.world_moves [of mock_env] by (metis prod.collapse)
  then show ?thesis
    unfolding demo4_def using mock_run_step sched_step.world_moves [of mock_env] inject_prefill_error
    by (metis fst_conv snd_conv)
qed

lemma demo5_run: "mock_run 9 demo5"
  unfolding demo5_def
  by (rule mock_run_submit, rule mock_run_submit [OF demo4_run]) code_simp+

lemma demo5_tick:
  "tick mock_backend mock_now (fst demo5, snd demo5) =
     Inr (fst (demo_tick demo5), fst (snd (demo_tick demo5)), snd (snd (demo_tick demo5)))"
  using mock_run_tick(2) [OF demo5_run] by simp

section \<open>Properties of every run\<close>

text \<open>
  C1 (no leak, no stray state). After any sequence of submissions, ticks, cancellations and
  moves of the world, over any backend that keeps its contract, the scheduler's state is
  consistent: no pointer dangles or is queued twice, ids in the queues are unique, each queued
  request is in the lifecycle state its queue stands for and within its token budget, every other
  request is terminal, and the handle table owns exactly the handles the backend has out.
\<close>

theorem scheduler_state_consistent:
  assumes "fifo_run be now winv live room time env n s w"
  shows "sched_inv (live w) (time w) s"
  by (rule fifo_run_inv(4) [OF assms])

theorem scheduler_state_consistent_witness:
  "sched_inv (mock_live (snd demo5)) (mock_time (snd demo5)) (fst demo5) \<and>
   fs_decoding (fst demo5) = [0, 1] \<and> fs_waiting (fst demo5) = [2, 3]"
proof -
  have "fs_decoding (fst demo5) = [0, 1]" "fs_waiting (fst demo5) = [2, 3]" by code_simp+
  then show ?thesis using scheduler_state_consistent [OF demo5_run] by blast
qed

text \<open>
  C2 (no call faults). In every reachable state each call a client may make returns: a tick, a
  cancellation of any id, and a submission of a fresh request whose id is not tracked and whose
  token budget is positive. No panic of the lifecycle, of \<open>emit_token\<close> or of the backend and
  no lookup outside a container happens.
\<close>

theorem scheduler_calls_return:
  assumes "fifo_run be now winv live room time env n s w"
  shows "(\<exists>rep s' w'. tick be now (s, w) = Inr (rep, s', w')) \<and>
    (\<forall>i. \<exists>s' w'. cancel be now i (s, w) = Inr (s', w')) \<and>
    (\<forall>i t1 t2 w1 w2 d m prompt prio.
      length (fs_requests s) < n \<and> now w = (t1, w1) \<and> now w1 = (t2, w2) \<and> 0 < m \<and>
      i \<notin> id_at s ` set (tracked s) \<longrightarrow>
      (\<exists>s' w'. submit now (Request_new i t1 t2 d m prompt prio) (s, w2) =
        Inr (length (fs_requests s), s', w')))"
proof (intro conjI allI impI)
  note world = fifo_run_world [OF assms] and inv = fifo_run_inv(1) [OF assms]
  show "\<exists>rep s' w'. tick be now (s, w) = Inr (rep, s', w')"
    using backend_world.sys_inv_tick [OF world inv] by (auto simp: ok_iff)
  show "\<exists>s' w'. cancel be now i (s, w) = Inr (s', w')" for i
    using backend_world.sys_inv_cancel [OF world inv, of i] by (auto simp: ok_iff)
  show "\<exists>s' w'. submit now (Request_new i t1 t2 d m prompt prio) (s, w2) =
      Inr (length (fs_requests s), s', w')"
    if "length (fs_requests s) < n \<and> now w = (t1, w1) \<and> now w1 = (t2, w2) \<and> 0 < m \<and>
      i \<notin> id_at s ` set (tracked s)" for i t1 t2 w1 w2 d m prompt prio
    using backend_world.sys_inv_submit [OF world inv, of t1 w1 t2 w2 m i d prompt prio] that
    by (auto simp: ok_iff)
qed

theorem scheduler_calls_return_witness:
  "(\<exists>rep s' w'. tick mock_backend mock_now demo5 = Inr (rep, s', w')) \<and>
   (\<exists>s' w'. cancel mock_backend mock_now ''b'' demo5 = Inr (s', w')) \<and>
   (\<exists>s' w'. submit mock_now (Request_new ''e'' (ms 20) (ms 20) (ms 9) 7 [1] 0) demo5 = Inr (4, s', w'))"
proof -
  have "fake_now (mb_clock (snd demo5)) = ms 20" by code_simp
  then have "mock_now (snd demo5) = (ms 20, snd demo5)" by (simp add: mock_now_def)
  moreover have "length (fs_requests (fst demo5)) = 4"
    "''e'' \<notin> id_at (fst demo5) ` set (tracked (fst demo5))" by code_simp+
  ultimately show ?thesis
    using scheduler_calls_return [OF demo5_run] by fastforce
qed

text \<open>
  C4 (first in, first out). In every reachable state the requests are served in the order they
  were submitted: what is decoding was submitted before what waits, and each queue is in
  submission order.
\<close>

theorem scheduler_fifo_order:
  assumes "fifo_run be now winv live room time env n s w"
  shows "sorted_wrt (<) (fs_decoding s @ fs_waiting s)"
  using fifo_run_inv(2) [OF assms] by (simp add: spec_inv_def spec_of_def fifo_line_def)

theorem scheduler_fifo_order_witness:
  "sorted_wrt (<) (fs_decoding (fst demo5) @ fs_waiting (fst demo5))"
  by (rule scheduler_fifo_order [OF demo5_run])



text \<open>
  C5 (what a tick does). A tick empties the waiting queue and serves every tracked request
  exactly once: the request either fails with its tokens untouched, or emits exactly one token
  and is then completed or still decoding; its id, prompt, budget and deadline stay the same.
  Requests that had already left are not touched.
\<close>

theorem tick_serves_everyone_once:
  assumes "fifo_run be now winv live room time env n s w"
    and "tick be now (s, w) = Inr (rep, s', w')"
  shows "fs_waiting s' = [] \<and> subseq (fs_decoding s') (fs_decoding s @ fs_waiting s) \<and>
    (\<forall>p < length (fs_requests s).
       if p \<in> set (tracked s) then ticked s s' p else req_at s' p = req_at s p)"
  using tick_effect_queues [OF fifo_run_tick [OF assms] fifo_run_inv(5) [OF assms(1)]]
    tick_effect_requests [OF fifo_run_tick [OF assms] fifo_run_inv(5) [OF assms(1)]]
  by (simp add: fifo_line_def)

theorem tick_serves_everyone_once_witness:
  "fs_waiting (fst (snd (demo_tick demo5))) = [] \<and>
   ticked (fst demo5) (fst (snd (demo_tick demo5))) 2"
proof -
  have "2 \<in> set (tracked (fst demo5))" "2 < length (fs_requests (fst demo5))" by code_simp+
  then show ?thesis using tick_serves_everyone_once [OF demo5_run demo5_tick] by fastforce
qed

text \<open>
  C7 (deadlines). A tracked request whose deadline has passed when the tick begins is failed by
  that tick, leaves the queues and gets no further token.
\<close>

theorem tick_fails_expired:
  assumes "fifo_run be now winv live room time env n s w"
    and "tick be now (s, w) = Inr (rep, s', w')"
    and "p \<in> set (tracked s)" "req_deadline_at (req_at s p) < time w"
  shows "req_state (req_at s' p) = kFailed \<and> p \<notin> set (tracked s') \<and>
    req_output_token_ids (req_at s' p) = req_output_token_ids (req_at s p)"
  using tick_effect_requests(2) [OF fifo_run_tick [OF assms(1,2)] fifo_run_inv(5) [OF assms(1)] assms(3,4)]
    tick_effect_queues(1) [OF fifo_run_tick [OF assms(1,2)] fifo_run_inv(5) [OF assms(1)]]
  by (simp add: tracked_def)

theorem tick_fails_expired_witness:
  "req_state (req_at (fst (snd (demo_tick demo5))) 1) = kFailed \<and>
   req_output_token_ids (req_at (fst (snd (demo_tick demo5))) 1) = [1]"
proof -
  have "1 \<in> set (tracked (fst demo5))"
    "req_deadline_at (req_at (fst demo5) 1) < mock_time (snd demo5)"
    "req_output_token_ids (req_at (fst demo5) 1) = [1]" by code_simp+
  then show ?thesis using tick_fails_expired [OF demo5_run demo5_tick] by simp
qed

text \<open>
  C9 (the report adds up). The counters of the report account for every request that was tracked
  when the tick began: each is expired, failed in prefill, completed, failed in decode or still
  decoding, and the sub-totals of the prefill and decode phases agree.
\<close>

theorem tick_report_adds_up:
  assumes "fifo_run be now winv live room time env n s w"
    and "tick be now (s, w) = Inr (rep, s', w')"
  shows "tr_prefill_attempted rep = tr_prefill_succeeded rep + tr_prefill_failed rep \<and>
    tr_decode_tokens rep = tr_decode_attempted rep \<and>
    tr_decode_attempted rep = tr_decode_completed rep + tr_decode_failed rep + decoding_count s' \<and>
    waiting_count s + decoding_count s = tr_expired_count rep + tr_prefill_failed rep +
      tr_decode_completed rep + tr_decode_failed rep + decoding_count s'"
  using tick_effect_accounting [OF fifo_run_tick [OF assms] fifo_run_inv(5) [OF assms(1)]]
  by (simp add: tracked_def waiting_count_def decoding_count_def)

theorem tick_report_adds_up_witness:
  "tr_expired_count (fst (demo_tick demo5)) = 1 \<and> tr_prefill_failed (fst (demo_tick demo5)) = 1 \<and>
   tr_decode_completed (fst (demo_tick demo5)) + decoding_count (fst (snd (demo_tick demo5))) = 2"
proof -
  have "waiting_count (fst demo5) + decoding_count (fst demo5) = 4"
    "tr_expired_count (fst (demo_tick demo5)) = 1" "tr_prefill_failed (fst (demo_tick demo5)) = 1"
    "tr_decode_failed (fst (demo_tick demo5)) = 0" by code_simp+
  then show ?thesis using tick_report_adds_up [OF demo5_run demo5_tick] by simp
qed

text \<open>
  C8 (cancellation). Cancelling the id of a tracked request ends exactly that request as
  cancelled, with the tokens it has, takes it out of its queue and gives its handle back to the
  backend; every other request is untouched. Cancelling any other id changes nothing.
\<close>

theorem cancel_ends_only_that_request:
  assumes "fifo_run be now winv live room time env n s w"
    and "cancel be now i (s, w) = Inr (s', w')"
  shows "if i \<in> id_at s ` set (tracked s)
    then \<exists>p \<in> set (tracked s). id_at s p = i \<and> req_state (req_at s' p) = kCancelled \<and>
      req_output_token_ids (req_at s' p) = req_output_token_ids (req_at s p) \<and>
      fs_waiting s' = remove1 p (fs_waiting s) \<and> fs_decoding s' = remove1 p (fs_decoding s) \<and>
      fs_handles s' = (fs_handles s)(i := None) \<and> live w' = live w - set_option (fs_handles s i) \<and>
      (\<forall>q < length (fs_requests s). q \<noteq> p \<longrightarrow> req_at s' q = req_at s q)
    else s' = s \<and> w' = w"
proof -
  note world = fifo_run_world [OF assms(1)]
  have "backend_contract.cancelled winv live room time i (s, w) (s', w')"
    using backend_world.sys_inv_cancel [OF world fifo_run_inv(1) [OF assms(1)], of i] assms(2) by simp
  note c = this [unfolded backend_contract.cancelled_def [OF backend_world.axioms(1) [OF world]]]
  show ?thesis
  proof (cases "i \<in> id_at s ` set (tracked s)")
    case True
    then obtain p r where p: "p \<in> set (tracked s)" "id_at s p = i"
      and r: "with_lifecycle kCancelled (req_at s p) r" "s' = untrack p r s"
        "live w' = live w - set_option (fs_handles s i)"
      using c by auto
    have "p < length (fs_requests s)" by (rule tracked_lt [OF fifo_run_inv(5) [OF assms(1)] p(1)])
    then have "req_at s' p = r" "q \<noteq> p \<Longrightarrow> req_at s' q = req_at s q" for q
      using r(2) by (simp_all add: req_at_def untrack_def)
    moreover have "req_id r = i" using with_lifecycle_sel(2) [OF r(1)] p(2) by (simp add: id_at_def)
    ultimately show ?thesis
      using True p r with_lifecycle_sel [OF r(1)] by (auto intro!: bexI [of _ p])
  next
    case False
    then show ?thesis using c by simp
  qed
qed

theorem cancel_ends_only_that_request_witness:
  "\<exists>s' w'. cancel mock_backend mock_now ''a'' demo5 = Inr (s', w') \<and>
     mock_live w' = mock_live (snd demo5) - set_option (fs_handles (fst demo5) ''a'')"
proof -
  have mem: "''a'' \<in> id_at (fst demo5) ` set (tracked (fst demo5))" by code_simp
  obtain s' w' where c: "cancel mock_backend mock_now ''a'' (fst demo5, snd demo5) = Inr (s', w')"
    using mock_sys.sys_inv_cancel [OF fifo_run_inv(1) [OF demo5_run], of "''a''"]
    by (auto simp: ok_iff)
  show ?thesis using cancel_ends_only_that_request [OF demo5_run c] mem c by auto
qed

text \<open>
  C6 (every request ends). With nothing new submitted, as many ticks as the largest remaining
  token budget bring every request to a terminal state, leave both queues empty and every
  handle released, whatever the backend answers.
\<close>

theorem ticks_drain_scheduler:
  assumes "fifo_run be now winv live room time env n s w"
    and "\<forall>p \<in> set (tracked s). remaining s p \<le> k"
  shows "\<exists>s' w'. ticks be now k (s, w) = Inr (s', w') \<and> waiting_count s' = 0 \<and> decoding_count s' = 0 \<and>
    live w' = {} \<and> (\<forall>p < length (fs_requests s). is_terminal (req_state (req_at s' p)))"
proof -
  note world = fifo_run_world [OF assms(1)]
  obtain s' w' where t: "ticks be now k (s, w) = Inr (s', w')" and e: "tracked s' = []"
    and len: "length (fs_requests s') = length (fs_requests s)"
    and "backend_world.sys_inv winv live room time n (s', w')"
    using backend_world.sys_drain [OF world fifo_run_inv(1) [OF assms(1)] assms(2)]
    by (auto simp: ok_iff)
  then have inv: "sched_inv (live w') (time w') s'"
    by (simp add: backend_world.sys_inv_def [OF world])
  have qs: "fs_waiting s' = []" "fs_decoding s' = []" using e by (auto simp: tracked_def)
  then have "live w' = {}" using inv by (auto simp: sched_inv_def handles_inv_def)
  then show ?thesis
    using t qs len inv
    by (auto simp: waiting_count_def decoding_count_def sched_inv_def requests_inv_def status_ok_def)
qed

theorem ticks_drain_scheduler_witness:
  "\<exists>s' w'. ticks mock_backend mock_now 3 demo5 = Inr (s', w') \<and> decoding_count s' = 0 \<and> mock_live w' = {}"
proof -
  have "\<forall>p \<in> set (tracked (fst demo5)). remaining (fst demo5) p \<le> 3" by code_simp
  from ticks_drain_scheduler [OF demo5_run this] show ?thesis by auto
qed

section \<open>What submit does not check\<close>



text \<open>
  A repeated id leaks a sequence. When two live requests with the same id finish in the
  same tick, only the shared handle is released: both requests are terminal and nothing is
  queued, but the backend still holds the second sequence, which nobody can release any more.
\<close>

theorem duplicate_id_leaks:
  "\<exists>rep s w. tick mock_backend mock_now
       (demo_submit ''a'' (ms 100) 1 [2] (demo_submit ''a'' (ms 100) 1 [1] demo0)) = Inr (rep, s, w) \<and>
     tracked s = [] \<and> fs_handles s ''a'' = None \<and> SequenceHandle 1 \<in> mock_live w"
proof -
  let ?x = "demo_tick (demo_submit ''a'' (ms 100) 1 [2] (demo_submit ''a'' (ms 100) 1 [1] demo0))"
  have "\<not> isl (tick mock_backend mock_now
      (demo_submit ''a'' (ms 100) 1 [2] (demo_submit ''a'' (ms 100) 1 [1] demo0)))"
    "tracked (fst (snd ?x)) = []" "fs_handles (fst (snd ?x)) ''a'' = None"
    "mb_sequences (snd (snd ?x)) 1 \<noteq> None" by code_simp+
  then show ?thesis
    by (auto simp: demo_tick_def mem_mock_live isl_def split: sum.splits
        intro!: exI [of _ "fst ?x"] exI [of _ "fst (snd ?x)"] exI [of _ "snd (snd ?x)"])
qed

end
