(* ===== verification/Engine_Props.thy ===== *)
theory Engine_Props
  imports Engine_Inv Scheduler_Props "HOL-Library.Multiset"
begin

text \<open>
  The engine among its callers: what network threads, consumers and the world do, and runs in which a
  turn of the engine thread is one step. The lemmas hold in every state such steps reach, over any
  backend that keeps its contract; \<open>Engine_Thread\<close> refines the turn into its steps.
\<close>

section \<open>Steps\<close>

text \<open>
  What the network threads, the consumers and the world do beside the engine thread. \<open>busy\<close> are
  the submissions the engine thread has taken from the queue and not yet admitted. What callers are
  relied on for: an id that is not in use, a positive token budget, and a channel of its own for
  each submission that stays alive while the engine refers to it. A submission is pushed whether or
  not the engine still runs: \<open>submit\<close> reads \<open>running_\<close> before it takes the lock.
\<close>

inductive caller_step ::
  "('w \<Rightarrow> 'w \<Rightarrow> bool) \<Rightarrow> nat \<Rightarrow> Submission list \<Rightarrow>
   'w Engine \<times> stream_log \<Rightarrow> 'w Engine \<times> stream_log \<Rightarrow> bool"
  for env n busy where
  net_stop: "caller_step env n busy (e, sent) (engine_stop e, sent)"
| net_submit: "length (fs_requests (en_scheduler e)) + length (busy @ en_pending_submissions e) < n \<Longrightarrow>
    0 < sub_max_tokens sub \<Longrightarrow>
    sub_id sub \<notin> fst ` set (en_active e) \<union> sub_id ` set (busy @ en_pending_submissions e) \<Longrightarrow>
    sub_channel sub \<notin> (ae_channel \<circ> snd) ` set (en_active e) \<union>
      sub_channel ` set (busy @ en_pending_submissions e) \<Longrightarrow>
    en_channels e (sub_channel sub) = Some ch \<Longrightarrow> stream sent (sub_channel sub) ch = [] \<Longrightarrow>
    caller_step env n busy (e, sent) (push_submission sub e, sent)"
| net_cancel: "caller_step env n busy (e, sent) (engine_cancel i e, sent)"
| new_channel: "en_channels e c = None \<Longrightarrow> sent c = [] \<Longrightarrow>
    caller_step env n busy (e, sent) (e\<lparr>en_channels := (en_channels e)(c \<mapsto> TokenChannel_new k)\<rparr>, sent)"
| consumer_pop: "en_channels e c = Some ch \<Longrightarrow> pop ch = Some (Some ev, ch') \<Longrightarrow>
    caller_step env n busy (e, sent)
      (e\<lparr>en_channels := (en_channels e)(c \<mapsto> ch')\<rparr>, sent(c := sent c @ [ev]))"
| consumer_close: "en_channels e c = Some ch \<Longrightarrow>
    caller_step env n busy (e, sent) (e\<lparr>en_channels := (en_channels e)(c \<mapsto> close ch)\<rparr>, sent)"
| world_moves: "env (en_world e) w' \<Longrightarrow> caller_step env n busy (e, sent) (e\<lparr>en_world := w'\<rparr>, sent)"

text \<open>The system with a turn of the engine thread as one step: consumers run between turns.\<close>

inductive engine_step ::
  "'w InferenceBackend \<Rightarrow> 'w Clock \<Rightarrow> ('w \<Rightarrow> 'w \<Rightarrow> bool) \<Rightarrow> 'w Clock \<Rightarrow> nat \<Rightarrow>
   'w Engine \<times> stream_log \<Rightarrow> 'w Engine \<times> stream_log \<Rightarrow> bool"
  for be now env steady n where
  net_start: "\<not> en_thread e \<Longrightarrow> engine_step be now env steady n (e, sent) (engine_start e, sent)"
| callers: "caller_step env n [] x y \<Longrightarrow> engine_step be now env steady n x y"
| thread_turn: "en_thread e \<Longrightarrow> engine_turn be now steady e = Inr e' \<Longrightarrow>
    engine_step be now env steady n (e, sent) (e', sent)"
| map_reorders: "mset act = mset (en_active e) \<Longrightarrow>
    engine_step be now env steady n (e, sent) (e\<lparr>en_active := act\<rparr>, sent)"

lemma routes_inv_pop:
  assumes "routes_inv e sent" "en_channels e c = Some ch" "pop ch = Some (Some ev, ch')"
  shows "routes_inv (e\<lparr>en_channels := (en_channels e)(c \<mapsto> ch')\<rparr>) (sent(c := sent c @ [ev]))"
proof -
  let ?e = "e\<lparr>en_channels := (en_channels e)(c \<mapsto> ch')\<rparr>" and ?sent = "sent(c := sent c @ [ev])"
  have "ch_buffer ch = ev # ch_buffer ch'"
    using assms(3) by (auto simp: pop_def split: if_splits list.splits)
  then have st: "stream ?sent c ch' = stream sent c ch" by (simp add: stream_def)
  have other: "d \<noteq> c \<Longrightarrow> stream ?sent d = stream sent d" for d by (simp add: stream_def fun_eq_iff)
  have "entry_ok ?e ?sent x" if "entry_ok e sent x" for x
  proof (cases "ae_channel (snd x) = c")
    case True
    then show ?thesis using that assms(2) st by (cases x) (simp add: entry_ok_def Let_def)
  next
    case False
    then show ?thesis using that other by (cases x) (simp add: entry_ok_def Let_def)
  qed
  moreover have "pending_ok ?e ?sent sub" if "pending_ok e sent sub" for sub
    using that assms(2) st other by (cases "sub_channel sub = c") (simp_all add: pending_ok_def)
  ultimately show ?thesis using assms(1) by (simp add: routes_inv_def)
qed

lemma routes_inv_new_channel:
  assumes "routes_inv e sent" "en_channels e c = None"
  shows "routes_inv (e\<lparr>en_channels := (en_channels e)(c \<mapsto> ch)\<rparr>) sent"
proof -
  have "entry_ok (e\<lparr>en_channels := (en_channels e)(c \<mapsto> ch)\<rparr>) sent x" if "entry_ok e sent x" for x
    using that assms(2) by (cases x) (auto simp: entry_ok_def Let_def)
  moreover have "pending_ok (e\<lparr>en_channels := (en_channels e)(c \<mapsto> ch)\<rparr>) sent sub" if "pending_ok e sent sub" for sub
    using that assms(2) by (auto simp: pending_ok_def)
  ultimately show ?thesis using assms(1) by (simp add: routes_inv_def)
qed

lemma routes_inv_reorder:
  assumes "routes_inv e sent" "mset act = mset (en_active e)"
  shows "routes_inv (e\<lparr>en_active := act\<rparr>) sent"
proof -
  have s: "set act = set (en_active e)" using assms(2) by (rule mset_eq_setD)
  have "mset (map fst act) = mset (map fst (en_active e))"
    "mset (map (ae_channel \<circ> snd) act) = mset (map (ae_channel \<circ> snd) (en_active e))"
    using assms(2) by simp_all
  note this [THEN mset_eq_imp_distinct_iff]
  then show ?thesis
    using assms(1) s by (auto simp: routes_inv_def entry_ok_def pending_ok_def)
qed

lemma engine_start_routes [simp]: "routes_inv (e\<lparr>en_running := a, en_thread := b\<rparr>) sent = routes_inv e sent"
  by (simp add: routes_inv_def entry_ok_def pending_ok_def)

lemma engine_stop_routes [simp]: "routes_inv (e\<lparr>en_running := a\<rparr>) sent = routes_inv e sent"
  by (simp add: routes_inv_def entry_ok_def pending_ok_def)

lemma engine_world_routes [simp]: "routes_inv (e\<lparr>en_world := w\<rparr>) sent = routes_inv e sent"
  by (simp add: routes_inv_def entry_ok_def pending_ok_def)

lemma routes_inv_submit:
  assumes "routes_inv e sent" "0 < sub_max_tokens sub"
    and "sub_id sub \<notin> fst ` set (en_active e) \<union> sub_id ` set (en_pending_submissions e)"
    and "sub_channel sub \<notin> (ae_channel \<circ> snd) ` set (en_active e) \<union> sub_channel ` set (en_pending_submissions e)"
    and "en_channels e (sub_channel sub) = Some ch" "stream sent (sub_channel sub) ch = []"
  shows "routes_inv (e\<lparr>en_pending_submissions := en_pending_submissions e @ [sub]\<rparr>) sent"
proof -
  let ?e = "e\<lparr>en_pending_submissions := en_pending_submissions e @ [sub]\<rparr>"
  have "distinct (map fst (en_active e) @ map sub_id (en_pending_submissions e @ [sub]))"
    "distinct (map (ae_channel \<circ> snd) (en_active e) @ map sub_channel (en_pending_submissions e @ [sub]))"
    using assms(1,3,4) by (auto simp: routes_inv_def)
  moreover have "\<forall>x \<in> set (en_active e). entry_ok ?e sent x"
    using assms(1) by (auto simp: routes_inv_def entry_ok_def)
  moreover have "\<forall>s \<in> set (en_pending_submissions e @ [sub]). pending_ok ?e sent s"
    using assms by (auto simp: routes_inv_def pending_ok_def)
  ultimately show ?thesis using assms(1) by (simp add: routes_inv_def)
qed

context engine_world
begin

lemma caller_step_inv:
  assumes "caller_step env n [] (e, sent) (e', sent')" "engine_inv n e sent"
  shows "engine_inv n e' sent'"
  using assms(1)
proof (cases rule: caller_step.cases)
  case net_stop
  then show ?thesis using assms(2) by (simp add: engine_stop_def engine_inv_def)
next
  case (net_submit sub ch)
  have "routes_inv e' sent'"
    unfolding net_submit push_submission_def using assms(2) net_submit
    by (intro routes_inv_submit [of _ _ _ ch]) (auto simp: engine_inv_def)
  then show ?thesis using assms(2) net_submit(1-3) by (simp add: engine_inv_def push_submission_def)
next
  case (net_cancel i)
  then show ?thesis using assms(2) by (simp add: engine_cancel_def)
next
  case (new_channel c k)
  then show ?thesis using assms(2) routes_inv_new_channel by (auto simp: engine_inv_def)
next
  case (consumer_pop c ch ev ch')
  then show ?thesis using assms(2) routes_inv_pop by (auto simp: engine_inv_def)
next
  case (consumer_close c ch)
  then show ?thesis using assms(2) routes_inv_close by (auto simp: engine_inv_def)
next
  case (world_moves w')
  then show ?thesis using assms(2) sys_inv_env by (auto simp: engine_inv_def)
qed

lemma engine_inv_start: "engine_inv n (engine_start e) sent = engine_inv n e sent"
  by (simp add: engine_start_def engine_inv_def)

lemma engine_inv_reorder:
  "engine_inv n e sent \<Longrightarrow> mset act = mset (en_active e) \<Longrightarrow> engine_inv n (e\<lparr>en_active := act\<rparr>) sent"
  using routes_inv_reorder [of e sent act] by (simp add: engine_inv_def)

lemma engine_step_inv:
  assumes "engine_step be now env steady n (e, sent) (e', sent')" "engine_inv n e sent"
  shows "engine_inv n e' sent'"
  using assms(1)
proof (cases rule: engine_step.cases)
  case net_start
  then show ?thesis using assms(2) by (simp add: engine_inv_start)
next
  case callers
  then show ?thesis by (rule caller_step_inv [OF _ assms(2)])
next
  case thread_turn
  then show ?thesis using engine_turn_ok [OF assms(2)] by simp
next
  case (map_reorders act)
  then show ?thesis using assms(2) by (simp add: engine_inv_reorder)
qed

lemma engine_inv_new:
  assumes "winv w" "live w = {}" "n \<le> room w"
  shows "engine_inv n (Engine_new cfg Map.empty w) sent"
  using sys_inv_new [OF assms]
  by (simp add: engine_inv_def Engine_new_def routes_inv_def FifoScheduler_new_def tracked_def)

lemma engine_reach_inv:
  assumes "(engine_step be now env steady n)\<^sup>*\<^sup>* (Engine_new cfg Map.empty w0, sent0) (e, sent)"
    and "winv w0" "live w0 = {}" "n \<le> room w0"
  shows "engine_inv n e sent"
  using assms(1)
  by (induction rule: rtranclp_induct2)
    (auto intro: engine_inv_new [OF assms(2-4)] engine_step_inv)

end

interpretation mock_engine: engine_world mock_backend mock_now mock_inv mock_live mock_room mock_time
  mock_env mock_now
  by unfold_locales (auto simp: mock_now_def)

section \<open>Runs\<close>

definition engine_run ::
  "'w InferenceBackend \<Rightarrow> 'w Clock \<Rightarrow> ('w \<Rightarrow> bool) \<Rightarrow> ('w \<Rightarrow> SequenceHandle set) \<Rightarrow> ('w \<Rightarrow> nat) \<Rightarrow>
   ('w \<Rightarrow> TimePoint) \<Rightarrow> ('w \<Rightarrow> 'w \<Rightarrow> bool) \<Rightarrow> 'w Clock \<Rightarrow> nat \<Rightarrow> 'w Engine \<Rightarrow> stream_log \<Rightarrow> bool" where
  "engine_run be now winv live room time env steady n e sent \<longleftrightarrow>
     engine_world be now winv live room time env steady \<and>
     (\<exists>cfg w0. winv w0 \<and> live w0 = {} \<and> n \<le> room w0 \<and>
        (engine_step be now env steady n)\<^sup>*\<^sup>* (Engine_new cfg Map.empty w0, \<lambda>_. []) (e, sent))"

lemma engine_run_world:
  "engine_run be now winv live room time env steady n e sent \<Longrightarrow> engine_world be now winv live room time env steady"
  by (simp add: engine_run_def)

lemma engine_run_inv:
  assumes "engine_run be now winv live room time env steady n e sent"
  shows "engine_world.engine_inv winv live room time n e sent" and "routes_inv e sent"
proof -
  have w: "engine_world be now winv live room time env steady" by (rule engine_run_world [OF assms])
  show 1: "engine_world.engine_inv winv live room time n e sent"
    using assms engine_world.engine_reach_inv [OF w] by (auto simp: engine_run_def)
  then show "routes_inv e sent" by (simp add: engine_world.engine_inv_def [OF w])
qed

text \<open>
  A run over the mock backend: one request of five tokens with a deadline of 12 ms, on a channel
  with a single slot that nobody reads for four turns.
\<close>

abbreviation mock_engine_run :: "nat \<Rightarrow> MockBackend Engine \<times> stream_log \<Rightarrow> bool" where
  "mock_engine_run n x \<equiv>
     engine_run mock_backend mock_now mock_inv mock_live mock_room mock_time mock_env mock_now n (fst x) (snd x)"

definition demo_turn :: "MockBackend Engine \<Rightarrow> MockBackend Engine" where
  "demo_turn e = projr (engine_turn mock_backend mock_now mock_now e)"

definition demo_pop :: "ChanPtr \<Rightarrow> MockBackend Engine \<times> stream_log \<Rightarrow> MockBackend Engine \<times> stream_log" where
  "demo_pop c x =
     (case x of (e, sent) \<Rightarrow>
        case pop (the (en_channels e c)) of
          Some (Some ev, ch) \<Rightarrow> (e\<lparr>en_channels := (en_channels e)(c \<mapsto> ch)\<rparr>, sent(c := sent c @ [ev]))
        | _ \<Rightarrow> x)"

definition demo_sub :: Submission where
  "demo_sub = \<lparr>sub_id = ''a'', sub_prompt_token_ids = [9], sub_max_tokens = 5, sub_deadline = ms 12,
     sub_channel = 0\<rparr>"

definition demo_e0 :: "MockBackend Engine \<times> stream_log" where
  "demo_e0 = (engine_start (Engine_new EngineConfig_default Map.empty
     (MockBackend_new (FakeClock_new 0) (ms 1) (ms 5))), \<lambda>_. [])"

definition demo_e1 :: "MockBackend Engine \<times> stream_log" where
  "demo_e1 = (snd (engine_submit demo_sub
     ((fst demo_e0)\<lparr>en_channels := (en_channels (fst demo_e0))(0 \<mapsto> TokenChannel_new 1)\<rparr>)), snd demo_e0)"

definition demo_e2 :: "MockBackend Engine \<times> stream_log" where
  "demo_e2 = (demo_turn (demo_turn (demo_turn (demo_turn (fst demo_e1)))), snd demo_e1)"

definition demo_e3 :: "MockBackend Engine \<times> stream_log" where
  "demo_e3 = (case demo_pop 0 demo_e2 of (e, sent) \<Rightarrow> demo_pop 0 (demo_turn e, sent))"

definition demo_e4 :: "MockBackend Engine \<times> stream_log" where
  "demo_e4 = (case demo_e3 of (e, sent) \<Rightarrow> demo_pop 0 (demo_turn e, sent))"

lemma mock_engine_step:
  "mock_engine_run n x \<Longrightarrow> engine_step mock_backend mock_now mock_env mock_now n x y \<Longrightarrow> mock_engine_run n y"
  unfolding engine_run_def by (auto intro: rtranclp.rtrancl_into_rtrancl)

lemma mock_engine_turn:
  assumes "mock_engine_run n (e, sent)" "en_thread e"
  shows "mock_engine_run n (demo_turn e, sent)"
proof -
  have "engine_turn mock_backend mock_now mock_now e = Inr (demo_turn e)"
    using mock_engine.engine_turn_ok [OF engine_run_inv(1) [OF assms(1)]] by (auto simp: demo_turn_def ok_iff)
  then show ?thesis by (intro mock_engine_step [OF assms(1)] engine_step.thread_turn [OF assms(2)])
qed

lemma mock_engine_pop:
  assumes "mock_engine_run n x" "en_channels (fst x) c \<noteq> None"
  shows "mock_engine_run n (demo_pop c x)"
proof -
  obtain e sent where x: "x = (e, sent)" by force
  obtain ch where ch: "en_channels e c = Some ch" using assms(2) x by auto
  show ?thesis
  proof (cases "\<exists>ev ch'. pop ch = Some (Some ev, ch')")
    case True
    then obtain ev ch' where p: "pop ch = Some (Some ev, ch')" by blast
    then show ?thesis
      using mock_engine_step [OF assms(1)] engine_step.callers [OF caller_step.consumer_pop [OF ch p]] x ch
      by (fastforce simp: demo_pop_def)
  next
    case False
    then have "demo_pop c x = x" by (auto simp: demo_pop_def x ch split: option.splits)
    then show ?thesis using assms(1) by simp
  qed
qed

lemma demo_e0_run: "mock_engine_run 9 demo_e0"
proof -
  let ?b = "MockBackend_new (FakeClock_new 0) (ms 1) (ms 5)"
  have "mock_inv ?b" by (simp add: mock_inv_new ms_def)
  moreover have "9 \<le> mock_room ?b" by (simp add: mock_room_def MockBackend_new_def)
  ultimately have "mock_engine_run 9 (Engine_new EngineConfig_default Map.empty ?b, \<lambda>_. [])"
    unfolding engine_run_def using mock_engine.engine_world_axioms
    by (auto intro!: exI [of _ EngineConfig_default] exI [of _ ?b])
  then show ?thesis
    unfolding demo_e0_def by (rule mock_engine_step) (simp add: engine_step.net_start Engine_new_def)
qed

lemma demo_e1_run: "mock_engine_run 9 demo_e1"
proof -
  let ?e = "(fst demo_e0)\<lparr>en_channels := (en_channels (fst demo_e0))(0 \<mapsto> TokenChannel_new 1)\<rparr>"
  have e0: "demo_e0 = (fst demo_e0, \<lambda>_. [])" by (simp add: demo_e0_def)
  have "engine_step mock_backend mock_now mock_env mock_now 9 demo_e0 (?e, \<lambda>_. [])"
    by (subst e0, rule engine_step.callers [OF caller_step.new_channel]) (simp_all add: demo_e0_def engine_start_def Engine_new_def)
  then have e: "mock_engine_run 9 (?e, \<lambda>_. [])" by (rule mock_engine_step [OF demo_e0_run])
  have "engine_step mock_backend mock_now mock_env mock_now 9 (?e, \<lambda>_. []) demo_e1"
    unfolding demo_e1_def
    by (subst e0, simp only: snd_conv, rule engine_step.callers,
        simp add: demo_e0_def engine_start_def Engine_new_def engine_submit_def, rule caller_step.net_submit [where ch = "TokenChannel_new 1"])
      (auto simp: demo_sub_def Engine_new_def stream_def
        TokenChannel_new_def FifoScheduler_new_def)
  then show ?thesis by (rule mock_engine_step [OF e])
qed

lemma demo_e2_run: "mock_engine_run 9 demo_e2"
proof -
  have "mock_engine_run 9 (fst demo_e1, snd demo_e1)" using demo_e1_run by simp
  moreover have "en_thread (fst demo_e1)" "en_thread (demo_turn (fst demo_e1))"
    "en_thread (demo_turn (demo_turn (fst demo_e1)))"
    "en_thread (demo_turn (demo_turn (demo_turn (fst demo_e1))))" by code_simp+
  ultimately show ?thesis unfolding demo_e2_def by (intro mock_engine_turn)
qed

lemma demo_e3_run: "mock_engine_run 9 demo_e3"
proof -
  have "mock_engine_run 9 (demo_pop 0 demo_e2)" by (rule mock_engine_pop [OF demo_e2_run]) code_simp
  then have "mock_engine_run 9 (fst (demo_pop 0 demo_e2), snd (demo_pop 0 demo_e2))" by simp
  then have "mock_engine_run 9 (demo_turn (fst (demo_pop 0 demo_e2)), snd (demo_pop 0 demo_e2))"
    by (rule mock_engine_turn) code_simp
  then show ?thesis
    unfolding demo_e3_def case_prod_unfold by (rule mock_engine_pop) code_simp
qed

section \<open>Properties\<close>

text \<open>
  The engine thread never faults. In every reachable state of the engine, whatever the
  clients and consumers have done, a turn of the engine loop returns: no panic, no throw from
  \<open>active_.at\<close>, no dangling channel or request pointer.
\<close>

theorem engine_turn_returns:
  assumes "engine_run be now winv live room time env steady n e sent"
  shows "\<exists>e'. engine_turn be now steady e = Inr e'"
  using engine_world.engine_turn_ok [OF engine_run_world engine_run_inv(1), OF assms assms]
  by (auto simp: ok_iff)

theorem engine_turn_returns_witness:
  "\<exists>e'. engine_turn mock_backend mock_now mock_now (fst demo_e2) = Inr e'"
  by (rule engine_turn_returns [OF demo_e2_run])

text \<open>
  Token streams are faithful. In every reachable state, what the consumer of an active
  request has received followed by what its channel still buffers is exactly the first
  \<open>last_seen_tokens\<close> tokens of that request, in order: nothing is lost, repeated, reordered or
  taken from another request. And every request the scheduler still works on has such a stream.
\<close>

theorem engine_streams_faithful:
  assumes "engine_run be now winv live room time env steady n e sent"
  shows "(\<forall>i entry. (i, entry) \<in> set (en_active e) \<longrightarrow>
      id_at (en_scheduler e) (ae_request entry) = i \<and>
      (\<exists>ch. en_channels e (ae_channel entry) = Some ch \<and>
         stream sent (ae_channel entry) ch =
           take (ae_last_seen_tokens entry)
             (req_output_token_ids (req_at (en_scheduler e) (ae_request entry))))) \<and>
    (\<forall>p \<in> set (tracked (en_scheduler e)). \<exists>entry.
      (id_at (en_scheduler e) p, entry) \<in> set (en_active e) \<and> ae_request entry = p)"
proof (intro conjI allI impI ballI)
  note inv = engine_run_inv(2) [OF assms]
  show "\<exists>entry. (id_at (en_scheduler e) p, entry) \<in> set (en_active e) \<and> ae_request entry = p"
    if "p \<in> set (tracked (en_scheduler e))" for p by (rule routes_tracked [OF inv that])
  fix i entry assume "(i, entry) \<in> set (en_active e)"
  then have "entry_ok e sent (i, entry)" using inv by (simp add: routes_inv_def)
  then show "id_at (en_scheduler e) (ae_request entry) = i"
    "\<exists>ch. en_channels e (ae_channel entry) = Some ch \<and> stream sent (ae_channel entry) ch =
       take (ae_last_seen_tokens entry) (req_output_token_ids (req_at (en_scheduler e) (ae_request entry)))"
    by (simp_all add: entry_ok_def Let_def)
qed

theorem engine_streams_faithful_witness:
  "\<exists>ch. en_channels (fst demo_e3) 0 = Some ch \<and> stream (snd demo_e3) 0 ch = [1, 2]"
proof -
  let ?entry = "snd (hd (en_active (fst demo_e3)))"
  have "map fst (en_active (fst demo_e3)) = [''a'']" "ae_channel ?entry = 0" "ae_last_seen_tokens ?entry = 2"
    "ae_request ?entry = 0"
    "take 2 (req_output_token_ids (req_at (en_scheduler (fst demo_e3)) 0)) = [1, 2]" by code_simp+
  moreover from this have "(''a'', ?entry) \<in> set (en_active (fst demo_e3))"
    by (cases "en_active (fst demo_e3)") auto
  ultimately show ?thesis using engine_streams_faithful [OF demo_e3_run] by fastforce
qed



text \<open>
  Reaping completes the stream. \<open>reap_terminal\<close> removes exactly the requests that have
  ended and whose tokens are all sent; each removed request's channel is closed and has carried
  all the tokens the request ever emitted, and the other entries and channels are not touched.
\<close>

theorem reap_completes_streams:
  assumes "engine_world be now winv live room time env steady"
    and "engine_world.engine_inv winv live room time n e sent" "reap_terminal e = Inr e'"
    and "(i, entry) \<in> set (en_active e)"
  shows "if is_terminal (req_state (req_at (en_scheduler e) (ae_request entry))) \<and>
      ae_last_seen_tokens entry \<ge> req_output_tokens_emitted (req_at (en_scheduler e) (ae_request entry))
    then i \<notin> fst ` set (en_active e') \<and>
      (\<exists>ch. en_channels e' (ae_channel entry) = Some ch \<and> ch_closed ch \<and>
         stream sent (ae_channel entry) ch =
           req_output_token_ids (req_at (en_scheduler e) (ae_request entry)))
    else (i, entry) \<in> set (en_active e') \<and> en_channels e' (ae_channel entry) = en_channels e (ae_channel entry)"
proof -
  obtain chans where e': "e' = e\<lparr>en_active := filter (\<lambda>x. \<not> ended (en_scheduler e) (snd x)) (en_active e), en_channels := chans\<rparr>"
    and chans: "chans (ae_channel entry) =
      (if ended (en_scheduler e) entry then map_option close else id) (en_channels e (ae_channel entry))"
    using engine_world.reap_exact [OF assms(1,2)] assms(3,4) by auto
  have routes: "routes_inv e sent" using assms(1,2) by (simp add: engine_world.engine_inv_def)
  show ?thesis
  proof (cases "ended (en_scheduler e) entry")
    case True
    have "entry' = entry" if "(i, entry') \<in> set (en_active e)" for entry'
      using route_unique [OF routes assms(4) that] by simp
    then have "i \<notin> fst ` set (en_active e')" using True by (auto simp: e')
    moreover obtain ch where "en_channels e (ae_channel entry) = Some ch"
      "stream sent (ae_channel entry) ch = req_output_token_ids (req_at (en_scheduler e) (ae_request entry))"
      using engine_world.ended_stream [OF assms(1,2,4) True] .
    ultimately show ?thesis using True chans by (simp add: e' ended_def close_def stream_def)
  next
    case False
    then show ?thesis using chans assms(4) by (auto simp: e' ended_def)
  qed
qed

definition demo_done :: "MockBackend Engine \<times> stream_log" where
  "demo_done = (case demo_e3 of (e, sent) \<Rightarrow>
     (projr (bnd (engine_tick mock_backend mock_now e) (push_tokens mock_now)), sent))"

lemma demo_done_inv: "mock_engine.engine_inv 9 (fst demo_done) (snd demo_done)"
proof -
  obtain e sent where e3: "demo_e3 = (e, sent)" by force
  have "mock_engine.engine_inv 9 e sent" using engine_run_inv(1) [OF demo_e3_run] unfolding e3 fst_conv snd_conv .
  from mock_engine.engine_tick_ok [OF this] obtain e1 where
    "engine_tick mock_backend mock_now e = Inr e1" "mock_engine.engine_inv 9 e1 sent" by (auto simp: ok_iff)
  then show ?thesis
    using mock_engine.push_tokens_ok [of 9 e1 sent] by (auto simp: demo_done_def e3 ok_iff)
qed

theorem reap_completes_streams_witness:
  "\<exists>e'. reap_terminal (fst demo_done) = Inr e' \<and> ''a'' \<notin> fst ` set (en_active e') \<and>
     (\<exists>ch. en_channels e' 0 = Some ch \<and> ch_closed ch \<and> stream (snd demo_done) 0 ch = [1, 2, 3])"
proof -
  let ?entry = "snd (hd (en_active (fst demo_done)))" and ?s = "en_scheduler (fst demo_done)"
  obtain e' where r: "reap_terminal (fst demo_done) = Inr e'"
    using mock_engine.reap_terminal_ok [OF demo_done_inv] by (auto simp: ok_iff)
  have *: "map fst (en_active (fst demo_done)) = [''a'']" "ae_channel ?entry = 0"
    "is_terminal (req_state (req_at ?s (ae_request ?entry)))"
    "ae_last_seen_tokens ?entry \<ge> req_output_tokens_emitted (req_at ?s (ae_request ?entry))"
    "req_output_token_ids (req_at ?s (ae_request ?entry)) = [1, 2, 3]" by code_simp+
  then have "(''a'', ?entry) \<in> set (en_active (fst demo_done))"
    by (cases "en_active (fst demo_done)") auto
  from reap_completes_streams [OF mock_engine.engine_world_axioms demo_done_inv r this] show ?thesis
    using * r by auto
qed

text \<open>
  C36 (stop abandons the streams). Stopping a running engine ends its thread at the next turn
  without draining a submission, cancelling a request, releasing a handle or closing a channel:
  accepted submissions and active requests keep their open channels, and a consumer that finds
  its channel empty goes on waiting.
\<close>

theorem stop_abandons_streams:
  assumes "en_running e" "en_channels e c = Some ch" "ch_buffer ch = []" "\<not> ch_closed ch"
  shows "\<exists>e'. engine_turn be now steady (engine_stop e) = Inr e' \<and> \<not> en_thread e' \<and>
    en_active e' = en_active e \<and> en_pending_submissions e' = en_pending_submissions e \<and>
    en_scheduler e' = en_scheduler e \<and> en_world e' = en_world e \<and>
    (\<exists>ch'. en_channels e' c = Some ch' \<and> pop ch' = None)"
  using assms by (simp add: engine_turn_def engine_stop_def pop_def)

theorem stop_abandons_streams_witness:
  "\<exists>e'. engine_turn mock_backend mock_now mock_now (engine_stop (fst demo_e1)) = Inr e' \<and>
     \<not> en_thread e' \<and> en_pending_submissions e' = [demo_sub] \<and>
     (\<exists>ch'. en_channels e' 0 = Some ch' \<and> pop ch' = None)"
proof -
  have "en_running (fst demo_e1)" "en_channels (fst demo_e1) 0 = Some (TokenChannel_new 1)"
    "en_pending_submissions (fst demo_e1) = [demo_sub]" by code_simp+
  then show ?thesis
    using stop_abandons_streams [of "fst demo_e1" 0 "TokenChannel_new 1" mock_backend mock_now mock_now]
    by (auto simp: TokenChannel_new_def)
qed

text \<open>
  A missed deadline is reported as a stop. A request that the scheduler failed because its
  deadline passed, while its consumer was slow, ends its stream with a token marked \<open>kStop\<close>, the
  reason the header reserves for an end-of-sequence token from the backend; the backend never
  sent one.
\<close>

theorem missed_deadline_reported_as_stop:
  "req_state (hd (fs_requests (en_scheduler (fst demo_e4)))) = kFailed \<and>
   map te_finish_reason (snd demo_e4 0) = [kNone, kNone, kStop] \<and>
   map te_token_id (snd demo_e4 0) = [1, 2, 3] \<and> en_active (fst demo_e4) = []"
  by code_simp

end
