(* ===== verification/Engine_Thread.thy ===== *)
theory Engine_Thread
  imports Engine_Props
begin

text \<open>
  The engine thread at the grain of its accesses to shared data. \<open>run\<close> of \<open>src/http/engine.cpp\<close>
  is a program counter and a deterministic step: every step makes at most one access to what other
  threads share, that is to \<open>running_\<close>, to one of the two queues under \<open>submission_mutex_\<close>, or to one
  channel under the channel's mutex. The network threads, the consumers and the world move between
  any two steps.
\<close>

section \<open>Steps of the engine thread\<close>

datatype engine_pc =
    AtLoop                           \<comment> \<open>the condition of the while loop\<close>
  | AtCheck                          \<comment> \<open>after the wait: the second test of \<open>running_\<close>\<close>
  | AtSwap                           \<comment> \<open>\<open>drain_submissions\<close>, before the swap\<close>
  | Submitting "Submission list"     \<comment> \<open>the rest of its batch\<close>
  | AtCancels                        \<comment> \<open>\<open>drain_cancels\<close>, before the swap\<close>
  | Cancelling "RequestId list"      \<comment> \<open>the rest of its batch\<close>
  | Ticking
  | Pushing nat                      \<comment> \<open>\<open>push_tokens\<close>, at this entry of \<open>active_\<close>\<close>
  | AtBackpressure
  | Dropping "RequestId list"        \<comment> \<open>the rest of \<open>to_cancel\<close>\<close>
  | Reaping "RequestId list"         \<comment> \<open>the rest of \<open>to_reap\<close>\<close>
  | Exited

text \<open>
  One iteration of the inner loop of \<open>push_tokens\<close>, on entry \<open>k\<close>: the loop index is
  \<open>last_seen_tokens\<close>, which every iteration that does not break sets to the next index.
\<close>

definition push_next :: "'w Clock \<Rightarrow> nat \<Rightarrow> 'w Engine \<Rightarrow> (engine_pc \<times> 'w Engine) res" where
  "push_next steady k e =
     (if k \<ge> length (en_active e) then Inr (AtBackpressure, e)
      else case en_active e ! k of (i, entry) \<Rightarrow>
        bnd (deref (en_scheduler e) (ae_request entry)) (\<lambda>r.
        if ae_last_seen_tokens entry \<ge> req_output_tokens_emitted r then Inr (Pushing (Suc k), e)
        else bnd (channel_at e (ae_channel entry)) (\<lambda>ch.
             bnd (push_loop steady r [ae_last_seen_tokens entry] (entry, ch, en_world e)) (\<lambda>(entry', ch', w).
               Inr (if ae_last_seen_tokens entry' > ae_last_seen_tokens entry then Pushing k else Pushing (Suc k),
                    e\<lparr>en_channels := (en_channels e)(ae_channel entry \<mapsto> ch'), en_world := w,
                      en_active := (en_active e)[k := (i, entry')]\<rparr>)))))"

fun thread_step ::
  "'w InferenceBackend \<Rightarrow> 'w Clock \<Rightarrow> 'w Clock \<Rightarrow> engine_pc \<times> 'w Engine \<Rightarrow> (engine_pc \<times> 'w Engine) res" where
  "thread_step be now steady (AtLoop, e) =
     Inr (if en_running e then (AtCheck, e) else (Exited, e\<lparr>en_thread := False\<rparr>))"
| "thread_step be now steady (AtCheck, e) =
     Inr (if en_running e then (AtSwap, e) else (Exited, e\<lparr>en_thread := False\<rparr>))"
| "thread_step be now steady (AtSwap, e) =
     Inr (Submitting (en_pending_submissions e), e\<lparr>en_pending_submissions := []\<rparr>)"
| "thread_step be now steady (Submitting [], e) = Inr (AtCancels, e)"
| "thread_step be now steady (Submitting (sub # batch), e) =
     bnd (drain_submission now sub e) (\<lambda>e. Inr (Submitting batch, e))"
| "thread_step be now steady (AtCancels, e) =
     Inr (Cancelling (en_pending_cancels e), e\<lparr>en_pending_cancels := []\<rparr>)"
| "thread_step be now steady (Cancelling [], e) =
     Inr (if en_active e \<noteq> [] then Ticking else AtLoop, e)"
| "thread_step be now steady (Cancelling (i # batch), e) =
     bnd (drain_cancel be now i e) (\<lambda>e. Inr (Cancelling batch, e))"
| "thread_step be now steady (Ticking, e) = bnd (engine_tick be now e) (\<lambda>e. Inr (Pushing 0, e))"
| "thread_step be now steady (Pushing k, e) = push_next steady k e"
| "thread_step be now steady (AtBackpressure, e) =
     (case backpressure_expired steady e of (to_cancel, e) \<Rightarrow> Inr (Dropping to_cancel, e))"
| "thread_step be now steady (Dropping [], e) = bnd (reapable_ids e) (\<lambda>to_reap. Inr (Reaping to_reap, e))"
| "thread_step be now steady (Dropping (i # to_cancel), e) =
     bnd (drop_entry be now i e) (\<lambda>e. Inr (Dropping to_cancel, e))"
| "thread_step be now steady (Reaping [], e) = Inr (AtLoop, e)"
| "thread_step be now steady (Reaping (i # to_reap), e) =
     bnd (close_and_erase i e) (\<lambda>e. Inr (Reaping to_reap, e))"
| "thread_step be now steady (Exited, e) = Inr (Exited, e)"

fun pc_batch :: "engine_pc \<Rightarrow> Submission list" where
  "pc_batch (Submitting batch) = batch"
| "pc_batch _ = []"

text \<open>
  The whole system: a step of the engine thread, or of anybody else. A thread that has left \<open>run\<close>
  stays where it is until \<open>start\<close> makes a new one, which \<open>stop\<close>, by joining, does not overtake. The
  iteration order of \<open>active_\<close> can change only where entries are inserted.
\<close>

inductive interleaved ::
  "'w InferenceBackend \<Rightarrow> 'w Clock \<Rightarrow> ('w \<Rightarrow> 'w \<Rightarrow> bool) \<Rightarrow> 'w Clock \<Rightarrow> nat \<Rightarrow>
   engine_pc \<times> 'w Engine \<times> stream_log \<Rightarrow> engine_pc \<times> 'w Engine \<times> stream_log \<Rightarrow> bool"
  for be now env steady n where
  thread_starts: "\<not> en_running e \<Longrightarrow>
    interleaved be now env steady n (Exited, e, sent) (AtLoop, engine_start e, sent)"
| thread_moves: "thread_step be now steady (pc, e) = Inr (pc', e') \<Longrightarrow>
    interleaved be now env steady n (pc, e, sent) (pc', e', sent)"
| others_move: "caller_step env n (pc_batch pc) (e, sent) (e', sent') \<Longrightarrow>
    interleaved be now env steady n (pc, e, sent) (pc, e', sent')"
| rehash: "mset act = mset (en_active e) \<Longrightarrow>
    interleaved be now env steady n (Submitting batch, e, sent) (Submitting batch, e\<lparr>en_active := act\<rparr>, sent)"

inductive_cases interleavedE: "interleaved be now env steady n x y"

section \<open>The invariant between two steps\<close>

text \<open>The engine as the invariant sees it: a submission taken from the queue is still pending.\<close>

definition with_batch :: "engine_pc \<Rightarrow> 'w Engine \<Rightarrow> 'w Engine" where
  "with_batch pc e = e\<lparr>en_pending_submissions := pc_batch pc @ en_pending_submissions e\<rparr>"

lemma with_batch_id: "pc_batch pc = [] \<Longrightarrow> with_batch pc e = e"
  by (simp add: with_batch_def)

lemma with_batch_sel [simp]:
  shows "en_active (with_batch pc e) = en_active e" and "en_scheduler (with_batch pc e) = en_scheduler e"
    and "en_world (with_batch pc e) = en_world e" and "en_channels (with_batch pc e) = en_channels e"
    and "en_pending_submissions (with_batch pc e) = pc_batch pc @ en_pending_submissions e"
  by (simp_all add: with_batch_def)

lemma caller_step_batch:
  assumes "caller_step env n busy (e, sent) (e', sent')" "pc_batch pc = busy"
  shows "caller_step env n [] (with_batch pc e, sent) (with_batch pc e', sent')"
    and "en_active e' = en_active e \<and> en_scheduler e' = en_scheduler e"
proof -
  have *: "with_batch pc (engine_stop e) = engine_stop (with_batch pc e)"
    "with_batch pc (engine_cancel i e) = engine_cancel i (with_batch pc e)"
    "with_batch pc (push_submission sub e) = push_submission sub (with_batch pc e)"
    "with_batch pc (e\<lparr>en_channels := chans\<rparr>) = (with_batch pc e)\<lparr>en_channels := chans\<rparr>"
    "with_batch pc (e\<lparr>en_world := w\<rparr>) = (with_batch pc e)\<lparr>en_world := w\<rparr>" for i sub chans w
    by (simp_all add: with_batch_def engine_stop_def engine_cancel_def push_submission_def)
  show "caller_step env n [] (with_batch pc e, sent) (with_batch pc e', sent')"
    using assms(1)
  proof (cases rule: caller_step.cases)
    case (net_submit sub ch)
    then show ?thesis
      using assms(2) caller_step.net_submit [where e = "with_batch pc e" and sub = sub and ch = ch and n = n and busy = "[]"]
      by (simp add: *)
  next
    case (new_channel c k)
    then show ?thesis using caller_step.new_channel [of "with_batch pc e" c sent] by (simp add: *)
  next
    case (consumer_pop c ch ev ch')
    then show ?thesis using caller_step.consumer_pop [of "with_batch pc e" c] by (simp add: *)
  next
    case (consumer_close c ch)
    then show ?thesis using caller_step.consumer_close [of "with_batch pc e" c] by (simp add: *)
  next
    case (world_moves w')
    then show ?thesis using caller_step.world_moves [of env "with_batch pc e"] by (simp add: *)
  qed (auto simp: * intro: caller_step.intros)
  show "en_active e' = en_active e \<and> en_scheduler e' = en_scheduler e"
    using assms(1) by cases (auto simp: engine_stop_def engine_cancel_def push_submission_def)
qed

context engine_world
begin

definition pc_inv :: "engine_pc \<Rightarrow> 'a Engine \<Rightarrow> bool" where
  "pc_inv pc e \<longleftrightarrow>
     (case pc of
        Dropping ids \<Rightarrow> set ids \<subseteq> fst ` set (en_active e) \<and> distinct ids
      | Reaping ids \<Rightarrow> set ids \<subseteq> delivered e \<and> distinct ids
      | _ \<Rightarrow> True)"

definition thread_inv :: "nat \<Rightarrow> engine_pc \<Rightarrow> 'a Engine \<Rightarrow> stream_log \<Rightarrow> bool" where
  "thread_inv n pc e sent \<longleftrightarrow> engine_inv n (with_batch pc e) sent \<and> pc_inv pc e"

lemma thread_invI:
  "engine_inv n e sent \<Longrightarrow> pc_batch pc = [] \<Longrightarrow> pc_inv pc e \<Longrightarrow> thread_inv n pc e sent"
  by (simp add: thread_inv_def with_batch_id)

lemma thread_invD: "thread_inv n pc e sent \<Longrightarrow> pc_batch pc = [] \<Longrightarrow> engine_inv n e sent"
  by (simp add: thread_inv_def with_batch_id)

lemma push_next_ok:
  assumes "engine_inv n e sent"
  shows "ok (push_next steady k e) (\<lambda>(pc, e'). engine_inv n e' sent \<and> pc_batch pc = [] \<and> pc_inv pc e')"
proof (cases "k < length (en_active e)")
  case True
  obtain i entry where k: "en_active e ! k = (i, entry)" by force
  let ?s = "en_scheduler e" and ?p = "ae_request entry" and ?c = "ae_channel entry"
  let ?r = "req_at ?s ?p"
  define xs ys where "xs = take k (en_active e)" and "ys = drop (Suc k) (en_active e)"
  have act: "en_active e = xs @ (i, entry) # ys" "length xs = k"
    using id_take_nth_drop [OF True] True by (simp_all add: k xs_def ys_def)
  have sys: "sys_inv n (?s, en_world e)" and routes: "routes_inv (e\<lparr>en_active := xs @ (i, entry) # ys\<rparr>) sent"
    using assms by (simp_all add: engine_inv_def active_update_id [OF act(1)])
  have ok: "?p < length (fs_requests ?s)" "ae_last_seen_tokens entry \<le> length (req_output_token_ids ?r)"
    and "\<exists>ch. en_channels e ?c = Some ch"
    using routes by (auto simp: routes_inv_def entry_ok_def Let_def)
  then obtain ch where ch: "en_channels e ?c = Some ch" by blast
  have len: "req_output_tokens_emitted ?r = length (req_output_token_ids ?r)" by (rule sys_inv_req [OF sys ok(1)])
  have dr: "deref ?s ?p = Inr ?r" using ok(1) by (simp add: deref_def req_at_def)
  show ?thesis
  proof (cases "ae_last_seen_tokens entry < req_output_tokens_emitted ?r")
    case more: True
    let ?m = "Suc (ae_last_seen_tokens entry)"
    have m: "?m \<le> length (req_output_token_ids ?r)" "[ae_last_seen_tokens entry..<?m] = [ae_last_seen_tokens entry]"
      using more len by simp_all
    obtain entry' ch' w' where loop:
        "push_loop steady ?r [ae_last_seen_tokens entry] (entry, ch, en_world e) = Inr (entry', ch', w')"
      and push: "pushed steady ?r ?m (entry, ch, en_world e) (entry', ch', w')"
      using ok_push_loop [OF m(1), of entry steady ch "en_world e"] unfolding m(2) by (auto simp: ok_iff)
    have w: "w' = en_world e \<or> (\<exists>t. steady (en_world e) = (t, w'))" using push by (simp add: pushed_def Let_def)
    have "sys_inv n (?s, w')"
      using w sys steady_law [of "en_world e"] by (auto simp: sys_inv_def intro: sched_inv_later)
    then have "engine_inv n (e\<lparr>en_channels := (en_channels e)(?c \<mapsto> ch'), en_world := w',
        en_active := xs @ (i, entry') # ys\<rparr>) sent"
      using assms routes_inv_push [OF routes _ push m(1)] ch by (simp add: engine_inv_def)
    moreover have "(en_active e)[k := (i, entry')] = xs @ (i, entry') # ys"
      using act by (simp add: list_update_append)
    ultimately show ?thesis
      using True more k dr ch loop by (simp add: push_next_def channel_at_def pc_inv_def del: push_loop.simps)
  next
    case False
    then show ?thesis using True k dr assms by (simp add: push_next_def pc_inv_def)
  qed
next
  case False
  then show ?thesis using assms by (simp add: push_next_def pc_inv_def)
qed

lemma delivered_closed_out:
  "closed_out i e e' \<Longrightarrow> delivered e' = delivered e - {i}"
  by (auto simp: closed_out_def delivered_def active_erase_def)

text \<open>One lemma for each loop of the thread; the other program points make one call each.\<close>

lemma submitting_ok:
  assumes "thread_inv n (Submitting batch) e sent"
  shows "ok (thread_step be now steady (Submitting batch, e)) (\<lambda>(pc', e'). thread_inv n pc' e' sent)"
proof -
  have inv: "engine_inv n (with_batch (Submitting batch) e) sent" using assms by (simp add: thread_inv_def)
  show ?thesis
  proof (cases batch)
    case Nil
    then show ?thesis using inv by (simp add: thread_inv_def with_batch_def pc_inv_def)
  next
    case (Cons sub subs)
    then show ?thesis
      using drain_submission_ok [where n = n and e = e and sub = sub and subs = "subs @ en_pending_submissions e" and sent = sent] inv
      by (auto simp: thread_inv_def with_batch_def pc_inv_def elim!: ok_mono)
  qed
qed

lemma cancelling_ok:
  assumes "thread_inv n (Cancelling batch) e sent"
  shows "ok (thread_step be now steady (Cancelling batch, e)) (\<lambda>(pc', e'). thread_inv n pc' e' sent)"
proof -
  have inv: "engine_inv n e sent" using assms by (simp add: thread_invD)
  show ?thesis
    using inv drain_cancel_ok [OF inv, of "hd batch"]
    by (cases batch) (auto intro!: thread_invI simp: pc_inv_def elim!: ok_mono)
qed

lemma dropping_ok:
  assumes "thread_inv n (Dropping ids) e sent"
  shows "ok (thread_step be now steady (Dropping ids, e)) (\<lambda>(pc', e'). thread_inv n pc' e' sent)"
proof -
  have inv: "engine_inv n e sent" and ids: "set ids \<subseteq> fst ` set (en_active e)" "distinct ids"
    using assms by (auto simp: thread_inv_def with_batch_id pc_inv_def)
  show ?thesis
  proof (cases ids)
    case Nil
    then show ?thesis
      using reapable_ids_ok [OF inv] inv by (auto intro!: thread_invI simp: pc_inv_def elim!: ok_mono)
  next
    case (Cons i ids')
    have "set ids' \<subseteq> fst ` set (en_active e')"
      if "map fst (en_active e') = filter (\<lambda>j. j \<noteq> i) (map fst (en_active e))" for e' :: "'a Engine"
    proof -
      have "fst ` set (en_active e') = fst ` set (en_active e) - {i}"
        using arg_cong [OF that, of set] by auto
      then show ?thesis using ids Cons by auto
    qed
    then show ?thesis
      using drop_entry_ok [OF inv, of i] ids Cons by (auto intro!: thread_invI simp: pc_inv_def elim!: ok_mono)
  qed
qed

lemma reaping_ok:
  assumes "thread_inv n (Reaping ids) e sent"
  shows "ok (thread_step be now steady (Reaping ids, e)) (\<lambda>(pc', e'). thread_inv n pc' e' sent)"
proof -
  have inv: "engine_inv n e sent" and ids: "set ids \<subseteq> delivered e" "distinct ids"
    using assms by (auto simp: thread_inv_def with_batch_id pc_inv_def)
  show ?thesis
  proof (cases ids)
    case Nil
    then show ?thesis using inv by (auto intro: thread_invI simp: pc_inv_def)
  next
    case (Cons i ids')
    have i: "i \<in> fst ` set (en_active e)" "i \<notin> id_at (en_scheduler e) ` set (tracked (en_scheduler e))"
      using ids Cons delivered_active [of e] delivered_untracked [OF inv] by auto
    have "ok (close_and_erase i e) (closed_out i e)"
      using ok_close_and_erase [OF _ i(1), of sent] inv by (simp add: engine_inv_def)
    moreover have "thread_inv n (Reaping ids') e' sent" if "closed_out i e e'" for e'
      using engine_inv_closed_out [OF inv that i(2)] delivered_closed_out [OF that] ids Cons
      by (intro thread_invI) (auto simp: pc_inv_def)
    ultimately show ?thesis using Cons by (auto elim!: ok_mono)
  qed
qed

lemma thread_step_ok:
  assumes "thread_inv n pc e sent"
  shows "ok (thread_step be now steady (pc, e)) (\<lambda>(pc', e'). thread_inv n pc' e' sent)"
proof (cases pc)
  case Ticking
  have inv: "engine_inv n e sent" using assms Ticking by (simp add: thread_invD)
  show ?thesis
    using engine_tick_ok [OF inv] Ticking by (auto intro!: thread_invI simp: pc_inv_def elim!: ok_mono)
next
  case (Pushing k)
  have inv: "engine_inv n e sent" using assms Pushing by (simp add: thread_invD)
  show ?thesis
    using push_next_ok [OF inv, of k] Pushing by (auto intro!: thread_invI elim!: ok_mono)
next
  case AtBackpressure
  have inv: "engine_inv n e sent" using assms AtBackpressure by (simp add: thread_invD)
  obtain ids e' where ex: "backpressure_expired steady e = (ids, e')" by force
  show ?thesis
    using backpressure_expired_ids [OF inv ex] AtBackpressure ex by (auto intro!: thread_invI simp: pc_inv_def)
next
  case (Submitting batch)
  then show ?thesis using submitting_ok [of n batch e sent] assms by simp
next
  case (Cancelling batch)
  then show ?thesis using cancelling_ok [of n batch e sent] assms by simp
next
  case (Dropping ids)
  then show ?thesis using dropping_ok [of n ids e sent] assms by simp
next
  case (Reaping ids)
  then show ?thesis using reaping_ok [of n ids e sent] assms by simp
qed (use assms in \<open>auto simp: thread_inv_def with_batch_def pc_inv_def\<close>)

lemma interleaved_inv:
  assumes "interleaved be now env steady n (pc, e, sent) (pc', e', sent')" "thread_inv n pc e sent"
  shows "thread_inv n pc' e' sent'"
  using assms(1)
proof (cases rule: interleaved.cases)
  case thread_starts
  then show ?thesis using assms(2) by (simp add: thread_inv_def with_batch_id pc_inv_def engine_inv_start)
next
  case thread_moves
  then show ?thesis using thread_step_ok [OF assms(2)] by simp
next
  case others_move
  note c = caller_step_batch [OF others_move(2) refl]
  have "engine_inv n (with_batch pc e') sent'"
    using caller_step_inv [OF c(1)] assms(2) by (simp add: thread_inv_def)
  moreover have "pc_inv pc e'"
    using assms(2) c(2) by (auto simp: thread_inv_def pc_inv_def delivered_def split: engine_pc.splits)
  ultimately show ?thesis using others_move(1) by (simp add: thread_inv_def)
next
  case (rehash act batch)
  have "with_batch pc (e\<lparr>en_active := act\<rparr>) = (with_batch pc e)\<lparr>en_active := act\<rparr>"
    by (simp add: with_batch_def)
  then show ?thesis
    using assms(2) rehash engine_inv_reorder [of n "with_batch pc e" sent act]
    by (simp add: thread_inv_def pc_inv_def)
qed

lemma interleaved_reach_inv:
  assumes "(interleaved be now env steady n)\<^sup>*\<^sup>* (Exited, Engine_new cfg Map.empty w0, sent0) (pc, e, sent)"
    and "winv w0" "live w0 = {}" "n \<le> room w0"
  shows "thread_inv n pc e sent"
  using assms(1)
proof (induction "(pc, e, sent)" arbitrary: pc e sent rule: rtranclp_induct)
  case base
  then show ?case using engine_inv_new [OF assms(2-4)] by (auto intro!: thread_invI simp: pc_inv_def)
next
  case (step y)
  then show ?case by (cases y) (auto intro: interleaved_inv)
qed

end

section \<open>Steps left alone make a turn\<close>

abbreviation thread_runs ::
  "'w InferenceBackend \<Rightarrow> 'w Clock \<Rightarrow> 'w Clock \<Rightarrow> engine_pc \<times> 'w Engine \<Rightarrow> engine_pc \<times> 'w Engine \<Rightarrow> bool" where
  "thread_runs be now steady \<equiv> (\<lambda>x y. thread_step be now steady x = Inr y)\<^sup>*\<^sup>*"

lemma thread_runs_first:
  "thread_step be now steady x = Inr y \<Longrightarrow> thread_runs be now steady y z \<Longrightarrow> thread_runs be now steady x z"
  by (rule converse_rtranclp_into_rtranclp)

lemma fold_res_runs:
  assumes "\<And>x xs s s'. f x s = Inr s' \<Longrightarrow> thread_step be now steady (pc (x # xs), s) = Inr (pc xs, s')"
    and "fold_res f xs s = Inr s'"
  shows "thread_runs be now steady (pc xs, s) (pc [], s')"
  using assms(2)
proof (induction xs arbitrary: s)
  case (Cons x xs)
  then obtain s1 where "f x s = Inr s1" "fold_res f xs s1 = Inr s'" by (auto simp: bnd_eq_Inr)
  then show ?case using thread_runs_first [OF assms(1)] Cons.IH by blast
qed simp

lemma channels_idem: "en_channels e c = Some ch \<Longrightarrow> e\<lparr>en_channels := (en_channels e)(c \<mapsto> ch)\<rparr> = e"
  by (cases e) (simp add: fun_upd_idem)

lemma push_loop_runs:
  assumes "deref (en_scheduler e) (ae_request entry) = Inr r" "en_channels e (ae_channel entry) = Some ch"
    and "push_loop steady r [ae_last_seen_tokens entry..<req_output_tokens_emitted r] (entry, ch, en_world e) =
      Inr (entry', ch', w')"
  shows "thread_runs be now steady (Pushing (length xs), e\<lparr>en_active := xs @ (i, entry) # ys\<rparr>)
    (Pushing (Suc (length xs)), e\<lparr>en_channels := (en_channels e)(ae_channel entry \<mapsto> ch'), en_world := w',
       en_active := xs @ (i, entry') # ys\<rparr>)"
  using assms
proof (induction "req_output_tokens_emitted r - ae_last_seen_tokens entry" arbitrary: e entry ch)
  case 0
  then have "entry' = entry" "ch' = ch" "w' = en_world e" by simp_all
  then have eq: "e\<lparr>en_channels := (en_channels e)(ae_channel entry \<mapsto> ch'), en_world := w',
      en_active := xs @ (i, entry') # ys\<rparr> = e\<lparr>en_active := xs @ (i, entry) # ys\<rparr>"
    using channels_idem [OF 0(3)] by simp
  show ?case unfolding eq using 0(1,2) by (intro r_into_rtranclp) (simp add: push_next_def)
next
  case (Suc d)
  let ?k = "ae_last_seen_tokens entry" and ?c = "ae_channel entry"
  let ?ev = "\<lparr>te_token_id = req_output_token_ids r ! ?k, te_finish_reason = finish_reason r ?k\<rparr>"
  have k: "?k < req_output_tokens_emitted r" using Suc.hyps(2) by simp
  note loop = Suc.prems(3) [unfolded upt_conv_Cons [OF k]]
  then have len: "?k < length (req_output_token_ids r)" by (auto split: if_splits)
  obtain b ch1 where push: "try_push ?ev ch = (b, ch1)" by force
  show ?case
  proof (cases b)
    case True
    let ?entry = "entry\<lparr>ae_last_seen_tokens := Suc ?k, ae_backpressure_since := None\<rparr>"
    let ?e = "e\<lparr>en_channels := (en_channels e)(?c \<mapsto> ch1)\<rparr>"
    have "push_loop steady r [Suc ?k..<req_output_tokens_emitted r] (?entry, ch1, en_world e) = Inr (entry', ch', w')"
      using loop len push True by simp
    then have "thread_runs be now steady (Pushing (length xs), ?e\<lparr>en_active := xs @ (i, ?entry) # ys\<rparr>)
      (Pushing (Suc (length xs)), ?e\<lparr>en_channels := (en_channels ?e)(?c \<mapsto> ch'), en_world := w',
         en_active := xs @ (i, entry') # ys\<rparr>)"
      using Suc.hyps(1) [of ?entry ?e ch1] Suc.hyps(2) Suc.prems(1) by simp
    moreover have "thread_step be now steady (Pushing (length xs), e\<lparr>en_active := xs @ (i, entry) # ys\<rparr>) =
        Inr (Pushing (length xs), ?e\<lparr>en_active := xs @ (i, ?entry) # ys\<rparr>)"
      using Suc.prems(1,2) k len push True by (simp add: push_next_def channel_at_def)
    ultimately show ?thesis by (auto intro: thread_runs_first)
  next
    case False
    then show ?thesis
      using Suc.prems(1,2) k len push loop
      by (intro r_into_rtranclp) (auto simp: push_next_def channel_at_def split: option.splits prod.splits)
  qed
qed

lemma push_loop_channel:
  "push_loop steady r is (entry, ch, w) = Inr (entry', ch', w') \<Longrightarrow> ae_channel entry' = ae_channel entry"
  by (induction "is" arbitrary: entry ch) (auto split: if_splits prod.splits bool.splits option.splits)

lemma push_entry_runs:
  assumes "push_entry steady x (xs, e) = Inr (xs', e')"
  shows "length xs' = Suc (length xs)"
    and "thread_runs be now steady (Pushing (length xs), e\<lparr>en_active := xs @ x # ys\<rparr>)
      (Pushing (Suc (length xs)), e'\<lparr>en_active := xs' @ ys\<rparr>)"
proof -
  obtain i entry where x: "x = (i, entry)" by force
  obtain r where r: "deref (en_scheduler e) (ae_request entry) = Inr r"
    using assms by (auto simp: push_entry_def x bnd_eq_Inr)
  let ?more = "ae_last_seen_tokens entry < req_output_tokens_emitted r"
  have "length xs' = Suc (length xs) \<and>
    thread_runs be now steady (Pushing (length xs), e\<lparr>en_active := xs @ x # ys\<rparr>)
      (Pushing (Suc (length xs)), e'\<lparr>en_active := xs' @ ys\<rparr>)"
  proof (cases ?more)
    case True
    then obtain ch entry' ch' w' where ch: "en_channels e (ae_channel entry) = Some ch"
      and loop: "push_loop steady r [ae_last_seen_tokens entry..<req_output_tokens_emitted r]
        (entry, ch, en_world e) = Inr (entry', ch', w')"
      and out: "xs' = xs @ [(i, entry')]"
        "e' = e\<lparr>en_channels := (en_channels e)(ae_channel entry' \<mapsto> ch'), en_world := w'\<rparr>"
      using assms by (auto simp: push_entry_def x r channel_at_def bnd_eq_Inr Let_def split: option.splits)
    have "ae_channel entry' = ae_channel entry" by (rule push_loop_channel [OF loop])
    then show ?thesis using push_loop_runs [OF r ch loop, of be now xs i ys] out x by simp
  next
    case False
    then show ?thesis
      using assms r by (auto simp: push_entry_def x Let_def push_next_def)
  qed
  then show "length xs' = Suc (length xs)"
    "thread_runs be now steady (Pushing (length xs), e\<lparr>en_active := xs @ x # ys\<rparr>)
      (Pushing (Suc (length xs)), e'\<lparr>en_active := xs' @ ys\<rparr>)" by blast+
qed

lemma push_tokens_runs:
  assumes "push_tokens steady e = Inr e'"
  shows "thread_runs be now steady (Pushing 0, e) (AtBackpressure, e')"
proof -
  have "thread_runs be now steady (Pushing (length xs), e\<lparr>en_active := xs @ ys\<rparr>)
      (AtBackpressure, e'\<lparr>en_active := xs'\<rparr>)"
    if "fold_res (push_entry steady) ys (xs, e) = Inr (xs', e')" for xs ys xs' and e e' :: "'a Engine"
    using that
  proof (induction ys arbitrary: xs e)
    case Nil
    then show ?case by (intro r_into_rtranclp) (simp add: push_next_def)
  next
    case (Cons y ys)
    then obtain xs1 e1 where y: "push_entry steady y (xs, e) = Inr (xs1, e1)"
      and rest: "fold_res (push_entry steady) ys (xs1, e1) = Inr (xs', e')" by (auto simp: bnd_eq_Inr)
    show ?case
      using rtranclp_trans [OF push_entry_runs(2) [OF y, of be now ys]] push_entry_runs(1) [OF y] Cons.IH [OF rest]
      by simp
  qed
  moreover obtain xs' e1 where "fold_res (push_entry steady) (en_active e) ([], e) = Inr (xs', e1)"
    "e' = e1\<lparr>en_active := xs'\<rparr>" using assms by (auto simp: push_tokens_def bnd_eq_Inr)
  moreover have "e\<lparr>en_active := en_active e\<rparr> = e" by (cases e) simp
  ultimately show ?thesis by fastforce
qed

lemma deliver_runs:
  assumes "engine_tick be now e = Inr e1" "push_tokens steady e1 = Inr e2"
    and "check_backpressure be now steady e2 = Inr e3" "reap_terminal e3 = Inr e'"
  shows "thread_runs be now steady (Ticking, e) (AtLoop, e')"
proof -
  have "thread_runs be now steady (Ticking, e) (Pushing 0, e1)" using assms(1) by (intro r_into_rtranclp) simp
  also have "thread_runs be now steady (Pushing 0, e1) (AtBackpressure, e2)" by (rule push_tokens_runs [OF assms(2)])
  also have "thread_runs be now steady (AtBackpressure, e2) (Dropping [], e3)"
    using assms(3) fold_res_runs [where f = "drop_entry be now" and pc = Dropping and be = be and now = now and steady = steady]
    by (auto simp: check_backpressure_def split: prod.splits intro: thread_runs_first)
  also have "thread_runs be now steady (Dropping [], e3) (Reaping [], e')"
    using assms(4) fold_res_runs [where f = close_and_erase and pc = Reaping and be = be and now = now and steady = steady]
    by (auto simp: reap_terminal_def bnd_eq_Inr intro: thread_runs_first)
  also have "thread_runs be now steady (Reaping [], e') (AtLoop, e')" by (intro r_into_rtranclp) simp
  finally show ?thesis .
qed

lemma engine_turn_runs:
  assumes "engine_turn be now steady e = Inr e'"
  shows "thread_runs be now steady (AtLoop, e) (if en_running e then AtLoop else Exited, e')"
proof (cases "en_running e")
  case True
  then obtain e1 e2 where ph: "drain_submissions now e = Inr e1" "drain_cancels be now e1 = Inr e2"
    and rest: "if en_active e2 \<noteq> []
      then bnd (engine_tick be now e2) (\<lambda>e. bnd (push_tokens steady e) (\<lambda>e.
        bnd (check_backpressure be now steady e) reap_terminal)) = Inr e' else e' = e2"
    using assms by (auto simp: engine_turn_def bnd_eq_Inr split: if_splits)
  have "thread_runs be now steady (AtLoop, e) (Submitting (en_pending_submissions e), e\<lparr>en_pending_submissions := []\<rparr>)"
    using True by (simp add: thread_runs_first [OF _ thread_runs_first [OF _ r_into_rtranclp]])
  also have "thread_runs be now steady \<dots> (Submitting [], e1)"
    using ph(1) by (intro fold_res_runs [where f = "drain_submission now"]) (simp_all add: drain_submissions_def)
  also have "thread_runs be now steady \<dots> (Cancelling (en_pending_cancels e1), e1\<lparr>en_pending_cancels := []\<rparr>)"
    by (rule thread_runs_first [of _ _ _ _ "(AtCancels, e1)"]) (simp_all add: r_into_rtranclp)
  also have "thread_runs be now steady \<dots> (Cancelling [], e2)"
    using ph(2) by (intro fold_res_runs [where f = "drain_cancel be now"]) (simp_all add: drain_cancels_def)
  also have "thread_runs be now steady \<dots> (AtLoop, e')"
  proof (cases "en_active e2 = []")
    case False
    with rest obtain e3 e4 e5 where "engine_tick be now e2 = Inr e3" "push_tokens steady e3 = Inr e4"
      "check_backpressure be now steady e4 = Inr e5" "reap_terminal e5 = Inr e'" by (auto simp: bnd_eq_Inr)
    then have "thread_runs be now steady (Ticking, e2) (AtLoop, e')" by (rule deliver_runs)
    then show ?thesis using False by (simp add: thread_runs_first [of _ _ _ "(Cancelling [], e2)"])
  qed (use rest in auto)
  finally show ?thesis using True by simp
next
  case False
  then show ?thesis using assms by (auto simp: engine_turn_def)
qed

end
