(* ===== verification/Engine_Interleaving.thy ===== *)
theory Engine_Interleaving
  imports Engine_Thread
begin

text \<open>
  Properties of the engine thread among its callers, at the grain of \<open>Engine_Thread\<close>: no step of it
  faults, the streams are faithful between any two steps, steps left alone make exactly one turn of
  \<open>Engine\<close>, every turn comes to its end however the other threads interfere, and what a drained
  cancellation does, and does not, reach.
\<close>

section \<open>Every turn ends\<close>

text \<open>The iterations left to \<open>push_tokens\<close> from entry \<open>k\<close> on.\<close>

definition push_work :: "'w Engine \<Rightarrow> nat \<Rightarrow> nat" where
  "push_work e k = (\<Sum>x \<leftarrow> drop k (en_active e).
     Suc (req_output_tokens_emitted (req_at (en_scheduler e) (ae_request (snd x))) - ae_last_seen_tokens (snd x)))"

fun thread_rank :: "engine_pc \<times> 'w Engine \<Rightarrow> nat \<times> nat" where
  "thread_rank (AtLoop, e) = (10, 0)"
| "thread_rank (AtCheck, e) = (9, 0)"
| "thread_rank (AtSwap, e) = (8, 0)"
| "thread_rank (Submitting batch, e) = (7, length batch)"
| "thread_rank (AtCancels, e) = (6, 0)"
| "thread_rank (Cancelling batch, e) = (5, length batch)"
| "thread_rank (Ticking, e) = (4, 0)"
| "thread_rank (Pushing k, e) = (3, push_work e k)"
| "thread_rank (AtBackpressure, e) = (2, 0)"
| "thread_rank (Dropping ids, e) = (1, length ids)"
| "thread_rank (Reaping ids, e) = (0, length ids)"
| "thread_rank (Exited, e) = (0, 0)"

abbreviation rank_less :: "((nat \<times> nat) \<times> (nat \<times> nat)) set" where
  "rank_less \<equiv> less_than <*lex*> less_than"

lemma rank_less_order: "wf rank_less" "trans rank_less"
  by (simp_all add: wf_lex_prod trans_lex_prod trans_less_than)

lemma push_work_step:
  assumes "k < length (en_active e)"
  shows "push_work e k = Suc (req_output_tokens_emitted (req_at (en_scheduler e) (ae_request (snd (en_active e ! k)))) -
    ae_last_seen_tokens (snd (en_active e ! k))) + push_work e (Suc k)"
  by (simp add: push_work_def Cons_nth_drop_Suc [OF assms, symmetric])

lemma push_loop_single:
  assumes "push_loop steady r [k] (entry, ch, w) = Inr (entry', ch', w')" "ae_last_seen_tokens entry = k"
  shows "ae_request entry' = ae_request entry"
    and "ae_last_seen_tokens entry' = k \<or> ae_last_seen_tokens entry' = Suc k"
  using assms by (auto split: if_splits prod.splits bool.splits option.splits)

lemma push_next_rank:
  assumes "push_next steady k e = Inr (pc', e')"
  shows "(thread_rank (pc', e'), thread_rank (Pushing k, e)) \<in> rank_less"
proof (cases "k < length (en_active e)")
  case True
  obtain i entry where k: "en_active e ! k = (i, entry)" by force
  obtain r where r: "deref (en_scheduler e) (ae_request entry) = Inr r"
    using assms True k by (auto simp: push_next_def bnd_eq_Inr)
  then have req: "r = req_at (en_scheduler e) (ae_request entry)"
    by (auto simp: deref_def req_at_def split: if_splits)
  show ?thesis
  proof (cases "ae_last_seen_tokens entry < req_output_tokens_emitted r")
    case more: True
    then obtain ch entry' ch' w where loop:
        "push_loop steady r [ae_last_seen_tokens entry] (entry, ch, en_world e) = Inr (entry', ch', w)"
      and pc': "pc' = (if ae_last_seen_tokens entry' > ae_last_seen_tokens entry then Pushing k else Pushing (Suc k))"
      and e': "e' = e\<lparr>en_channels := (en_channels e)(ae_channel entry \<mapsto> ch'), en_world := w,
        en_active := (en_active e)[k := (i, entry')]\<rparr>"
      using assms True k r by (auto simp: push_next_def bnd_eq_Inr simp del: push_loop.simps)
    note single = push_loop_single [OF loop refl]
    have k': "k < length (en_active e')" "en_active e' ! k = (i, entry')" and s': "en_scheduler e' = en_scheduler e"
      and rest: "push_work e' (Suc k) = push_work e (Suc k)"
      using True by (simp_all add: e' push_work_def)
    show ?thesis
      using push_work_step [OF True] push_work_step [OF k'(1)] single more
      by (auto simp: pc' k k' s' rest req)
  next
    case False
    then show ?thesis using assms True k r push_work_step [OF True] by (auto simp: push_next_def)
  qed
qed (use assms in \<open>auto simp: push_next_def\<close>)

lemma thread_step_rank:
  assumes "thread_step be now steady (pc, e) = Inr (pc', e')" "pc \<noteq> AtLoop" "pc \<noteq> Exited"
  shows "pc' = AtLoop \<or> pc' = Exited \<or> (thread_rank (pc', e'), thread_rank (pc, e)) \<in> rank_less"
  using assms
  by (cases "(be, now, steady, (pc, e))" rule: thread_step.cases)
    (auto simp: bnd_eq_Inr split: if_splits prod.splits dest: push_next_rank simp del: thread_rank.simps(8),
     auto)

lemma caller_step_rank:
  assumes "interleaved be now env steady n (pc, e, sent) (pc', e', sent')"
  shows "pc = AtLoop \<or> pc = Exited \<or> pc' = AtLoop \<or> pc' = Exited \<or>
    thread_rank (pc', e') = thread_rank (pc, e) \<or> (thread_rank (pc', e'), thread_rank (pc, e)) \<in> rank_less"
  using assms
proof cases
  case thread_moves
  then show ?thesis using thread_step_rank by blast
next
  case others_move
  then show ?thesis using caller_step_batch(2) [OF others_move(2) refl]
    by (cases pc) (auto simp: push_work_def)
qed auto

text \<open>A schedule: an infinite run of the system, started anywhere.\<close>

type_synonym 'w schedule = "nat \<Rightarrow> engine_pc \<times> 'w Engine \<times> stream_log"

definition thread_moves_at ::
  "'w InferenceBackend \<Rightarrow> 'w Clock \<Rightarrow> 'w Clock \<Rightarrow> 'w schedule \<Rightarrow> nat \<Rightarrow> bool" where
  "thread_moves_at be now steady f j \<longleftrightarrow>
     (case (f j, f (Suc j)) of ((pc, e, sent), (pc', e', sent')) \<Rightarrow>
        thread_step be now steady (pc, e) = Inr (pc', e'))"

lemma schedule_rank_mono:
  assumes steps: "\<And>j. interleaved be now env steady n (f j) (f (Suc j))"
    and inside: "\<And>j. m \<le> j \<Longrightarrow> fst (f j) \<noteq> AtLoop \<and> fst (f j) \<noteq> Exited"
    and "m \<le> j"
  shows "(thread_rank (fst (f j), fst (snd (f j))), thread_rank (fst (f m), fst (snd (f m)))) \<in> rank_less\<^sup>="
  using \<open>m \<le> j\<close>
proof (induction j rule: dec_induct)
  case (step j)
  obtain pc e sent pc' e' sent' where f: "f j = (pc, e, sent)" "f (Suc j) = (pc', e', sent')"
    by (metis prod_cases3)
  have "thread_rank (pc', e') = thread_rank (pc, e) \<or> (thread_rank (pc', e'), thread_rank (pc, e)) \<in> rank_less"
    using caller_step_rank [OF steps [of j, unfolded f]] inside [of j] inside [of "Suc j"] step(1) f by auto
  then show ?case
    using step.IH transD [OF rank_less_order(2)] by (simp add: f) (elim disjE, auto)
qed simp

section \<open>Reachable states\<close>

definition interleaved_run ::
  "'w InferenceBackend \<Rightarrow> 'w Clock \<Rightarrow> ('w \<Rightarrow> bool) \<Rightarrow> ('w \<Rightarrow> SequenceHandle set) \<Rightarrow> ('w \<Rightarrow> nat) \<Rightarrow>
   ('w \<Rightarrow> TimePoint) \<Rightarrow> ('w \<Rightarrow> 'w \<Rightarrow> bool) \<Rightarrow> 'w Clock \<Rightarrow> nat \<Rightarrow>
   engine_pc \<times> 'w Engine \<times> stream_log \<Rightarrow> bool" where
  "interleaved_run be now winv live room time env steady n x \<longleftrightarrow>
     engine_world be now winv live room time env steady \<and>
     (\<exists>cfg w0. winv w0 \<and> live w0 = {} \<and> n \<le> room w0 \<and>
        (interleaved be now env steady n)\<^sup>*\<^sup>* (Exited, Engine_new cfg Map.empty w0, \<lambda>_. []) x)"

lemma interleaved_run_inv:
  assumes "interleaved_run be now winv live room time env steady n (pc, e, sent)"
  shows "engine_world be now winv live room time env steady"
    and "engine_world.thread_inv winv live room time n pc e sent"
  using assms engine_world.interleaved_reach_inv by (fastforce simp: interleaved_run_def)+

lemma interleaved_run_step:
  "interleaved_run be now winv live room time env steady n x \<Longrightarrow> interleaved be now env steady n x y \<Longrightarrow>
   interleaved_run be now winv live room time env steady n y"
  unfolding interleaved_run_def by (auto intro: rtranclp.rtrancl_into_rtrancl)

section \<open>What closing a set of entries does\<close>

text \<open>The entries of \<open>is\<close> leave \<open>active_\<close> and their channels are closed; no other entry or channel changes.\<close>

definition closes :: "RequestId set \<Rightarrow> 'w Engine \<Rightarrow> 'w Engine \<Rightarrow> bool" where
  "closes is e e' \<longleftrightarrow>
     en_active e' = filter (\<lambda>(i, _). i \<notin> is) (en_active e) \<and>
     (\<forall>c. en_channels e' c =
        (if \<exists>i entry. (i, entry) \<in> set (en_active e) \<and> i \<in> is \<and> ae_channel entry = c
         then map_option close (en_channels e c) else en_channels e c))"

lemma closes_updates [simp]:
  shows "closes is (e\<lparr>en_pending_cancels := cs\<rparr>) e' = closes is e e'"
    and "closes is (e\<lparr>en_world := w\<rparr>) e' = closes is e e'"
    and "tracked_ids (e\<lparr>en_pending_cancels := cs\<rparr>) = tracked_ids e"
    and "tracked_ids (e\<lparr>en_world := w\<rparr>) = tracked_ids e"
  by (simp_all add: closes_def tracked_ids_def)

lemma closes_trans:
  assumes "closes is e e1" "closes js e1 e2"
  shows "closes (is \<union> js) e e2"
proof -
  have "en_channels e2 c = (if \<exists>i entry. (i, entry) \<in> set (en_active e) \<and> i \<in> is \<union> js \<and> ae_channel entry = c
      then map_option close (en_channels e c) else en_channels e c)" for c
  proof -
    have eq: "(\<exists>i entry. (i, entry) \<in> set (en_active e) \<and> i \<in> is \<union> js \<and> ae_channel entry = c) \<longleftrightarrow>
        (\<exists>i entry. (i, entry) \<in> set (en_active e) \<and> i \<in> is \<and> ae_channel entry = c) \<or>
        (\<exists>i entry. (i, entry) \<in> set (en_active e1) \<and> i \<in> js \<and> ae_channel entry = c)"
      using assms(1) by (simp add: closes_def) blast
    have "en_channels e2 c =
        (if \<exists>i entry. (i, entry) \<in> set (en_active e1) \<and> i \<in> js \<and> ae_channel entry = c
         then map_option close (en_channels e1 c) else en_channels e1 c)"
      "en_channels e1 c = (if \<exists>i entry. (i, entry) \<in> set (en_active e) \<and> i \<in> is \<and> ae_channel entry = c
         then map_option close (en_channels e c) else en_channels e c)"
      using assms unfolding closes_def by blast+
    then show ?thesis unfolding eq by auto
  qed
  then show ?thesis
    using assms by (simp add: closes_def filter_filter case_prod_unfold conj_commute)
qed

lemma closes_none: "fst ` set (en_active e) \<inter> is = {} \<Longrightarrow> en_active e' = en_active e \<Longrightarrow>
    en_channels e' = en_channels e \<Longrightarrow> closes is e e'"
  by (force simp: closes_def intro!: filter_True [symmetric])

lemma closed_out_closes:
  assumes "closed_out i e e'" "distinct (map fst (en_active e))"
  shows "closes {i} e e'"
proof -
  obtain entry ch where entry: "map_of (en_active e) i = Some entry" "en_channels e (ae_channel entry) = Some ch"
    and e': "e' = active_erase i (e\<lparr>en_channels := (en_channels e)(ae_channel entry \<mapsto> close ch)\<rparr>)"
    using assms(1) by (auto simp: closed_out_def)
  have "(i, entry') \<in> set (en_active e) \<longleftrightarrow> entry' = entry" for entry'
    using entry(1) assms(2) by (metis map_of_eq_Some_iff option.inject)
  then show ?thesis using entry(2) by (auto simp: closes_def e' active_erase_def)
qed

context engine_world
begin

text \<open>What \<open>drain_cancel\<close> and \<open>drop_entry\<close> leave of the rest of the engine.\<close>

definition cancels_only :: "RequestId set \<Rightarrow> 'a Engine \<Rightarrow> 'a Engine \<Rightarrow> bool" where
  "cancels_only is e e' \<longleftrightarrow>
     closes is e e' \<and> tracked_ids e' = tracked_ids e - is \<and>
     en_pending_submissions e' = en_pending_submissions e \<and> en_pending_cancels e' = en_pending_cancels e"

lemma cancels_only_trans:
  "cancels_only is e e1 \<Longrightarrow> cancels_only js e1 e2 \<Longrightarrow> cancels_only (is \<union> js) e e2"
  by (auto simp: cancels_only_def intro: closes_trans)

lemma closed_out_cancels:
  assumes "closed_out i e1 e2" "engine_inv n e1 sent" "en_active e1 = en_active e" "en_channels e1 = en_channels e"
    "en_pending_submissions e1 = en_pending_submissions e" "en_pending_cancels e1 = en_pending_cancels e"
    "tracked_ids e1 = tracked_ids e - {i}"
  shows "cancels_only {i} e e2"
proof -
  have "distinct (map fst (en_active e1))" using assms(2) by (simp add: engine_inv_def routes_inv_def)
  from closed_out_closes [OF assms(1) this] have "closes {i} e e2" unfolding closes_def assms(3,4) .
  moreover have "tracked_ids e2 = tracked_ids e1" "en_pending_submissions e2 = en_pending_submissions e1"
    "en_pending_cancels e2 = en_pending_cancels e1"
    using assms(1) by (auto simp: closed_out_def tracked_ids_def active_erase_def)
  ultimately show ?thesis using assms(5-7) by (simp add: cancels_only_def)
qed

lemma drain_cancel_only:
  assumes "engine_inv n e sent"
  shows "ok (drain_cancel be now i e) (\<lambda>e'. engine_inv n e' sent \<and> cancels_only {i} e e')"
proof -
  obtain e1 where c: "sched_cancel be now i e = Inr e1" "engine_inv n e1 sent" "en_active e1 = en_active e"
    "en_channels e1 = en_channels e" "en_pending_submissions e1 = en_pending_submissions e"
    "en_pending_cancels e1 = en_pending_cancels e" "tracked_ids e1 = tracked_ids e - {i}"
    "i \<notin> id_at (en_scheduler e1) ` set (tracked (en_scheduler e1))"
    using sched_cancel_ok [OF assms, of i] by (auto simp: ok_iff)
  show ?thesis
  proof (cases "map_of (en_active e1) i")
    case None
    then have "i \<notin> fst ` set (en_active e)" using c(3) by (simp add: map_of_eq_None_iff)
    then have "closes {i} e e1" using c(3,4) by (intro closes_none) auto
    then show ?thesis using c None by (simp add: drain_cancel_def cancels_only_def)
  next
    case (Some entry)
    then have "i \<in> fst ` set (en_active e1)" by (force dest: map_of_SomeD)
    then obtain e2 where e2: "close_and_erase i e1 = Inr e2" "closed_out i e1 e2"
      using ok_close_and_erase [of e1 sent i] c(2) by (auto simp: engine_inv_def ok_iff)
    have "cancels_only {i} e e2" by (rule closed_out_cancels [OF e2(2) c(2-7)])
    then show ?thesis
      using e2(1) Some c(1) engine_inv_closed_out [OF c(2) e2(2) c(8)]
      by (simp add: drain_cancel_def close_and_erase_def)
  qed
qed

lemma drop_entry_only:
  assumes "engine_inv n e sent" "i \<in> fst ` set (en_active e)"
  shows "ok (drop_entry be now i e) (\<lambda>e'. engine_inv n e' sent \<and> cancels_only {i} e e')"
proof -
  have "ok (drop_entry be now i e) (\<lambda>e'. drain_cancel be now i e = Inr e')"
    using drop_entry_ok [OF assms] assms(2) sched_cancel_ok [OF assms(1), of i]
    by (auto simp: drop_entry_def drain_cancel_def close_and_erase_def ok_iff split: option.splits)
  then show ?thesis using drain_cancel_only [OF assms(1), of i] by (auto elim!: ok_mono)
qed

lemma fold_cancels_only:
  assumes step: "\<And>i e. engine_inv n e sent \<Longrightarrow> P i e \<Longrightarrow> ok (f i e) (\<lambda>e'. engine_inv n e' sent \<and> cancels_only {i} e e')"
    and keep: "\<And>i j e e'. P j e \<Longrightarrow> cancels_only {i} e e' \<Longrightarrow> j \<noteq> i \<Longrightarrow> P j e'"
    and "engine_inv n e sent" "\<forall>i \<in> set is. P i e" "distinct is \<or> (\<forall>i e. P i e)"
  shows "ok (fold_res f is e) (\<lambda>e'. engine_inv n e' sent \<and> cancels_only (set is) e e')"
  using assms(3-5)
proof (induction "is" arbitrary: e)
  case Nil
  have "closes {} e e" by (simp add: closes_def)
  then show ?case using Nil by (simp add: cancels_only_def)
next
  case (Cons i js)
  obtain e1 where e1: "f i e = Inr e1" "engine_inv n e1 sent" "cancels_only {i} e e1"
    using step [OF Cons.prems(1)] Cons.prems(2) by (auto simp: ok_iff)
  have "\<forall>j \<in> set js. P j e1" using Cons.prems(2,3) keep [OF _ e1(3)] by auto
  then have "ok (fold_res f js e1) (\<lambda>e'. engine_inv n e' sent \<and> cancels_only (set js) e1 e')"
    using Cons.IH [OF e1(2)] Cons.prems(3) by auto
  then show ?case using e1(1) cancels_only_trans [OF e1(3)] by (auto elim!: ok_mono)
qed

lemma cancels_run:
  assumes "thread_inv n AtCancels e sent"
  shows "\<exists>e'. thread_runs be now steady (AtCancels, e) (Cancelling [], e') \<and> engine_inv n e' sent \<and>
    cancels_only (set (en_pending_cancels e)) (e\<lparr>en_pending_cancels := []\<rparr>) e'"
proof -
  let ?e = "e\<lparr>en_pending_cancels := []\<rparr>"
  have inv: "engine_inv n ?e sent" using thread_invD [OF assms] by simp
  obtain e' where fold: "fold_res (drain_cancel be now) (en_pending_cancels e) ?e = Inr e'"
    and e': "engine_inv n e' sent" "cancels_only (set (en_pending_cancels e)) ?e e'"
    using fold_cancels_only [where P = "\<lambda>_ _. True" and f = "drain_cancel be now", OF drain_cancel_only _ inv,
      of "en_pending_cancels e"] by (auto simp: ok_iff)
  have "thread_runs be now steady (Cancelling (en_pending_cancels e), ?e) (Cancelling [], e')"
    by (rule fold_res_runs [OF _ fold]) simp
  then have "thread_runs be now steady (AtCancels, e) (Cancelling [], e')" by (rule thread_runs_first [rotated]) simp
  then show ?thesis using e' by blast
qed

lemma drops_run:
  assumes "thread_inv n AtBackpressure e sent" "backpressure_expired steady e = (ids, e1)"
  shows "\<exists>e'. thread_runs be now steady (AtBackpressure, e) (Dropping [], e') \<and> engine_inv n e' sent \<and>
    cancels_only (set ids) e1 e'"
proof -
  have inv: "engine_inv n e sent" using thread_invD [OF assms(1)] by simp
  note ids = backpressure_expired_ids [OF inv assms(2)]
  have keep: "j \<in> fst ` set (en_active e')" if "j \<in> fst ` set (en_active e)" "cancels_only {i} e e'" "j \<noteq> i"
    for i j and e e' :: "'a Engine"
    using that by (force simp: cancels_only_def closes_def)
  have "ok (fold_res (drop_entry be now) ids e1) (\<lambda>e'. engine_inv n e' sent \<and> cancels_only (set ids) e1 e')"
    using ids by (intro fold_cancels_only [where P = "\<lambda>i e. i \<in> fst ` set (en_active e)"])
      (auto intro: drop_entry_only keep)
  then obtain e' where fold: "fold_res (drop_entry be now) ids e1 = Inr e'"
    and e': "engine_inv n e' sent" "cancels_only (set ids) e1 e'" by (auto simp: ok_iff)
  have "thread_runs be now steady (Dropping ids, e1) (Dropping [], e')" by (rule fold_res_runs [OF _ fold]) simp
  then have "thread_runs be now steady (AtBackpressure, e) (Dropping [], e')"
    by (rule thread_runs_first [rotated]) (simp add: assms(2))
  then show ?thesis using e' by blast
qed

end

section \<open>Runs over the mock backend\<close>

type_synonym mock_state = "engine_pc \<times> MockBackend Engine \<times> stream_log"

abbreviation mock_interleaved_run :: "nat \<Rightarrow> mock_state \<Rightarrow> bool" where
  "mock_interleaved_run \<equiv>
     interleaved_run mock_backend mock_now mock_inv mock_live mock_room mock_time mock_env mock_now"

definition demo_thread :: "nat \<Rightarrow> mock_state \<Rightarrow> mock_state" where
  "demo_thread k = (\<lambda>(pc, e, sent).
     case projr (thread_step mock_backend mock_now mock_now (pc, e)) of (pc, e) \<Rightarrow> (pc, e, sent)) ^^ k"

text \<open>A started engine and one channel of the given capacity.\<close>

definition demo_open :: "nat \<Rightarrow> mock_state" where
  "demo_open k = (case demo_e0 of (e, sent) \<Rightarrow>
     (AtLoop, e\<lparr>en_channels := (en_channels e)(0 \<mapsto> TokenChannel_new k)\<rparr>, sent))"

definition demo_idle :: mock_state where
  "demo_idle = demo_open 1"

definition demo_submit :: "mock_state \<Rightarrow> mock_state" where
  "demo_submit x = (case x of (pc, e, sent) \<Rightarrow> (pc, push_submission demo_sub e, sent))"

definition demo_cancel :: "mock_state \<Rightarrow> mock_state" where
  "demo_cancel x = (case x of (pc, e, sent) \<Rightarrow> (pc, engine_cancel ''a'' e, sent))"

definition demo_consume :: "mock_state \<Rightarrow> mock_state" where
  "demo_consume x = (case x of (pc, es) \<Rightarrow> (pc, demo_pop 0 es))"

definition demo_wait :: "Duration \<Rightarrow> mock_state \<Rightarrow> mock_state" where
  "demo_wait d x = (case x of (pc, e, sent) \<Rightarrow>
     (pc, e\<lparr>en_world := (en_world e)\<lparr>mb_clock := projr (advance d (mb_clock (en_world e)))\<rparr>\<rparr>, sent))"

text \<open>The consumer takes a token between two iterations of \<open>push_tokens\<close>, which makes room for the next.\<close>

definition demo_pushing :: mock_state where
  "demo_pushing = demo_thread 1 (demo_consume (demo_thread 21 (demo_submit demo_idle)))"

text \<open>A submission and its cancellation arrive between the two drains of an idle turn.\<close>

definition demo_lost :: mock_state where
  "demo_lost = demo_cancel (demo_submit (demo_thread 4 demo_idle))"

text \<open>The cancellation of a request that is being decoded is about to be drained.\<close>

definition demo_cancelling :: mock_state where
  "demo_cancelling = demo_thread 8 (demo_cancel (demo_thread 22 (demo_submit demo_idle)))"

text \<open>A consumer has not read for five seconds.\<close>

definition demo_slow :: mock_state where
  "demo_slow = demo_wait (ms 5000) (demo_thread 23 (demo_submit demo_idle))"

lemma thread_run_parts: "mock_interleaved_run n x \<Longrightarrow> mock_interleaved_run n (fst x, fst (snd x), snd (snd x))"
  by simp

lemma demo_thread_step:
  assumes "mock_interleaved_run n (demo_thread k x)"
  obtains pc e sent pc' e' where "demo_thread k x = (pc, e, sent)" "demo_thread (Suc k) x = (pc', e', sent)"
    "thread_step mock_backend mock_now mock_now (pc, e) = Inr (pc', e')"
proof -
  obtain pc e sent where x: "demo_thread k x = (pc, e, sent)" by (metis prod_cases3)
  have "mock_engine.thread_inv n pc e sent" using interleaved_run_inv(2) assms x by metis
  from mock_engine.thread_step_ok [OF this] obtain pc' e' where
    step: "thread_step mock_backend mock_now mock_now (pc, e) = Inr (pc', e')" by (auto simp: ok_iff)
  then have "demo_thread (Suc k) x = (pc', e', sent)" using x by (simp add: demo_thread_def)
  then show ?thesis using that x step by blast
qed

lemma thread_run_thread:
  assumes "mock_interleaved_run n x"
  shows "mock_interleaved_run n (demo_thread k x)"
proof (induction k)
  case (Suc k)
  then show ?case by (rule demo_thread_step) (metis Suc interleaved_run_step interleaved.thread_moves)
qed (simp add: demo_thread_def assms)

lemma thread_run_others:
  assumes "mock_interleaved_run n (pc, e, sent)" "caller_step mock_env n (pc_batch pc) (e, sent) (e', sent')"
  shows "mock_interleaved_run n (pc, e', sent')"
  using interleaved_run_step [OF assms(1)] interleaved.others_move [OF assms(2)] by blast

lemma demo_open_run: "mock_interleaved_run 9 (demo_open k)"
proof -
  let ?b = "MockBackend_new (FakeClock_new 0) (ms 1) (ms 5)"
  let ?e = "Engine_new EngineConfig_default Map.empty ?b"
  have "mock_inv ?b" by (simp add: mock_inv_new ms_def)
  moreover have "9 \<le> mock_room ?b" by (simp add: mock_room_def MockBackend_new_def)
  ultimately have "mock_interleaved_run 9 (Exited, ?e, \<lambda>_. [])"
    unfolding interleaved_run_def using mock_engine.engine_world_axioms
    by (auto intro!: exI [of _ EngineConfig_default] exI [of _ ?b])
  then have "mock_interleaved_run 9 (AtLoop, engine_start ?e, \<lambda>_. [])"
    by (rule interleaved_run_step) (simp add: interleaved.thread_starts Engine_new_def)
  then show ?thesis
    unfolding demo_open_def demo_e0_def prod.case
    by (rule thread_run_others) (rule caller_step.new_channel, simp_all add: engine_start_def Engine_new_def)
qed

lemmas demo_idle_run = demo_open_run [of 1, folded demo_idle_def]

lemma thread_run_submit:
  assumes "mock_interleaved_run 9 x"
    and "case x of (pc, e, sent) \<Rightarrow> length (pc_batch pc) = 0 \<and> length (en_pending_submissions e) = 0 \<and>
      length (en_active e) = 0 \<and> length (fs_requests (en_scheduler e)) = 0 \<and>
      map_option ch_buffer (en_channels e 0) = Some [] \<and> length (sent 0) = 0"
  shows "mock_interleaved_run 9 (demo_submit x)"
proof -
  obtain pc e sent where x: "x = (pc, e, sent)" by (metis prod_cases3)
  then obtain ch where ch: "en_channels e 0 = Some ch" "ch_buffer ch = []" using assms(2) by auto
  have "caller_step mock_env 9 (pc_batch pc) (e, sent) (push_submission demo_sub e, sent)"
    by (rule caller_step.net_submit [where ch = ch])
      (use assms(2) ch in \<open>simp_all add: x demo_sub_def stream_def\<close>)
  then show ?thesis using thread_run_others assms(1) by (simp add: x demo_submit_def)
qed

lemma thread_run_cancel:
  assumes "mock_interleaved_run n x"
  shows "mock_interleaved_run n (demo_cancel x)"
proof -
  obtain pc e sent where x: "x = (pc, e, sent)" by (metis prod_cases3)
  show ?thesis using thread_run_others [OF assms [unfolded x] caller_step.net_cancel] by (simp add: x demo_cancel_def)
qed

lemma thread_run_consume:
  assumes "mock_interleaved_run n x" "en_channels (fst (snd x)) 0 \<noteq> None"
  shows "mock_interleaved_run n (demo_consume x)"
proof -
  obtain pc e sent ch where x: "x = (pc, e, sent)" and ch: "en_channels e 0 = Some ch"
    using assms(2) by (cases x) auto
  show ?thesis
  proof (cases "\<exists>ev ch'. pop ch = Some (Some ev, ch')")
    case True
    then obtain ev ch' where p: "pop ch = Some (Some ev, ch')" by blast
    show ?thesis
      using thread_run_others [OF assms(1) [unfolded x] caller_step.consumer_pop [OF ch p]] p ch
      by (simp add: x demo_consume_def demo_pop_def)
  next
    case False
    then have "demo_consume x = x" by (auto simp: demo_consume_def demo_pop_def x ch split: option.splits)
    then show ?thesis using assms(1) by simp
  qed
qed

lemma thread_run_wait:
  assumes "mock_interleaved_run n x" "0 \<le> d"
  shows "mock_interleaved_run n (demo_wait d x)"
proof -
  obtain pc e sent where x: "x = (pc, e, sent)" by (metis prod_cases3)
  obtain c where c: "advance d (mb_clock (en_world e)) = Inr c" using assms(2) by (simp add: advance_def)
  show ?thesis
    using thread_run_others [OF assms(1) [unfolded x] caller_step.world_moves [where env = mock_env, OF mock_env.clock_runs [OF c]]] c
    by (simp add: x demo_wait_def)
qed

lemma demo_submitted_run: "mock_interleaved_run 9 (demo_submit demo_idle)"
  by (rule thread_run_submit [OF demo_idle_run]) code_simp

lemma demo_pushing_run: "mock_interleaved_run 9 demo_pushing"
  unfolding demo_pushing_def
  by (intro thread_run_thread thread_run_consume demo_submitted_run) code_simp

lemma demo_lost_run: "mock_interleaved_run 9 demo_lost"
  unfolding demo_lost_def
  by (rule thread_run_cancel, rule thread_run_submit [OF thread_run_thread [OF demo_idle_run]]) code_simp

lemma demo_cancelling_run: "mock_interleaved_run 9 demo_cancelling"
  unfolding demo_cancelling_def by (intro thread_run_thread thread_run_cancel demo_submitted_run)

lemma demo_slow_run: "mock_interleaved_run 9 demo_slow"
  unfolding demo_slow_def by (intro thread_run_wait thread_run_thread demo_submitted_run) (simp add: ms_def)

section \<open>Properties\<close>

text \<open>
  C10 (the engine thread never faults). Whatever network threads, consumers and the clock do between
  any two of its accesses to shared data, the next step of the engine thread returns: no panic, no
  throw from \<open>active_.at\<close>, no dangling channel or request pointer.
\<close>

theorem engine_thread_never_faults:
  assumes "interleaved_run be now winv live room time env steady n (pc, e, sent)"
  shows "\<exists>y. thread_step be now steady (pc, e) = Inr y"
  using engine_world.thread_step_ok [OF interleaved_run_inv, OF assms assms] by (auto simp: ok_iff)

theorem engine_thread_never_faults_witness:
  "\<exists>y. thread_step mock_backend mock_now mock_now (fst demo_pushing, fst (snd demo_pushing)) = Inr y"
  by (rule engine_thread_never_faults [OF thread_run_parts [OF demo_pushing_run]])

text \<open>
  C11 (token streams are faithful between any two steps). In every state the interleaved threads
  reach, also in the middle of \<open>push_tokens\<close>, what the consumer of an active request has received
  followed by what its channel still buffers is exactly the first \<open>last_seen_tokens\<close> tokens of that
  request: nothing is lost, repeated, reordered or taken from another request. Every request the
  scheduler works on has such a stream, and a request the thread is about to reap has ended and has
  sent all its tokens.
\<close>

theorem interleaved_streams_faithful:
  assumes "interleaved_run be now winv live room time env steady n (pc, e, sent)"
  shows "(\<forall>i entry. (i, entry) \<in> set (en_active e) \<longrightarrow>
      id_at (en_scheduler e) (ae_request entry) = i \<and>
      (\<exists>ch. en_channels e (ae_channel entry) = Some ch \<and>
         stream sent (ae_channel entry) ch =
           take (ae_last_seen_tokens entry)
             (req_output_token_ids (req_at (en_scheduler e) (ae_request entry))))) \<and>
    tracked_ids e \<subseteq> fst ` set (en_active e) \<and>
    (\<forall>ids. pc = Reaping ids \<longrightarrow> (\<forall>i \<in> set ids. \<exists>entry. (i, entry) \<in> set (en_active e) \<and>
       is_terminal (req_state (req_at (en_scheduler e) (ae_request entry))) \<and>
       (\<exists>ch. en_channels e (ae_channel entry) = Some ch \<and>
          stream sent (ae_channel entry) ch = req_output_token_ids (req_at (en_scheduler e) (ae_request entry)))))"
proof -
  note w = interleaved_run_inv(1) [OF assms] and inv = interleaved_run_inv(2) [OF assms]
  note defs = engine_world.thread_inv_def [OF w] engine_world.engine_inv_def [OF w]
  have routes: "routes_inv (with_batch pc e) sent" and sys: "backend_world.sys_inv winv live room time n (en_scheduler e, en_world e)"
    using inv by (simp_all add: defs)
  have entry: "id_at (en_scheduler e) (ae_request entry) = i"
    "ae_request entry < length (fs_requests (en_scheduler e))"
    "\<exists>ch. en_channels e (ae_channel entry) = Some ch \<and> stream sent (ae_channel entry) ch =
       take (ae_last_seen_tokens entry) (req_output_token_ids (req_at (en_scheduler e) (ae_request entry)))"
    if "(i, entry) \<in> set (en_active e)" for i entry
    using routes that by (auto simp: routes_inv_def entry_ok_def Let_def)
  have "\<exists>entry. (i, entry) \<in> set (en_active e) \<and>
      is_terminal (req_state (req_at (en_scheduler e) (ae_request entry))) \<and>
      (\<exists>ch. en_channels e (ae_channel entry) = Some ch \<and>
         stream sent (ae_channel entry) ch = req_output_token_ids (req_at (en_scheduler e) (ae_request entry)))"
    if "pc = Reaping ids" "i \<in> set ids" for ids i
  proof -
    have "i \<in> engine_world.delivered e"
      using inv that by (auto simp: defs engine_world.pc_inv_def [OF w])
    then obtain entry where del: "(i, entry) \<in> set (en_active e)"
      "is_terminal (req_state (req_at (en_scheduler e) (ae_request entry)))"
      "req_output_tokens_emitted (req_at (en_scheduler e) (ae_request entry)) \<le> ae_last_seen_tokens entry"
      by (auto simp: engine_world.delivered_def [OF w])
    then show ?thesis
      using entry(3) [OF del(1)] engine_world.sys_inv_req [OF w sys entry(2) [OF del(1)]] by force
  qed
  moreover have "tracked_ids e \<subseteq> fst ` set (en_active e)"
    using tracked_active_ids [OF routes] by (simp add: tracked_ids_def)
  ultimately show ?thesis using entry by blast
qed

theorem interleaved_streams_faithful_witness:
  "\<exists>ch. en_channels (fst (snd demo_pushing)) 0 = Some ch \<and> stream (snd (snd demo_pushing)) 0 ch = [1, 2] \<and>
     fst demo_pushing = Pushing 0"
proof -
  let ?e = "fst (snd demo_pushing)"
  let ?entry = "snd (hd (en_active ?e))"
  have "map fst (en_active ?e) = [''a'']" "ae_channel ?entry = 0" "ae_last_seen_tokens ?entry = 2"
    "ae_request ?entry = 0" "take 2 (req_output_token_ids (req_at (en_scheduler ?e) 0)) = [1, 2]"
    "fst demo_pushing = Pushing 0" by code_simp+
  moreover from this have "(''a'', ?entry) \<in> set (en_active ?e)" by (cases "en_active ?e") auto
  ultimately show ?thesis
    using interleaved_streams_faithful [OF thread_run_parts [OF demo_pushing_run]] by fastforce
qed



text \<open>
  C13 (every turn ends). In an infinite schedule of the engine thread, the network threads, the
  consumers and the clock in which the engine thread moves again and again, it comes back to the top
  of its loop, or has left it, again and again: no interference keeps it inside a turn forever.
\<close>

theorem engine_turns_end:
  assumes steps: "\<And>j. interleaved be now env steady n (f j) (f (Suc j))"
    and fair: "\<And>m. \<exists>j \<ge> m. thread_moves_at be now steady f j"
  shows "\<exists>j \<ge> m. fst (f j) = AtLoop \<or> fst (f j) = Exited"
proof (rule ccontr)
  assume "\<not> ?thesis"
  then have inside: "\<And>j. m \<le> j \<Longrightarrow> fst (f j) \<noteq> AtLoop \<and> fst (f j) \<noteq> Exited" by blast
  let ?rank = "\<lambda>j. thread_rank (fst (f j), fst (snd (f j)))"
  have "False" if "m \<le> i" for i
    using that
  proof (induction "?rank i" arbitrary: i rule: wf_induct_rule [OF rank_less_order(1)])
    case less: 1
    obtain j where j: "i \<le> j" "thread_moves_at be now steady f j" using fair by blast
    obtain pc e sent pc' e' sent' where f: "f j = (pc, e, sent)" "f (Suc j) = (pc', e', sent')"
      by (metis prod_cases3)
    have "thread_step be now steady (pc, e) = Inr (pc', e')" using j(2) by (simp add: thread_moves_at_def f)
    then have "(?rank (Suc j), ?rank j) \<in> rank_less"
      using thread_step_rank inside [of j] inside [of "Suc j"] less.prems j(1) f by fastforce
    moreover have "(?rank j, ?rank i) \<in> rank_less\<^sup>="
      using schedule_rank_mono [where f = f, OF steps _ j(1)] inside less.prems by simp
    ultimately have "(?rank (Suc j), ?rank i) \<in> rank_less"
      using transD [OF rank_less_order(2), of "?rank (Suc j)" "?rank j" "?rank i"] by auto
    then show False using less.hyps [of "Suc j"] less.prems j(1) by simp
  qed
  then show False by blast
qed

theorem engine_turns_end_witness:
  "\<exists>j \<ge> 1000. fst (demo_thread j (demo_submit demo_idle)) = AtLoop \<or>
     fst (demo_thread j (demo_submit demo_idle)) = Exited"
proof (rule engine_turns_end [where be = mock_backend and now = mock_now and env = mock_env and steady = mock_now
      and n = 9 and f = "\<lambda>j. demo_thread j (demo_submit demo_idle)"])
  fix j
  note run = thread_run_thread [OF demo_submitted_run, of j]
  show "interleaved mock_backend mock_now mock_env mock_now 9
      (demo_thread j (demo_submit demo_idle)) (demo_thread (Suc j) (demo_submit demo_idle))"
    by (rule demo_thread_step [OF run]) (simp add: interleaved.thread_moves)
  show "\<exists>k \<ge> j. thread_moves_at mock_backend mock_now mock_now (\<lambda>j. demo_thread j (demo_submit demo_idle)) k"
    by (rule demo_thread_step [OF run]) (auto simp: thread_moves_at_def intro!: exI [of _ j])
qed





text \<open>
  C16 (slow consumers). \<open>check_backpressure\<close> drops exactly the entries whose channel has refused tokens
  for \<open>backpressure_timeout\<close> or longer: their channels are closed and their requests leave the
  scheduler, and nobody else is disturbed.
\<close>

theorem backpressure_drops_overdue:
  assumes "interleaved_run be now winv live room time env steady n (AtBackpressure, e, sent)"
    and "steady (en_world e) = (t, w)"
  shows "\<exists>e'. thread_runs be now steady (AtBackpressure, e) (Dropping [], e') \<and>
    (let overdue = {i. \<exists>entry since. (i, entry) \<in> set (en_active e) \<and> ae_backpressure_since entry = Some since \<and>
        t - since \<ge> backpressure_timeout (en_config e)}
     in closes overdue e e' \<and> tracked_ids e' = tracked_ids e - overdue)"
proof -
  note world = interleaved_run_inv(1) [OF assms(1)]
  let ?overdue = "{i. \<exists>entry since. (i, entry) \<in> set (en_active e) \<and> ae_backpressure_since entry = Some since \<and>
    t - since \<ge> backpressure_timeout (en_config e)}"
  obtain ids e1 where ex: "backpressure_expired steady e = (ids, e1)" by force
  have ids: "set ids = ?overdue" and e1: "e1 = e\<lparr>en_world := w\<rparr>"
    using ex assms(2) by (force simp: backpressure_expired_def split: option.splits)+
  show ?thesis
    using engine_world.drops_run [OF world interleaved_run_inv(2) [OF assms(1)] ex]
    unfolding engine_world.cancels_only_def [OF world] ids e1 Let_def by auto
qed

theorem backpressure_drops_overdue_witness:
  "\<exists>e'. thread_runs mock_backend mock_now mock_now (AtBackpressure, fst (snd demo_slow)) (Dropping [], e') \<and>
     en_active e' = [] \<and> tracked_ids e' = {}"
proof -
  let ?e = "fst (snd demo_slow)"
  have *: "fst demo_slow = AtBackpressure" "tracked_ids ?e = {''a''}" "map fst (en_active ?e) = [''a'']"
    "map (ae_backpressure_since \<circ> snd) (en_active ?e) = [Some (ms 11)]" "fst (mock_now (en_world ?e)) = ms 5011"
    "backpressure_timeout (en_config ?e) = ms 5000" by code_simp+
  obtain entry where act: "en_active ?e = [(''a'', entry)]" "ae_backpressure_since entry = Some (ms 11)"
    using *(3,4) by (cases "en_active ?e") auto
  have "mock_now (en_world ?e) = (ms 5011, en_world ?e)" using *(5) by (simp add: mock_now_def)
  from backpressure_drops_overdue [OF thread_run_parts [OF demo_slow_run, unfolded *(1)] this] show ?thesis
    by (auto simp: act *(2,6) closes_def ms_def)
qed

end
