(* ===== verification/Engine_Drain.thy ===== *)
theory Engine_Drain
  imports Engine_Interleaving
begin

text \<open>
  Liveness of the engine: when every channel has room for what its request may still emit, turns
  of the engine loop bring every active and every waiting request to its end, and each channel ends
  closed, having carried all the tokens of its request. Deadlines may pass and the backend may answer
  with errors: then the request ends earlier, and the channel with it.
\<close>

section \<open>Channels with room\<close>

definition has_room :: "'w Engine \<Rightarrow> ChanPtr \<Rightarrow> nat \<Rightarrow> bool" where
  "has_room e c m \<longleftrightarrow> (\<exists>ch. en_channels e c = Some ch \<and> \<not> ch_closed ch \<and> length (ch_buffer ch) + m \<le> ch_capacity ch)"

definition entry_roomy :: "'w Engine \<Rightarrow> ActiveEntry \<Rightarrow> bool" where
  "entry_roomy e entry \<longleftrightarrow>
     ae_backpressure_since entry = None \<and>
     has_room e (ae_channel entry)
       (req_max_output_tokens (req_at (en_scheduler e) (ae_request entry)) - ae_last_seen_tokens entry)"

definition roomy :: "'w Engine \<Rightarrow> bool" where
  "roomy e \<longleftrightarrow>
     (\<forall>x \<in> set (en_active e). entry_roomy e (snd x)) \<and>
     (\<forall>sub \<in> set (en_pending_submissions e). has_room e (sub_channel sub) (sub_max_tokens sub))"

text \<open>Which request an entry streams to which channel.\<close>

definition stream_route :: "RequestId \<times> ActiveEntry \<Rightarrow> RequestId \<times> ReqPtr \<times> ChanPtr" where
  "stream_route x = (fst x, ae_request (snd x), ae_channel (snd x))"

definition stream_routes :: "'w Engine \<Rightarrow> (RequestId \<times> ReqPtr \<times> ChanPtr) list" where
  "stream_routes e = map stream_route (en_active e)"

text \<open>What the delivering phases keep beside the entries and channels they work on.\<close>

definition frame :: "'w Engine \<Rightarrow> 'w Engine \<Rightarrow> bool" where
  "frame e e' \<longleftrightarrow>
     en_running e' = en_running e \<and> en_pending_submissions e' = en_pending_submissions e \<and>
     en_pending_cancels e' = en_pending_cancels e \<and>
     (\<forall>c. c \<notin> (snd \<circ> snd) ` set (stream_routes e) \<longrightarrow> en_channels e' c = en_channels e c)"

lemma stream_routes_simps [simp]:
  "stream_routes (e\<lparr>en_active := xs\<rparr>) = map stream_route xs" "stream_routes (e\<lparr>en_world := w\<rparr>) = stream_routes e"
  "stream_routes (e\<lparr>en_scheduler := s\<rparr>) = stream_routes e" "stream_routes (e\<lparr>en_channels := cs\<rparr>) = stream_routes e"
  by (simp_all add: stream_routes_def)

section \<open>Pushing with room\<close>

lemma pushed_all:
  assumes "pushed steady r m (entry, ch, w) (entry', ch', w')" "\<not> ch_closed ch"
    and "length (ch_buffer ch) + (b - ae_last_seen_tokens entry) \<le> ch_capacity ch" "m \<le> b"
    and "ae_backpressure_since entry = None"
  shows "ae_last_seen_tokens entry' = m" and "ae_backpressure_since entry' = None"
    and "\<not> ch_closed ch'" and "length (ch_buffer ch') + (b - m) \<le> ch_capacity ch'"
    and "ae_request entry' = ae_request entry" and "ae_channel entry' = ae_channel entry"
proof -
  let ?k = "ae_last_seen_tokens entry" and ?j = "ae_last_seen_tokens entry'"
  have le: "?k \<le> ?j" "?j \<le> m" and ch': "ch' = ch\<lparr>ch_buffer := ch_buffer ch @ token_events r ?k ?j\<rparr>"
    and full: "?j < m \<Longrightarrow> ch_closed ch' \<or> ch_capacity ch' \<le> length (ch_buffer ch')"
    using assms(1) by (auto simp: pushed_def Let_def)
  have len: "length (ch_buffer ch') = length (ch_buffer ch) + (?j - ?k)"
    by (simp add: ch' token_events_def)
  show j: "?j = m"
  proof (rule ccontr)
    assume "?j \<noteq> m"
    then have "ch_capacity ch \<le> length (ch_buffer ch) + (?j - ?k)" "?j < m"
      using full le(2) assms(2) len by (auto simp: ch')
    then show False using assms(3,4) le by linarith
  qed
  show "ae_backpressure_since entry' = None" "ae_request entry' = ae_request entry"
    "ae_channel entry' = ae_channel entry"
    using assms(1,5) j by (auto simp: pushed_def Let_def split: if_splits)
  show "\<not> ch_closed ch'" using assms(2) by (simp add: ch')
  show "length (ch_buffer ch') + (b - m) \<le> ch_capacity ch'" using len j le assms(3,4) by (simp add: ch')
qed

definition all_sent :: "FifoScheduler \<Rightarrow> RequestId \<times> ActiveEntry \<Rightarrow> bool" where
  "all_sent s x \<longleftrightarrow> ae_last_seen_tokens (snd x) = req_output_tokens_emitted (req_at s (ae_request (snd x)))"

context engine_world
begin

lemma sys_inv_budget:
  assumes "sys_inv n (s, w)" "p < length (fs_requests s)"
  shows "req_output_tokens_emitted (req_at s p) \<le> req_max_output_tokens (req_at s p)"
  using assms unfolding sys_inv_def sched_inv_def requests_inv_def req_inv_def by auto

text \<open>One entry of \<open>push_tokens\<close>.\<close>

lemma push_entry_roomy:
  assumes inv: "engine_inv n (e\<lparr>en_active := xs @ x # ys\<rparr>) sent"
    and room: "roomy (e\<lparr>en_active := xs @ x # ys\<rparr>)"
  shows "ok (push_entry steady x (xs, e)) (\<lambda>(xs', e'). \<exists>x'. xs' = xs @ [x'] \<and> stream_route x' = stream_route x \<and>
    all_sent (en_scheduler e) x' \<and> en_scheduler e' = en_scheduler e \<and>
    engine_inv n (e'\<lparr>en_active := xs' @ ys\<rparr>) sent \<and> roomy (e'\<lparr>en_active := xs' @ ys\<rparr>) \<and>
    frame (e\<lparr>en_active := xs @ x # ys\<rparr>) e')"
proof -
  obtain i entry where x: "x = (i, entry)" by force
  let ?s = "en_scheduler e" and ?p = "ae_request entry" and ?c = "ae_channel entry"
  let ?r = "req_at ?s ?p"
  have sys: "sys_inv n (?s, en_world e)" and routes: "routes_inv (e\<lparr>en_active := xs @ (i, entry) # ys\<rparr>) sent"
    using inv by (simp_all add: engine_inv_def x)
  have ok: "?p < length (fs_requests ?s)" "ae_last_seen_tokens entry \<le> length (req_output_token_ids ?r)"
    using routes by (auto simp: routes_inv_def entry_ok_def Let_def)
  have len: "req_output_tokens_emitted ?r = length (req_output_token_ids ?r)" by (rule sys_inv_req [OF sys ok(1)])
  have budget: "length (req_output_token_ids ?r) \<le> req_max_output_tokens ?r"
    using sys_inv_budget [OF sys ok(1)] len by simp
  obtain ch where ch: "en_channels e ?c = Some ch" "\<not> ch_closed ch" "ae_backpressure_since entry = None"
    "length (ch_buffer ch) + (req_max_output_tokens ?r - ae_last_seen_tokens entry) \<le> ch_capacity ch"
    using room x by (auto simp: roomy_def entry_roomy_def has_room_def)
  have dr: "deref ?s ?p = Inr ?r" using ok(1) by (simp add: deref_def req_at_def)
  let ?is = "[ae_last_seen_tokens entry..<length (req_output_token_ids ?r)]"
  obtain entry' ch' w' where loop: "push_loop steady ?r ?is (entry, ch, en_world e) = Inr (entry', ch', w')"
    and push: "pushed steady ?r (length (req_output_token_ids ?r)) (entry, ch, en_world e) (entry', ch', w')"
    using ok_push_loop [OF order_refl ok(2), of steady ch "en_world e"] by (auto simp: ok_iff)
  note all = pushed_all [OF push ch(2,4) budget ch(3)]
  let ?e = "e\<lparr>en_channels := (en_channels e)(?c \<mapsto> ch'), en_world := w'\<rparr>"
  have call: "push_entry steady x (xs, e) = Inr (xs @ [(i, entry')], ?e)"
  proof (cases "ae_last_seen_tokens entry < length (req_output_token_ids ?r)")
    case False
    then have "entry' = entry" "ch' = ch" "w' = en_world e" using loop by simp_all
    then show ?thesis
      using False dr len channels_idem [OF ch(1)] by (simp add: push_entry_def x Let_def)
  next
    case True
    then have "?is \<noteq> []" by auto
    then show ?thesis
      using dr len ch(1) loop all(6) by (simp add: push_entry_def x channel_at_def Let_def del: upt_eq_Nil_conv)
  qed
  have inv': "engine_inv n (?e\<lparr>en_active := xs @ (i, entry') # ys\<rparr>) sent"
    using push_entry_ok [OF inv [unfolded x]] call x by simp
  note dist = routes_other_channels [OF routes]
  have "roomy (?e\<lparr>en_active := xs @ (i, entry') # ys\<rparr>)"
    using room dist all len unfolding x
    by (auto simp: roomy_def entry_roomy_def has_room_def)
  moreover have "frame (e\<lparr>en_active := xs @ x # ys\<rparr>) ?e" by (auto simp: frame_def x stream_route_def)
  ultimately show ?thesis using call inv' all len x by (simp add: stream_route_def all_sent_def)
qed

lemma push_tokens_roomy:
  assumes "engine_inv n e sent" "roomy e"
  shows "ok (push_tokens steady e) (\<lambda>e'. engine_inv n e' sent \<and> roomy e' \<and> frame e e' \<and> stream_routes e' = stream_routes e \<and>
    en_scheduler e' = en_scheduler e \<and> (\<forall>x \<in> set (en_active e'). all_sent (en_scheduler e) x))"
proof -
  let ?I = "\<lambda>ys (xs, e'). engine_inv n (e'\<lparr>en_active := xs @ ys\<rparr>) sent \<and> roomy (e'\<lparr>en_active := xs @ ys\<rparr>) \<and>
    frame e e' \<and> map stream_route (xs @ ys) = stream_routes e \<and> en_scheduler e' = en_scheduler e \<and>
    (\<forall>x \<in> set xs. all_sent (en_scheduler e) x)"
  have "ok (fold_res (push_entry steady) (en_active e) ([], e)) (?I [])"
  proof (rule ok_fold_res)
    fix x ys and xe :: "(RequestId \<times> ActiveEntry) list \<times> 'a Engine"
    assume I: "?I (x # ys) xe"
    obtain xs e1 where xe: "xe = (xs, e1)" by force
    have r: "stream_routes (e1\<lparr>en_active := xs @ x # ys\<rparr>) = stream_routes e" using I xe by simp
    have "frame e e2" if "frame (e1\<lparr>en_active := xs @ x # ys\<rparr>) e2" for e2
      using that I unfolding frame_def r xe prod.case by (simp del: stream_routes_simps)
    then show "ok (push_entry steady x xe) (?I ys)"
      using push_entry_roomy [where n = n and e = e1 and xs = xs and x = x and ys = ys and sent = sent] I
      unfolding xe by (auto elim!: ok_mono)
  qed (use assms in \<open>simp add: frame_def stream_routes_def active_update_id\<close>)
  then show ?thesis by (auto simp: push_tokens_def frame_def elim!: ok_mono)
qed

lemma check_backpressure_roomy:
  assumes "roomy e"
  shows "\<exists>w. check_backpressure be now steady e = Inr (e\<lparr>en_world := w\<rparr>)"
proof -
  obtain t w where st: "steady (en_world e) = (t, w)" by force
  have none: "filter (\<lambda>(i, entry). case ae_backpressure_since entry of None \<Rightarrow> False
      | Some since \<Rightarrow> backpressure_timeout (en_config e) \<le> t - since) (en_active e) = []"
    using assms by (auto simp: roomy_def entry_roomy_def filter_empty_conv)
  show ?thesis by (auto simp: check_backpressure_def backpressure_expired_def st none)
qed

lemma engine_tick_effect:
  assumes "engine_inv n e sent"
  shows "ok (engine_tick be now e) (\<lambda>e'. engine_inv n e' sent \<and> (\<exists>rep s' w'. e' = e\<lparr>en_scheduler := s', en_world := w'\<rparr> \<and>
    tick_effect (time (en_world e)) (time w') (en_scheduler e) rep s'))"
proof -
  have "sys_inv n (en_scheduler e, en_world e)" using assms by (simp add: engine_inv_def)
  then obtain rep s' w' where "tick be now (en_scheduler e, en_world e) = Inr (rep, s', w')"
    and "tick_effect (time (en_world e)) (time w') (en_scheduler e) rep s'"
    using sys_inv_tick by (fastforce simp: ok_iff)
  then show ?thesis using engine_tick_ok [OF assms] by (auto simp: engine_tick_def)
qed

text \<open>A stream that has been delivered to its end; nothing touches it again.\<close>

definition finished :: "'a Engine \<Rightarrow> stream_log \<Rightarrow> RequestId \<Rightarrow> ReqPtr \<Rightarrow> ChanPtr \<Rightarrow> bool" where
  "finished e sent i p c \<longleftrightarrow>
     id_at (en_scheduler e) p = i \<and> p < length (fs_requests (en_scheduler e)) \<and> is_terminal (req_state (req_at (en_scheduler e) p)) \<and>
     c \<notin> (snd \<circ> snd) ` set (stream_routes e) \<and>
     (\<exists>ch. en_channels e c = Some ch \<and> ch_closed ch \<and>
        stream sent c ch = req_output_token_ids (req_at (en_scheduler e) p))"

lemma roomy_reaped:
  assumes "routes_inv e sent" "roomy e"
    and ch: "\<forall>(i, entry) \<in> set (en_active e). chans (ae_channel entry) =
      (if ended (en_scheduler e) entry then map_option close else id) (en_channels e (ae_channel entry))"
    and other: "\<And>c. c \<notin> (ae_channel \<circ> snd) ` set (en_active e) \<Longrightarrow> chans c = en_channels e c"
  shows "roomy (e\<lparr>en_active := filter (\<lambda>x. \<not> ended (en_scheduler e) (snd x)) (en_active e), en_channels := chans\<rparr>)"
proof -
  have "chans (ae_channel (snd x)) = en_channels e (ae_channel (snd x))"
    if "x \<in> set (en_active e)" "\<not> ended (en_scheduler e) (snd x)" for x using ch that by force
  moreover have "chans (sub_channel sub) = en_channels e (sub_channel sub)" if "sub \<in> set (en_pending_submissions e)" for sub
  proof (rule other)
    have "(ae_channel \<circ> snd) ` set (en_active e) \<inter> sub_channel ` set (en_pending_submissions e) = {}"
      using assms(1) by (simp add: routes_inv_def)
    then show "sub_channel sub \<notin> (ae_channel \<circ> snd) ` set (en_active e)" using that by blast
  qed
  ultimately show ?thesis using assms(2) by (simp add: roomy_def entry_roomy_def has_room_def)
qed

lemma reap_roomy:
  assumes inv: "engine_inv n e sent" and room: "roomy e" and sent: "\<forall>x \<in> set (en_active e). all_sent (en_scheduler e) x"
  shows "ok (reap_terminal e) (\<lambda>e'. engine_inv n e' sent \<and> roomy e' \<and> frame e e' \<and> en_scheduler e' = en_scheduler e \<and>
    stream_routes e' = filter (\<lambda>(i, p, c). \<not> is_terminal (req_state (req_at (en_scheduler e) p))) (stream_routes e) \<and>
    (\<forall>(i, p, c) \<in> set (stream_routes e). is_terminal (req_state (req_at (en_scheduler e) p)) \<longrightarrow> finished e' sent i p c))"
proof -
  let ?s = "en_scheduler e"
  have routes: "routes_inv e sent" using inv by (simp add: engine_inv_def)
  have T: "ended ?s (snd x) \<longleftrightarrow> is_terminal (req_state (req_at ?s (ae_request (snd x))))" if "x \<in> set (en_active e)" for x
    using sent that by (auto simp: ended_def all_sent_def)
  obtain e' chans where e': "reap_terminal e = Inr e'" "engine_inv n e' sent"
    and upd: "e' = e\<lparr>en_active := filter (\<lambda>x. \<not> ended ?s (snd x)) (en_active e), en_channels := chans\<rparr>"
    and ch: "\<forall>(i, entry) \<in> set (en_active e). chans (ae_channel entry) =
      (if ended ?s entry then map_option close else id) (en_channels e (ae_channel entry))"
    and other: "\<And>c. c \<notin> (ae_channel \<circ> snd) ` set (en_active e) \<Longrightarrow> chans c = en_channels e c"
    using reap_exact [OF inv] by (auto simp: ok_iff)
  have "finished e' sent i (ae_request entry) (ae_channel entry)"
    if x: "(i, entry) \<in> set (en_active e)" and e: "ended ?s entry" for i entry
  proof -
    have "entry' = entry" if "(j, entry') \<in> set (en_active e)" "ae_channel entry' = ae_channel entry" for j entry'
      using route_unique [OF routes x that(1)] that(2) by simp
    then have "ae_channel entry \<notin> (snd \<circ> snd) ` set (stream_routes e')"
      using e by (force simp: stream_routes_def upd stream_route_def)
    moreover obtain c0 where "en_channels e (ae_channel entry) = Some c0"
      "ae_request entry < length (fs_requests ?s)" "id_at ?s (ae_request entry) = i"
      "stream sent (ae_channel entry) c0 = req_output_token_ids (req_at ?s (ae_request entry))"
      using ended_stream [OF inv x e] .
    moreover have "chans (ae_channel entry) = map_option close (en_channels e (ae_channel entry))" using ch x e by auto
    ultimately show ?thesis using e by (simp add: finished_def upd ended_def close_def stream_def)
  qed
  then have "\<forall>(i, p, c) \<in> set (stream_routes e). is_terminal (req_state (req_at ?s p)) \<longrightarrow> finished e' sent i p c"
    using T by (force simp: stream_routes_def stream_route_def)
  moreover have "stream_routes e' = filter (\<lambda>(i, p, c). \<not> is_terminal (req_state (req_at ?s p))) (stream_routes e)"
    using T by (auto simp: stream_routes_def upd filter_map stream_route_def comp_def intro!: arg_cong [where f = "map _"] filter_cong)
  moreover have "roomy e'" unfolding upd by (rule roomy_reaped [OF routes room ch other])
  moreover have "frame e e'"
    using other by (auto simp: frame_def upd stream_routes_def stream_route_def image_comp comp_def)
  ultimately show ?thesis using e' upd by simp
qed

lemma tick_effect_terms:
  assumes "tick_effect t t' s rep s'" "queues_inv s" "p < length (fs_requests s)"
  shows "req_max_output_tokens (req_at s' p) = req_max_output_tokens (req_at s p)"
  using tick_effect_requests [OF assms(1,2), of p] assms(3)
  by (cases "p \<in> set (tracked s)") (auto simp: ticked_def same_terms_def)

lemma tick_effect_remaining:
  assumes "tick_effect t t' s rep s'" "queues_inv s" "p \<in> set (tracked s')"
  shows "p \<in> set (tracked s) \<and> remaining s' p = remaining s p - 1"
proof -
  note qu = tick_effect_queues [OF assms(1,2)]
  have tr: "tracked s' = fs_decoding s'" using qu(1) by (simp add: tracked_def)
  have p: "p \<in> set (tracked s)"
    using assms(3) tr subseq_subset [OF qu(2)] by (auto simp: fifo_line_def tracked_def)
  then show ?thesis
    using remaining_ticked tick_effect_requests(1) [OF assms(1,2) p] assms(3) tr by simp
qed

text \<open>The tick and the delivery after it.\<close>

definition deliver :: "'a Engine \<Rightarrow> 'a Engine res" where
  "deliver e = bnd (engine_tick be now e) (\<lambda>e. bnd (push_tokens steady e) (\<lambda>e.
     bnd (check_backpressure be now steady e) reap_terminal))"

lemma untracked_terminal:
  assumes "sys_inv n (s, w)" "p < length (fs_requests s)"
  shows "is_terminal (req_state (req_at s p)) \<longleftrightarrow> p \<notin> set (tracked s)"
  using assms tracked_not_terminal [OF assms(1)]
  by (auto simp: sys_inv_def sched_inv_def requests_inv_def status_ok_def tracked_def)

lemma finished_later:
  assumes fin: "finished e sent i p c"
    and sched: "req_at (en_scheduler e') p = req_at (en_scheduler e) p"
      "length (fs_requests (en_scheduler e)) \<le> length (fs_requests (en_scheduler e'))"
    and c: "c \<notin> (snd \<circ> snd) ` set (stream_routes e')" "en_channels e' c = en_channels e c"
  shows "finished e' sent i p c"
  using assms by (auto simp: finished_def id_at_def)

lemma deliver_roomy:
  assumes inv: "engine_inv n e sent" and room: "roomy e"
  shows "ok (deliver e) (\<lambda>e'. engine_inv n e' sent \<and> roomy e' \<and> frame e e' \<and>
    (\<forall>p \<in> set (tracked (en_scheduler e')). p \<in> set (tracked (en_scheduler e)) \<and>
       remaining (en_scheduler e') p = remaining (en_scheduler e) p - 1) \<and>
    (\<forall>(i, p, c) \<in> set (stream_routes e'). p \<in> set (tracked (en_scheduler e'))) \<and>
    (\<forall>(i, p, c) \<in> set (stream_routes e). finished e' sent i p c \<or> (i, p, c) \<in> set (stream_routes e')) \<and>
    (\<forall>i p c. finished e sent i p c \<longrightarrow> finished e' sent i p c))"
proof -
  let ?s = "en_scheduler e"
  have q: "queues_inv ?s" by (rule engine_inv_queues [OF inv])
  have lt: "p < length (fs_requests ?s)" if "(i, p, c) \<in> set (stream_routes e)" for i p c
    using inv that by (auto simp: engine_inv_def routes_inv_def stream_routes_def stream_route_def entry_ok_def Let_def)
  obtain e1 rep s1 w1 where e1: "engine_tick be now e = Inr e1" "engine_inv n e1 sent"
    "e1 = e\<lparr>en_scheduler := s1, en_world := w1\<rparr>" and eff: "tick_effect (time (en_world e)) (time w1) ?s rep s1"
    using engine_tick_effect [OF inv] by (auto simp: ok_iff)
  note len = tick_effect_queues(3) [OF eff q]
  have "entry_roomy e1 (snd x) = entry_roomy e (snd x)" if "x \<in> set (en_active e)" for x
  proof -
    have "ae_request (snd x) < length (fs_requests ?s)"
      using that lt [of "fst x" "ae_request (snd x)" "ae_channel (snd x)"] by (auto simp: stream_routes_def stream_route_def)
    then show ?thesis
      using tick_effect_terms [OF eff q] by (simp add: entry_roomy_def has_room_def e1(3))
  qed
  then have "roomy e1" using room by (simp add: roomy_def has_room_def e1(3))
  then obtain e2 where e2: "push_tokens steady e1 = Inr e2" "engine_inv n e2 sent" "roomy e2" "frame e1 e2"
    "stream_routes e2 = stream_routes e1" "en_scheduler e2 = s1" "\<forall>x \<in> set (en_active e2). all_sent s1 x"
    using push_tokens_roomy [OF e1(2)] by (auto simp: ok_iff e1(3))
  obtain w where e3: "check_backpressure be now steady e2 = Inr (e2\<lparr>en_world := w\<rparr>)" (is "_ = Inr ?e3")
    using check_backpressure_roomy [OF e2(3)] by blast
  have inv3: "engine_inv n ?e3 sent" using check_backpressure_ok [OF e2(2)] e3 by simp
  have room3: "roomy ?e3" using e2(3) by (simp add: roomy_def entry_roomy_def has_room_def)
  obtain e' where e': "reap_terminal ?e3 = Inr e'" "engine_inv n e' sent" "roomy e'" "frame ?e3 e'"
    "en_scheduler e' = s1"
    "stream_routes e' = filter (\<lambda>(i, p, c). \<not> is_terminal (req_state (req_at s1 p))) (stream_routes e)"
    "\<forall>(i, p, c) \<in> set (stream_routes e). is_terminal (req_state (req_at s1 p)) \<longrightarrow> finished e' sent i p c"
    using reap_roomy [OF inv3 room3] e2(5,6,7) by (auto simp: ok_iff e1(3))
  have frame: "frame e e'" using e2(4,5) e'(4) by (auto simp: frame_def e1(3))
  have sys: "sys_inv n (s1, en_world e')" using e'(2,5) by (simp add: engine_inv_def)
  have "p \<in> set (tracked s1)" if "(i, p, c) \<in> set (stream_routes e')" for i p c
    using untracked_terminal [OF sys, of p] lt that len unfolding e'(6) by auto
  moreover have "finished e' sent i p c" if "finished e sent i p c" for i p c
  proof (rule finished_later [OF that])
    have p: "p < length (fs_requests ?s)" "p \<notin> set (tracked ?s)"
      using that untracked_terminal [of n ?s "en_world e" p] inv by (auto simp: finished_def engine_inv_def)
    show "req_at (en_scheduler e') p = req_at ?s p" using tick_effect_requests(3) [OF eff q p] e'(5) by simp
    show "c \<notin> (snd \<circ> snd) ` set (stream_routes e')" using that unfolding e'(6) by (auto simp: finished_def)
    show "en_channels e' c = en_channels e c" using that frame by (auto simp: finished_def frame_def)
  qed (simp add: e'(5) len)
  moreover have "deliver e = Inr e'" using e1(1) e2(1) e3 e'(1) by (simp add: deliver_def)
  ultimately show ?thesis
    using e' frame tick_effect_remaining [OF eff q] by (auto simp: e'(6))
qed

section \<open>Whole turns\<close>

text \<open>What admitting the waiting submissions gives: a stream_route for each, and nothing else.\<close>

definition admitted_all :: "Submission list \<Rightarrow> 'a Engine \<Rightarrow> 'a Engine \<Rightarrow> bool" where
  "admitted_all subs e e' \<longleftrightarrow>
     en_running e' = en_running e \<and> en_pending_cancels e' = en_pending_cancels e \<and>
     en_channels e' = en_channels e \<and> set (stream_routes e) \<subseteq> set (stream_routes e') \<and>
     (\<forall>sub \<in> set subs. \<exists>p. (sub_id sub, p, sub_channel sub) \<in> set (stream_routes e')) \<and>
     (snd \<circ> snd) ` set (stream_routes e') = (snd \<circ> snd) ` set (stream_routes e) \<union> sub_channel ` set subs \<and>
     length (fs_requests (en_scheduler e)) \<le> length (fs_requests (en_scheduler e')) \<and>
     (\<forall>p < length (fs_requests (en_scheduler e)). req_at (en_scheduler e') p = req_at (en_scheduler e) p) \<and>
     (\<forall>p \<in> set (tracked (en_scheduler e')). p \<in> set (tracked (en_scheduler e)) \<or>
        (\<exists>sub \<in> set subs. remaining (en_scheduler e') p = sub_max_tokens sub))"

lemma admitted_all_trans:
  assumes "admitted_all [sub] e e1" "admitted_all subs e1 e2"
    and "set (tracked (en_scheduler e1)) \<subseteq> {..<length (fs_requests (en_scheduler e1))}"
  shows "admitted_all (sub # subs) e e2"
proof -
  have "p \<in> set (tracked (en_scheduler e)) \<or> (\<exists>sub' \<in> set (sub # subs). remaining (en_scheduler e2) p = sub_max_tokens sub')"
    if "p \<in> set (tracked (en_scheduler e2))" for p
  proof (cases "p \<in> set (tracked (en_scheduler e1))")
    case True
    then have "remaining (en_scheduler e2) p = remaining (en_scheduler e1) p"
      using assms(2,3) by (auto simp: admitted_all_def remaining_def)
    then show ?thesis using assms(1) True by (auto simp: admitted_all_def)
  qed (use assms(2) that in \<open>auto simp: admitted_all_def\<close>)
  moreover have "\<exists>p. (sub_id sub', p, sub_channel sub') \<in> set (stream_routes e2)" if "sub' \<in> set (sub # subs)" for sub'
    using assms(1,2) that by (auto simp: admitted_all_def)
  ultimately show ?thesis using assms(1,2) by (auto simp: admitted_all_def)
qed

lemma admitted_one:
  assumes "req_max_output_tokens r = sub_max_tokens sub" "req_output_tokens_emitted r = 0"
  shows "admitted_all [sub] e (admitted r sub w e)"
  using assms
  by (auto simp: admitted_all_def admitted_def stream_routes_def stream_route_def fresh_entry_def req_at_enqueue remaining_def tracked_def)

lemma roomy_admitted:
  assumes "roomy (e\<lparr>en_pending_submissions := sub # subs\<rparr>)" "req_max_output_tokens r = sub_max_tokens sub"
    and "\<forall>x \<in> set (en_active e). ae_request (snd x) < length (fs_requests (en_scheduler e))"
  shows "roomy ((admitted r sub w e)\<lparr>en_pending_submissions := subs\<rparr>)"
  using assms
  by (auto simp: roomy_def entry_roomy_def has_room_def admitted_def fresh_entry_def req_at_enqueue)

lemma drain_submissions_roomy:
  assumes "engine_inv n e sent" "roomy e"
  shows "ok (drain_submissions now e) (\<lambda>e'. engine_inv n e' sent \<and> roomy e' \<and> en_pending_submissions e' = [] \<and>
    admitted_all (en_pending_submissions e) e e')"
proof -
  have "ok (fold_res (drain_submission now) subs e) (\<lambda>e'. engine_inv n e' sent \<and> roomy e' \<and>
      en_pending_submissions e' = [] \<and> admitted_all subs e e')"
    if "engine_inv n (e\<lparr>en_pending_submissions := subs\<rparr>) sent" "roomy (e\<lparr>en_pending_submissions := subs\<rparr>)"
      "en_pending_submissions e = []" for subs e
    using that
  proof (induction subs arbitrary: e)
    case Nil
    then show ?case by (simp add: pending_update_id admitted_all_def)
  next
    case (Cons sub subs)
    obtain e1 r w where e1: "drain_submission now sub e = Inr e1" "engine_inv n (e1\<lparr>en_pending_submissions := subs\<rparr>) sent"
      "en_pending_submissions e1 = []" "e1 = admitted r sub w e" "req_max_output_tokens r = sub_max_tokens sub"
      "req_output_tokens_emitted r = 0"
      using drain_submission_ok [OF Cons.prems(1)] Cons.prems(3) by (auto simp: ok_iff)
    have "\<forall>x \<in> set (en_active e). ae_request (snd x) < length (fs_requests (en_scheduler e))"
      using Cons.prems(1) by (auto simp: engine_inv_def routes_inv_def entry_ok_def Let_def)
    then have "roomy (e1\<lparr>en_pending_submissions := subs\<rparr>)"
      unfolding e1(4) by (rule roomy_admitted [OF Cons.prems(2) e1(5)])
    note rest = Cons.IH [OF e1(2) this e1(3)]
    have "set (tracked (en_scheduler e1)) \<subseteq> {..<length (fs_requests (en_scheduler e1))}"
      using engine_inv_queues [OF e1(2)] by (simp add: queues_inv_def)
    from admitted_all_trans [OF admitted_one [OF e1(5,6), of e w, folded e1(4)] _ this] rest e1(1)
    show ?case by (auto elim!: ok_mono)
  qed
  from this [of "en_pending_submissions e" "e\<lparr>en_pending_submissions := []\<rparr>"] assms
  have "ok (drain_submissions now e) (\<lambda>e'. engine_inv n e' sent \<and> roomy e' \<and>
      en_pending_submissions e' = [] \<and> admitted_all (en_pending_submissions e) (e\<lparr>en_pending_submissions := []\<rparr>) e')"
    by (simp add: drain_submissions_def pending_update_id)
  then show ?thesis by (rule ok_mono) (simp add: admitted_all_def stream_routes_def)
qed

text \<open>The loop is on its way to \<open>k\<close> turns from now: every token budget fits.\<close>

definition due :: "nat \<Rightarrow> 'a Engine \<Rightarrow> bool" where
  "due k e \<longleftrightarrow> en_running e \<and> en_pending_cancels e = [] \<and> roomy e \<and>
     (\<forall>p \<in> set (tracked (en_scheduler e)). remaining (en_scheduler e) p \<le> k) \<and>
     (\<forall>sub \<in> set (en_pending_submissions e). sub_max_tokens sub \<le> k)"

definition kept_on :: "stream_log \<Rightarrow> 'a Engine \<Rightarrow> 'a Engine \<Rightarrow> bool" where
  "kept_on sent e e' \<longleftrightarrow>
     (\<forall>i p c. finished e sent i p c \<or> (i, p, c) \<in> set (stream_routes e) \<longrightarrow>
        finished e' sent i p c \<or> (i, p, c) \<in> set (stream_routes e'))"

lemma kept_on_trans: "kept_on sent e e1 \<Longrightarrow> kept_on sent e1 e2 \<Longrightarrow> kept_on sent e e2"
  unfolding kept_on_def by blast

lemma admitted_remaining:
  assumes "engine_inv n e sent" "admitted_all (en_pending_submissions e) e e1" "due k e" "p \<in> set (tracked (en_scheduler e1))"
  shows "remaining (en_scheduler e1) p \<le> k"
proof (cases "p \<in> set (tracked (en_scheduler e))")
  case True
  then have "req_at (en_scheduler e1) p = req_at (en_scheduler e) p"
    using assms(2) tracked_lt [OF engine_inv_queues [OF assms(1)]] by (auto simp: admitted_all_def)
  then show ?thesis using True assms(3) by (simp add: due_def remaining_def)
next
  case False
  then show ?thesis using assms(2-4) by (auto simp: admitted_all_def due_def)
qed

lemma finished_admitted:
  assumes adm: "admitted_all (en_pending_submissions e) e e1" and "roomy e" and fin: "finished e sent i p c"
  shows "finished e1 sent i p c"
proof -
  have "c \<notin> sub_channel ` set (en_pending_submissions e)" using assms(2,3) by (auto simp: finished_def roomy_def has_room_def)
  then have "c \<notin> (snd \<circ> snd) ` set (stream_routes e1)"
    using fin adm unfolding finished_def admitted_all_def by blast
  then show ?thesis using adm fin by (intro finished_later [OF fin]) (auto simp: admitted_all_def finished_def)
qed

lemma turn_roomy:
  assumes inv: "engine_inv n e sent" and "due (Suc k) e"
  shows "ok (engine_turn be now steady e) (\<lambda>e'. engine_inv n e' sent \<and> due k e' \<and>
    en_pending_submissions e' = [] \<and> (\<forall>(i, p, c) \<in> set (stream_routes e'). p \<in> set (tracked (en_scheduler e'))) \<and>
    kept_on sent e e' \<and> (\<forall>sub \<in> set (en_pending_submissions e). \<exists>p.
      finished e' sent (sub_id sub) p (sub_channel sub) \<or> (sub_id sub, p, sub_channel sub) \<in> set (stream_routes e')))"
proof -
  have room: "roomy e" and run: "en_running e" "en_pending_cancels e = []" using assms(2) by (simp_all add: due_def)
  obtain e1 where e1: "drain_submissions now e = Inr e1" "engine_inv n e1 sent" "roomy e1"
    "en_pending_submissions e1 = []" and adm: "admitted_all (en_pending_submissions e) e e1"
    using drain_submissions_roomy [OF inv room] by (auto simp: ok_iff)
  have "en_pending_cancels e1 = []" using adm run by (simp add: admitted_all_def)
  then have drained: "drain_cancels be now e1 = Inr e1" by (cases e1) (simp add: drain_cancels_def)
  note rem = admitted_remaining [OF inv adm assms(2)] and fin1 = finished_admitted [OF adm room]
  show ?thesis
  proof (cases "en_active e1 = []")
    case True
    then have "tracked_ids e1 \<subseteq> {}"
      using tracked_active_ids [of e1 sent] e1(2) by (simp add: engine_inv_def tracked_ids_def)
    then have "tracked (en_scheduler e1) = []" by (simp add: tracked_ids_def)
    moreover have "stream_routes e1 = []" using True by (simp add: stream_routes_def)
    ultimately show ?thesis
      using True e1 drained run fin1 adm by (auto simp: engine_turn_def due_def kept_on_def admitted_all_def)
  next
    case False
    obtain e' where e': "deliver e1 = Inr e'" "engine_inv n e' sent" "roomy e'" "frame e1 e'"
      and tr: "\<forall>p \<in> set (tracked (en_scheduler e')). p \<in> set (tracked (en_scheduler e1)) \<and>
        remaining (en_scheduler e') p = remaining (en_scheduler e1) p - 1"
      and live: "\<forall>(i, p, c) \<in> set (stream_routes e'). p \<in> set (tracked (en_scheduler e'))"
      and kept: "\<forall>(i, p, c) \<in> set (stream_routes e1). finished e' sent i p c \<or> (i, p, c) \<in> set (stream_routes e')"
        "\<forall>i p c. finished e1 sent i p c \<longrightarrow> finished e' sent i p c"
      using deliver_roomy [OF e1(2,3)] by (auto simp: ok_iff)
    have "remaining (en_scheduler e') p \<le> k" if "p \<in> set (tracked (en_scheduler e'))" for p
      using tr rem that by force
    then have "due k e'" using e'(3,4) e1(4) adm run by (simp add: due_def frame_def admitted_all_def)
    moreover have "engine_turn be now steady e = Inr e'"
      using run(1) e1(1) drained False e'(1) by (simp add: engine_turn_def deliver_def)
    moreover have "kept_on sent e e'" unfolding kept_on_def
    proof (intro allI impI)
      fix i p c assume "finished e sent i p c \<or> (i, p, c) \<in> set (stream_routes e)"
      then have "finished e1 sent i p c \<or> (i, p, c) \<in> set (stream_routes e1)"
        using fin1 adm by (auto simp: admitted_all_def)
      then show "finished e' sent i p c \<or> (i, p, c) \<in> set (stream_routes e')" using kept by blast
    qed
    moreover have "\<exists>p. finished e' sent (sub_id sub) p (sub_channel sub) \<or>
        (sub_id sub, p, sub_channel sub) \<in> set (stream_routes e')" if "sub \<in> set (en_pending_submissions e)" for sub
      using kept(1) adm that by (fastforce simp: admitted_all_def)
    ultimately show ?thesis using e'(2,4) e1(4) live by (simp add: frame_def)
  qed
qed

end

fun engine_turns :: "'w InferenceBackend \<Rightarrow> 'w Clock \<Rightarrow> 'w Clock \<Rightarrow> nat \<Rightarrow> 'w Engine \<Rightarrow> 'w Engine res" where
  "engine_turns be now steady 0 e = Inr e"
| "engine_turns be now steady (Suc k) e = bnd (engine_turn be now steady e) (engine_turns be now steady k)"

context engine_world
begin

lemma turns_roomy:
  assumes "engine_inv n e sent" "due k e" "en_pending_submissions e = []"
    and "\<forall>(i, p, c) \<in> set (stream_routes e). p \<in> set (tracked (en_scheduler e))"
  shows "ok (engine_turns be now steady k e) (\<lambda>e'. engine_inv n e' sent \<and> en_active e' = [] \<and>
    tracked (en_scheduler e') = [] \<and> kept_on sent e e')"
  using assms
proof (induction k arbitrary: e)
  case 0
  have "sched_inv (live (en_world e)) (time (en_world e)) (en_scheduler e)"
    using 0(1) by (simp add: engine_inv_def sys_inv_def)
  then have "tracked (en_scheduler e) = []"
    using sched_inv_remaining 0(2) by (fastforce simp: due_def neq_Nil_conv)
  moreover from this have "stream_routes e = []" using 0(4) by (cases "stream_routes e") auto
  ultimately show ?case using 0(1) by (simp add: stream_routes_def kept_on_def)
next
  case (Suc k)
  show ?case
    using turn_roomy [OF Suc.prems(1,2)] Suc.IH kept_on_trans
    by (auto elim!: ok_mono) (blast intro: ok_mono kept_on_trans)
qed

lemma engine_drains:
  assumes "engine_inv n e sent" "due (Suc k) e"
  shows "ok (engine_turns be now steady (Suc k) e) (\<lambda>e'. engine_inv n e' sent \<and> en_active e' = [] \<and>
    tracked (en_scheduler e') = [] \<and>
    (\<forall>(i, p, c) \<in> set (stream_routes e). finished e' sent i p c) \<and>
    (\<forall>sub \<in> set (en_pending_submissions e). \<exists>p. finished e' sent (sub_id sub) p (sub_channel sub)))"
proof -
  obtain e1 where e1: "engine_turn be now steady e = Inr e1" "engine_inv n e1 sent" "due k e1"
      "en_pending_submissions e1 = []" "\<forall>(i, p, c) \<in> set (stream_routes e1). p \<in> set (tracked (en_scheduler e1))"
    and kept: "kept_on sent e e1" "\<forall>sub \<in> set (en_pending_submissions e). \<exists>p.
      finished e1 sent (sub_id sub) p (sub_channel sub) \<or> (sub_id sub, p, sub_channel sub) \<in> set (stream_routes e1)"
    using turn_roomy [OF assms] by (auto simp: ok_iff)
  obtain e' where e': "engine_turns be now steady k e1 = Inr e'" "engine_inv n e' sent" "en_active e' = []"
    "tracked (en_scheduler e') = []" "kept_on sent e1 e'"
    using turns_roomy [OF e1(2-5)] by (auto simp: ok_iff)
  have none: "stream_routes e' = []" using e'(3) by (simp add: stream_routes_def)
  have "kept_on sent e e'" by (rule kept_on_trans [OF kept(1) e'(5)])
  then have "\<forall>(i, p, c) \<in> set (stream_routes e). finished e' sent i p c" by (auto simp: kept_on_def none)
  moreover have "\<forall>sub \<in> set (en_pending_submissions e). \<exists>p. finished e' sent (sub_id sub) p (sub_channel sub)"
    using kept(2) e'(5) unfolding kept_on_def none by (metis empty_iff empty_set)
  ultimately show ?thesis using e1(1) e' by simp
qed

end

section \<open>The property\<close>

text \<open>
  C12 (every stream is delivered). Let the engine run with no cancellation waiting and with room in
  every channel for what its request may still emit. After as many turns as the largest token budget
  left, no request is active and the backend holds no handle; the channel of every request that was
  active or waiting is closed and has carried all the tokens its request emitted, in order, whether
  the request ended by its budget, by an end of sequence, by an error or by its deadline.
\<close>

theorem engine_delivers_all:
  assumes "interleaved_run be now winv live room time env steady n (AtLoop, e, sent)"
    and "en_running e" "en_pending_cancels e = []" "roomy e"
    and "\<forall>p \<in> set (tracked (en_scheduler e)). remaining (en_scheduler e) p \<le> Suc k"
    and "\<forall>sub \<in> set (en_pending_submissions e). sub_max_tokens sub \<le> Suc k"
  shows "\<exists>e'. engine_turns be now steady (Suc k) e = Inr e' \<and> en_active e' = [] \<and> live (en_world e') = {} \<and>
    (\<forall>i c. (\<exists>entry. (i, entry) \<in> set (en_active e) \<and> ae_channel entry = c) \<or>
        (\<exists>sub \<in> set (en_pending_submissions e). sub_id sub = i \<and> sub_channel sub = c) \<longrightarrow>
      (\<exists>p ch. id_at (en_scheduler e') p = i \<and> is_terminal (req_state (req_at (en_scheduler e') p)) \<and>
         en_channels e' c = Some ch \<and> ch_closed ch \<and>
         stream sent c ch = req_output_token_ids (req_at (en_scheduler e') p)))"
proof -
  note w = interleaved_run_inv(1) [OF assms(1)]
  have inv: "engine_world.engine_inv winv live room time n e sent"
    using engine_world.thread_invD [OF w interleaved_run_inv(2) [OF assms(1)]] by simp
  have "engine_world.due (Suc k) e" using assms(2-6) by (simp add: engine_world.due_def [OF w])
  from engine_world.engine_drains [OF w inv this] obtain e' where
    e': "engine_turns be now steady (Suc k) e = Inr e'" "engine_world.engine_inv winv live room time n e' sent"
      "en_active e' = []" "tracked (en_scheduler e') = []"
    and act: "\<forall>(i, p, c) \<in> set (stream_routes e). engine_world.finished e' sent i p c"
    and pend: "\<forall>sub \<in> set (en_pending_submissions e). \<exists>p.
      engine_world.finished e' sent (sub_id sub) p (sub_channel sub)"
    unfolding ok_iff by blast
  have "sched_inv (live (en_world e')) (time (en_world e')) (en_scheduler e')"
    using e'(2) by (simp add: engine_world.engine_inv_def [OF w] backend_world.sys_inv_def [OF engine_world.axioms(1) [OF w]])
  then have "live (en_world e') = {}" using e'(4) by (auto simp: sched_inv_def handles_inv_def tracked_def)
  moreover have "\<exists>p. engine_world.finished e' sent i p c"
    if "(\<exists>entry. (i, entry) \<in> set (en_active e) \<and> ae_channel entry = c) \<or>
        (\<exists>sub \<in> set (en_pending_submissions e). sub_id sub = i \<and> sub_channel sub = c)" for i c
    using that act pend by (fastforce simp: stream_routes_def stream_route_def)
  ultimately show ?thesis using e'(1,3) by (fastforce simp: engine_world.finished_def [OF w])
qed

definition demo_wide :: mock_state where
  "demo_wide = demo_submit (demo_open 8)"

lemma demo_wide_run: "mock_interleaved_run 9 demo_wide"
  unfolding demo_wide_def by (rule thread_run_submit [OF demo_open_run]) code_simp

theorem engine_delivers_all_witness:
  "\<exists>e'. engine_turns mock_backend mock_now mock_now 5 (fst (snd demo_wide)) = Inr e' \<and> mock_live (en_world e') = {} \<and>
     (\<exists>ch. en_channels e' 0 = Some ch \<and> ch_closed ch)"
proof -
  let ?e = "fst (snd demo_wide)"
  have *: "fst demo_wide = AtLoop" "en_running ?e" "length (en_pending_cancels ?e) = 0" "length (en_active ?e) = 0"
    "tracked (en_scheduler ?e) = []" "en_pending_submissions ?e = [demo_sub]" by code_simp+
  have "en_channels ?e 0 = Some (TokenChannel_new 8)" by code_simp
  then have "has_room ?e 0 5" by (simp add: has_room_def TokenChannel_new_def)
  then have "roomy ?e" using *(4,6) by (simp add: roomy_def demo_sub_def)
  with engine_delivers_all [where k = 4, OF thread_run_parts [OF demo_wide_run, unfolded *(1)]] * show ?thesis
    by (fastforce simp: demo_sub_def)
qed

end
