(* ===== verification/Telemetry.thy ===== *)
theory Telemetry
  imports Scheduler
begin

text \<open>
  The scheduler trace of \<open>include/tokamak/telemetry/\<close> and \<open>src/telemetry/\<close>: one event per tick,
  one JSON object per line. The JSON library is third-party code: an object is the list of keys
  and values the source hands to it, and \<open>dump\<close>, which prints one, is an argument.
\<close>

record TraceEvent =
  ev_iteration :: nat
  ev_timestamp_ns :: int
  ev_policy :: string
  ev_runnable_prefill :: nat
  ev_runnable_decode :: nat
  ev_selected_sequences :: nat
  ev_prefill_tokens :: nat
  ev_decode_tokens :: nat

datatype json_scalar = JUnsigned nat | JSigned int | JString string

type_synonym json_object = "(string \<times> json_scalar) list"

definition make_trace_event :: "TickReport \<Rightarrow> nat \<Rightarrow> string \<Rightarrow> TimePoint \<Rightarrow> TraceEvent" where
  "make_trace_event report iteration policy sim_start =
     \<lparr>ev_iteration = iteration,
      ev_timestamp_ns = tr_timestamp report - sim_start,
      ev_policy = policy,
      ev_runnable_prefill = tr_prefill_attempted report,
      ev_runnable_decode = tr_decode_attempted report,
      ev_selected_sequences = tr_decode_attempted report,
      ev_prefill_tokens = tr_prefill_tokens report,
      ev_decode_tokens = tr_decode_tokens report\<rparr>"

definition to_json :: "TraceEvent \<Rightarrow> json_object" where
  "to_json event =
     [(''iteration'', JUnsigned (ev_iteration event)),
      (''timestamp_ns'', JSigned (ev_timestamp_ns event)),
      (''policy'', JString (ev_policy event)),
      (''runnable_prefill'', JUnsigned (ev_runnable_prefill event)),
      (''runnable_decode'', JUnsigned (ev_runnable_decode event)),
      (''selected_sequences'', JUnsigned (ev_selected_sequences event)),
      (''prefill_tokens'', JUnsigned (ev_prefill_tokens event)),
      (''decode_tokens'', JUnsigned (ev_decode_tokens event))]"

text \<open>\<open>TraceWriter\<close> holds a reference to a stream; the stream is the text written to it so far.\<close>

type_synonym TraceWriter = string

definition trace_write :: "(json_object \<Rightarrow> string) \<Rightarrow> TraceEvent \<Rightarrow> TraceWriter \<Rightarrow> TraceWriter" where
  "trace_write dump event out = out @ dump (to_json event) @ ''\<newline>''"

section \<open>Reading a trace back\<close>

text \<open>The event a consumer of the trace reconstructs from an object.\<close>

definition of_json :: "json_object \<Rightarrow> TraceEvent option" where
  "of_json j =
     (case map (map_of j) [''iteration'', ''timestamp_ns'', ''policy'', ''runnable_prefill'',
             ''runnable_decode'', ''selected_sequences'', ''prefill_tokens'', ''decode_tokens''] of
        [Some (JUnsigned i), Some (JSigned t), Some (JString p), Some (JUnsigned rp),
         Some (JUnsigned rd), Some (JUnsigned sel), Some (JUnsigned pt), Some (JUnsigned dt)] \<Rightarrow>
          Some \<lparr>ev_iteration = i, ev_timestamp_ns = t, ev_policy = p, ev_runnable_prefill = rp,
                ev_runnable_decode = rd, ev_selected_sequences = sel, ev_prefill_tokens = pt,
                ev_decode_tokens = dt\<rparr>
      | _ \<Rightarrow> None)"

lemma of_json_to_json: "of_json (to_json ev) = Some ev"
  by (cases ev) (simp add: of_json_def to_json_def)

lemma trace_lines:
  assumes "\<And>j. CHR 0x0A \<notin> set (dump j)"
  shows "getlines (fold (trace_write dump) evs []) = map (dump \<circ> to_json) evs"
proof -
  have "fold (trace_write dump) evs out = out @ concat (map (\<lambda>ev. dump (to_json ev) @ [CHR 0x0A]) evs)" for out
    by (induction evs arbitrary: out) (auto simp: trace_write_def)
  moreover have "getlines (concat (map (\<lambda>ev. dump (to_json ev) @ [CHR 0x0A]) evs)) = map (dump \<circ> to_json) evs"
    by (induction evs) (auto simp: getlines_line assms)
  ultimately show ?thesis by simp
qed

section \<open>Properties\<close>


text \<open>A printer to instantiate it with: numbers in unary, strings with newlines escaped.\<close>

fun plain :: "string \<Rightarrow> string" where
  "plain [] = [CHR 0x22]"
| "plain (c # cs) = (if c = CHR 0x0A then CHR 0x5C # CHR 0x6E # plain cs else CHR 0x3D # c # plain cs)"

fun unplain :: "string \<Rightarrow> (string \<times> string) option" where
  "unplain (c # cs) =
     (if c = CHR 0x22 then Some ([], cs)
      else case cs of
             [] \<Rightarrow> None
           | d # ds \<Rightarrow> map_option (apfst ((#) (if c = CHR 0x5C then CHR 0x0A else d))) (unplain ds))"
| "unplain [] = None"

fun scalar_text :: "json_scalar \<Rightarrow> string" where
  "scalar_text (JUnsigned n) = ''u'' @ plain (replicate n CHR 0x31)"
| "scalar_text (JSigned k) = (if k < 0 then ''m'' else ''p'') @ plain (replicate (nat \<bar>k\<bar>) CHR 0x31)"
| "scalar_text (JString s) = ''s'' @ plain s"

fun object_text :: "json_object \<Rightarrow> string" where
  "object_text [] = []"
| "object_text ((k, v) # j) = plain k @ scalar_text v @ object_text j"

function text_object :: "nat \<Rightarrow> string \<Rightarrow> json_object option" where
  "text_object 0 cs = (if cs = [] then Some [] else None)"
| "text_object (Suc n) cs =
     (if cs = [] then Some []
      else case unplain cs of
             Some (k, t # rest) \<Rightarrow>
               (case unplain rest of
                  Some (v, rest') \<Rightarrow>
                    map_option ((#) (k,
                      if t = CHR 0x75 then JUnsigned (length v)
                      else if t = CHR 0x6D then JSigned (- int (length v))
                      else if t = CHR 0x70 then JSigned (int (length v)) else JString v)) (text_object n rest')
                | None \<Rightarrow> None)
           | _ \<Rightarrow> None)"
  by pat_completeness auto

termination by (relation "measure fst") auto

lemma unplain_plain [simp]: "unplain (plain s @ rest) = Some (s, rest)"
  by (induction s) auto

lemma newline_free_plain [simp]: "CHR 0x0A \<notin> set (plain s)"
  by (induction s) auto

lemma newline_free_object: "CHR 0x0A \<notin> set (object_text j)"
proof (induction j rule: object_text.induct)
  case (2 k v j)
  then show ?case by (cases v) auto
qed simp

lemma plain_not_Nil [simp]: "plain s \<noteq> []"
  by (cases s) auto

lemma text_object_inverts: "length j \<le> n \<Longrightarrow> text_object n (object_text j) = Some j"
proof (induction j arbitrary: n rule: object_text.induct)
  case (1 n)
  then show ?case by (cases n) auto
next
  case (2 k v j)
  then obtain m where n: "n = Suc m" "length j \<le> m" by (cases n) auto
  have "text_object m (object_text j) = Some j" by (rule "2.IH" [OF n(2)])
  then show ?case using n(1) by (cases v) auto
qed

lemma length_object_text: "length j \<le> length (object_text j)"
proof (induction j rule: object_text.induct)
  case (2 k v j)
  then show ?case by (cases v) auto
qed simp


end
