(* ===== verification/Double.thy ===== *)
theory Double
  imports Clock Complex_Main
begin

text \<open>
  The \<open>double\<close> arithmetic the simulation, the analysis and the command line use: rounding to the
  nearest binary64 value, ties to even, on rationals. A double is a rational that rounding leaves
  alone; an arithmetic operation is the exact one followed by rounding. The exponent is not
  bounded: the program's times (milliseconds of a 64-bit count of nanoseconds) and rates stay far
  from the overflow and underflow thresholds.

  The locale \<open>fp_rounding\<close> states the laws the other components use; \<open>rnd64\<close> keeps them.
\<close>

section \<open>Rounding\<close>

function ilog2 :: "int \<Rightarrow> nat" where
  "ilog2 n = (if n < 2 then 0 else Suc (ilog2 (n div 2)))"
  by pat_completeness auto

termination
  by (relation "measure nat") auto

declare ilog2.simps [simp del]

text \<open>The \<open>e\<close> with \<open>2^e \<le> x < 2^(e+1)\<close>, for a positive \<open>x\<close>.\<close>

definition expo :: "rat \<Rightarrow> int" where
  "expo x =
     (case quotient_of x of (n, d) \<Rightarrow>
        let k = int (ilog2 n) - int (ilog2 d)
        in if 2 powi k \<le> x then k else k - 1)"

definition half_even :: "rat \<Rightarrow> int" where
  "half_even x =
     (let f = \<lfloor>x\<rfloor>; r = x - of_int f
      in if r < 1 / 2 then f else if r > 1 / 2 then f + 1 else if even f then f else f + 1)"

definition rnd_pos :: "rat \<Rightarrow> rat" where
  "rnd_pos x = (if x = 0 then 0 else of_int (half_even (x / 2 powi (expo x - 52))) * 2 powi (expo x - 52))"

definition rnd64 :: "rat \<Rightarrow> rat" where
  "rnd64 x = (if x < 0 then - rnd_pos (- x) else rnd_pos x)"

section \<open>Its laws\<close>

lemma ilog2_bounds: "0 < n \<Longrightarrow> 2 ^ ilog2 n \<le> n \<and> n < 2 ^ Suc (ilog2 n)"
proof (induction n rule: ilog2.induct)
  case (1 n)
  show ?case
  proof (cases "n < 2")
    case True
    then show ?thesis using 1 by (simp add: ilog2.simps)
  next
    case False
    then have "2 ^ ilog2 (n div 2) \<le> n div 2 \<and> n div 2 < 2 ^ Suc (ilog2 (n div 2))" using 1 by simp
    then show ?thesis using False by (subst (1 2) ilog2.simps) auto
  qed
qed

lemma ilog2_rat:
  assumes "0 < n"
  shows "(2 :: rat) ^ ilog2 n \<le> of_int n" and "of_int n < (2 :: rat) ^ Suc (ilog2 n)"
proof -
  have b: "2 ^ ilog2 n \<le> n" "n < 2 ^ Suc (ilog2 n)" using ilog2_bounds [OF assms] by auto
  show "(2 :: rat) ^ ilog2 n \<le> of_int n" using b(1) by (metis of_int_le_iff of_int_numeral of_int_power)
  show "of_int n < (2 :: rat) ^ Suc (ilog2 n)" using b(2) by (metis of_int_less_iff of_int_numeral of_int_power)
qed

lemma powi2_less_cancel: "(2 :: rat) powi m < 2 powi n \<Longrightarrow> m < n"
  using power_int_increasing [of n m "2 :: rat"] by (meson not_less one_le_numeral)

lemma expo_bounds:
  assumes "0 < x"
  shows "2 powi expo x \<le> x" and "x < 2 powi (expo x + 1)"
proof -
  obtain n d where q: "quotient_of x = (n, d)" by force
  have d: "0 < d" using quotient_of_denom_pos [OF q] .
  have x: "x = of_int n / of_int d" using quotient_of_div [OF q] .
  have n: "0 < n" using assms d by (simp add: x zero_less_divide_iff)
  let ?a = "ilog2 n" and ?b = "ilog2 d"
  have "x < 2 ^ Suc ?a / 2 ^ ?b"
    unfolding x using ilog2_rat [OF n] ilog2_rat [OF d] n by (intro frac_less) auto
  then have up: "x < 2 powi (int ?a - int ?b + 1)"
    by (simp add: power_int_add power_int_diff mult.commute)
  have "2 ^ ?a / 2 ^ Suc ?b \<le> x"
    unfolding x using ilog2_rat [OF n] ilog2_rat [OF d] n d by (intro frac_le) auto
  then have low: "2 powi (int ?a - int ?b - 1) \<le> x"
    by (simp add: power_int_diff mult.commute)
  show "2 powi expo x \<le> x" "x < 2 powi (expo x + 1)"
    using up low by (auto simp: expo_def q Let_def not_le)
qed

lemma expo_mono:
  assumes "0 < x" "x \<le> y"
  shows "expo x \<le> expo y"
proof -
  have "2 powi expo x < (2 :: rat) powi (expo y + 1)"
    using expo_bounds(1) [of x] expo_bounds(2) [of y] assms by linarith
  then show ?thesis using powi2_less_cancel by fastforce
qed

lemma half_even_mono:
  assumes "x \<le> y"
  shows "half_even x \<le> half_even y"
proof -
  have f: "\<lfloor>x\<rfloor> \<le> \<lfloor>y\<rfloor>" using assms by (rule floor_mono)
  show ?thesis
  proof (cases "\<lfloor>x\<rfloor> = \<lfloor>y\<rfloor>")
    case True
    then show ?thesis using assms by (auto simp: half_even_def Let_def)
  next
    case False
    then show ?thesis using f by (auto simp: half_even_def Let_def)
  qed
qed

lemma half_even_int [simp]: "half_even (of_int m) = m"
  by (simp add: half_even_def)

lemma powi2_nonneg: "0 \<le> k \<Longrightarrow> (2 :: rat) powi k = of_int (2 ^ nat k)"
  by (simp add: power_int_def)

text \<open>A number with at most 53 significant bits is left alone.\<close>

lemma rnd_pos_exact:
  assumes "x = of_int m * 2 powi k" "0 < m" "m \<le> 2 ^ 53"
  shows "rnd_pos x = x"
proof -
  have x: "0 < x" using assms by simp
  let ?u = "(2 :: rat) powi (expo x - 52)"
  have "\<exists>j :: int. x / ?u = of_int j"
  proof (cases "expo x - 52 \<le> k")
    case True
    then have "x / ?u = of_int m * 2 powi (k - (expo x - 52))"
      using assms(1) by (simp add: power_int_diff)
    then show ?thesis using True powi2_nonneg [of "k - (expo x - 52)"] by (metis diff_ge_0_iff_ge of_int_mult)
  next
    case False
    have "(2 :: rat) powi expo x \<le> of_int m * 2 powi k" using expo_bounds(1) [OF x] assms(1) by simp
    moreover have "(of_int m :: rat) \<le> of_int (2 ^ 53)" using assms(3) by (simp only: of_int_le_iff)
    then have "of_int m * (2 :: rat) powi k \<le> 2 powi 53 * 2 powi k" by (simp add: power_int_def)
    ultimately have "(2 :: rat) powi expo x \<le> 2 powi 53 * 2 powi k" by (rule order_trans)
    moreover have "(2 :: rat) powi 53 * 2 powi k = 2 powi (53 + k)" by (rule power_int_add [symmetric]) simp
    ultimately have le: "(2 :: rat) powi expo x \<le> 2 powi (53 + k)" by (simp only:)
    then have "expo x \<le> 53 + k"
      using power_int_strict_increasing [of "53 + k" "expo x" "2 :: rat"] by (meson not_less one_less_numeral_iff semiring_norm(76))
    then have k: "expo x = 53 + k" using False by linarith
    then have "2 powi expo x = (2 :: rat) powi 53 * 2 powi k" by (simp add: power_int_add)
    then have "(2 :: rat) powi 53 \<le> of_int m" using expo_bounds(1) [OF x] assms(1) by simp
    then have "(of_int (2 ^ 53) :: rat) \<le> of_int m" by (simp add: power_int_def)
    then have "m = 2 ^ 53" using assms(3) by (simp only: of_int_le_iff order_antisym)
    moreover have "expo x - 52 = k + 1" using k by simp
    then have "?u = 2 powi (k + 1)" by (simp only:)
    then have "?u = 2 powi k * 2" by (simp add: power_int_add)
    ultimately have "x / ?u = of_int (2 ^ 52)" using assms(1) by simp
    then show ?thesis by blast
  qed
  then obtain j :: int where j: "x / ?u = of_int j" by blast
  then have "rnd_pos x = x / ?u * ?u" using x by (simp add: rnd_pos_def)
  then show ?thesis by simp
qed

lemma rnd_pos_nonneg: "0 \<le> x \<Longrightarrow> 0 \<le> rnd_pos x"
  using half_even_mono [of 0 "x / 2 powi (expo x - 52)"] half_even_int [of 0]
  by (auto simp: rnd_pos_def)

text \<open>The rounded value stays within the binade, closed at the top.\<close>

lemma rnd_pos_binade:
  assumes "0 < x"
  shows "2 powi expo x \<le> rnd_pos x" and "rnd_pos x \<le> 2 powi (expo x + 1)"
proof -
  let ?u = "(2 :: rat) powi (expo x - 52)"
  have u: "0 < ?u" by simp
  have split: "(2 :: rat) powi expo x = of_int (2 ^ 52) * ?u" "(2 :: rat) powi (expo x + 1) = of_int (2 ^ 53) * ?u"
    by (simp_all add: power_int_diff power_int_add)
  note b = expo_bounds [OF assms, unfolded split]
  have "of_int (2 ^ 52) \<le> x / ?u" using b(1) u by (simp only: pos_le_divide_eq)
  from half_even_mono [OF this] have "2 ^ 52 \<le> half_even (x / ?u)" by (simp only: half_even_int)
  then have "(of_int (2 ^ 52) :: rat) \<le> of_int (half_even (x / ?u))" by (simp only: of_int_le_iff)
  then show "2 powi expo x \<le> rnd_pos x"
    unfolding split rnd_pos_def using assms u by (simp del: of_int_power of_int_numeral)
  have "x / ?u \<le> of_int (2 ^ 53)" using b(2) u by (simp only: pos_divide_le_eq less_imp_le)
  from half_even_mono [OF this] have "half_even (x / ?u) \<le> 2 ^ 53" by (simp only: half_even_int)
  then have "(of_int (half_even (x / ?u)) :: rat) \<le> of_int (2 ^ 53)" by (simp only: of_int_le_iff)
  then show "rnd_pos x \<le> 2 powi (expo x + 1)"
    unfolding split rnd_pos_def using assms u by (simp del: of_int_power of_int_numeral)
qed

lemma rnd_pos_mono:
  assumes "0 \<le> x" "x \<le> y"
  shows "rnd_pos x \<le> rnd_pos y"
proof (cases "x = 0")
  case True
  then show ?thesis using rnd_pos_nonneg [of y] assms by (simp add: rnd_pos_def)
next
  case False
  then have pos: "0 < x" "0 < y" using assms by auto
  show ?thesis
  proof (cases "expo x = expo y")
    case True
    have "x / 2 powi (expo y - 52) \<le> y / 2 powi (expo y - 52)" using assms(2) by (simp add: divide_right_mono)
    then show ?thesis using half_even_mono True pos by (simp add: rnd_pos_def)
  next
    case False
    then have "expo x + 1 \<le> expo y" using expo_mono [OF pos(1) assms(2)] by linarith
    then have "(2 :: rat) powi (expo x + 1) \<le> 2 powi expo y" by (rule power_int_increasing) simp
    then show ?thesis using rnd_pos_binade(2) [OF pos(1)] rnd_pos_binade(1) [OF pos(2)] by linarith
  qed
qed

lemma rnd_pos_idem:
  assumes "0 \<le> x"
  shows "rnd_pos (rnd_pos x) = rnd_pos x"
proof (cases "x = 0")
  case True
  then show ?thesis by (simp add: rnd_pos_def)
next
  case False
  then have x: "0 < x" using assms by simp
  let ?u = "(2 :: rat) powi (expo x - 52)"
  have eq: "rnd_pos x = of_int (half_even (x / ?u)) * ?u" using x by (simp add: rnd_pos_def)
  have "(2 :: rat) powi (expo x + 1) = of_int (2 ^ 53) * ?u" by (simp add: power_int_diff power_int_add)
  then have "of_int (half_even (x / ?u)) * ?u \<le> of_int (2 ^ 53) * ?u"
    using rnd_pos_binade(2) [OF x] unfolding eq by (simp only:)
  then have "(of_int (half_even (x / ?u)) :: rat) \<le> of_int (2 ^ 53)" by (simp only: mult_le_cancel_right_pos zero_less_power_int zero_less_numeral)
  then have le: "half_even (x / ?u) \<le> 2 ^ 53" by (simp only: of_int_le_iff)
  have "0 < rnd_pos x"
    using rnd_pos_binade(1) [OF x] by (meson less_le_trans zero_less_numeral zero_less_power_int)
  then have "(0 :: rat) < of_int (half_even (x / ?u)) * ?u" unfolding eq .
  then have "(0 :: rat) < of_int (half_even (x / ?u))" by (rule zero_less_mult_pos2) simp
  then have "0 < half_even (x / ?u)" by (simp only: of_int_0_less_iff)
  then show ?thesis by (rule rnd_pos_exact [OF eq _ le])
qed

section \<open>The interface\<close>

locale fp_rounding =
  fixes rnd :: "rat \<Rightarrow> rat"
  assumes rnd_mono: "x \<le> y \<Longrightarrow> rnd x \<le> rnd y"
    and rnd_idem: "rnd (rnd x) = rnd x"
    and rnd_int: "\<bar>n\<bar> \<le> 2 ^ 53 \<Longrightarrow> rnd (of_int n) = of_int n"
begin

lemma rnd_0 [simp]: "rnd 0 = 0"
  using rnd_int [of 0] by simp

lemma rnd_1 [simp]: "rnd 1 = 1"
  using rnd_int [of 1] by simp

lemma rnd_nonneg: "0 \<le> x \<Longrightarrow> 0 \<le> rnd x"
  using rnd_mono [of 0 x] by simp

lemma rnd_le_1: "x \<le> 1 \<Longrightarrow> rnd x \<le> 1"
  using rnd_mono [of x 1] by simp

lemma rnd_nat: "n \<le> 2 ^ 53 \<Longrightarrow> rnd (of_nat n) = of_nat n"
proof -
  assume "n \<le> 2 ^ 53"
  then have "int n \<le> int (2 ^ 53)" by (simp only: of_nat_le_iff)
  then show ?thesis using rnd_int [of "int n"] by simp
qed

text \<open>A double below a number is not above the rounded number.\<close>

lemma rnd_above: "rnd a = a \<Longrightarrow> a \<le> x \<Longrightarrow> a \<le> rnd x"
  using rnd_mono [of a x] by simp

lemma rnd_below: "rnd a = a \<Longrightarrow> x \<le> a \<Longrightarrow> rnd x \<le> a"
  using rnd_mono [of x a] by simp

end

interpretation double: fp_rounding rnd64
proof
  show "rnd64 x \<le> rnd64 y" if "x \<le> y" for x y
  proof -
    consider "0 \<le> x" | "x < 0" "0 \<le> y" | "y < 0" using that by linarith
    then show ?thesis
    proof cases
      case 1
      then show ?thesis using rnd_pos_mono [OF 1 that] that by (simp add: rnd64_def)
    next
      case 2
      then show ?thesis using rnd_pos_nonneg [of "- x"] rnd_pos_nonneg [of y] by (simp add: rnd64_def)
    next
      case 3
      then show ?thesis using rnd_pos_mono [of "- y" "- x"] that by (simp add: rnd64_def)
    qed
  qed
  show "rnd64 (rnd64 x) = rnd64 x" for x
    using rnd_pos_idem [of x] rnd_pos_idem [of "- x"] rnd_pos_nonneg [of "- x"] rnd_pos_nonneg [of x]
    by (auto simp: rnd64_def rnd_pos_def [of 0])
  show "rnd64 (of_int n) = of_int n" if "\<bar>n\<bar> \<le> 2 ^ 53" for n
    using rnd_pos_exact [of "of_int n" n 0] rnd_pos_exact [of "of_int (- n)" "- n" 0] that
    by (cases n "0 :: int" rule: linorder_cases) (auto simp: rnd64_def rnd_pos_def)
qed

section \<open>How far a rounded number moves\<close>

lemma half_even_near: "of_int (half_even y) \<le> y + 1 / 2"
  by (simp add: half_even_def Let_def) linarith

lemma rnd_pos_near:
  assumes "0 < x"
  shows "rnd_pos x \<le> x * (1 + 1 / 2 ^ 53)"
proof -
  let ?u = "(2 :: rat) powi (expo x - 52)"
  have u: "0 < ?u" by simp
  have "(2 :: rat) powi expo x = 2 ^ 52 * ?u" by (simp add: power_int_diff)
  then have "2 ^ 52 \<le> x / ?u" using expo_bounds(1) [OF assms] u by (simp add: pos_le_divide_eq)
  then have "of_int (half_even (x / ?u)) \<le> x / ?u * (1 + 1 / 2 ^ 53)"
    using half_even_near [of "x / ?u"] by (simp add: distrib_left)
  then have "of_int (half_even (x / ?u)) * ?u \<le> x / ?u * (1 + 1 / 2 ^ 53) * ?u"
    using u by (intro mult_right_mono) auto
  then show ?thesis using assms by (simp add: rnd_pos_def)
qed

lemma rnd_pos_grid:
  assumes "1 \<le> x"
  shows "\<exists>k :: int. rnd_pos x = of_int k / 2 ^ 52"
proof -
  have "2 powi 0 < (2 :: rat) powi (expo x + 1)" using expo_bounds(2) [of x] assms by simp
  then have e: "0 \<le> expo x" using powi2_less_cancel by fastforce
  have "(2 :: rat) powi (expo x - 52) = of_int (2 ^ nat (expo x)) / 2 ^ 52"
    using powi2_nonneg [OF e] by (simp add: power_int_diff)
  then have "rnd_pos x = of_int (half_even (x / 2 powi (expo x - 52)) * 2 ^ nat (expo x)) / 2 ^ 52"
    using assms by (simp add: rnd_pos_def)
  then show ?thesis by blast
qed

text \<open>The further laws of binary64, and what they give for interpolation between two numbers.\<close>

locale fp_binary64 = fp_rounding +
  assumes rnd_near: "0 \<le> x \<Longrightarrow> rnd x \<le> x * (1 + 1 / 2 ^ 53)"
    and rnd_grid: "1 \<le> x \<Longrightarrow> \<exists>k :: int. rnd x = of_int k / 2 ^ 52"
    and rnd_frac: "\<bar>m\<bar> \<le> 2 ^ 53 \<Longrightarrow> rnd (of_int m / 2 ^ k) = of_int m / 2 ^ k"
begin

definition lerp :: "rat \<Rightarrow> rat \<Rightarrow> rat \<Rightarrow> rat" where
  "lerp lo hi w = rnd (lo + rnd (w * rnd (hi - lo)))"

lemma lerp_mono:
  assumes "lo \<le> hi" "w \<le> w'"
  shows "lerp lo hi w \<le> lerp lo hi w'"
  unfolding lerp_def using assms rnd_nonneg [of "hi - lo"]
  by (intro rnd_mono add_left_mono mult_right_mono) auto

lemma lerp_ge:
  assumes "rnd lo = lo" "lo \<le> hi" "0 \<le> w"
  shows "lo \<le> lerp lo hi w"
  unfolding lerp_def using assms by (intro rnd_above) (auto intro!: rnd_nonneg mult_nonneg_nonneg)

lemma below_one: "rnd (1 - 1 / 2 ^ 52) = 1 - 1 / 2 ^ 52"
  using rnd_frac [of "2 ^ 52 - 1" 52] by simp

lemma lerp_le:
  assumes "rnd hi = hi" "lo \<le> hi" "0 \<le> w" "w \<le> 1 - 1 / 2 ^ 52"
  shows "lerp lo hi w \<le> hi"
proof -
  let ?e = "1 / 2 ^ 53 :: rat"
  have d: "0 \<le> rnd (hi - lo)" using assms(2) by (intro rnd_nonneg) simp
  have "rnd (w * rnd (hi - lo)) \<le> w * rnd (hi - lo) * (1 + ?e)"
    using assms(3) d by (intro rnd_near) simp
  also have "\<dots> \<le> (1 - 1 / 2 ^ 52) * ((hi - lo) * (1 + ?e)) * (1 + ?e)"
    using assms rnd_near [of "hi - lo"] d by (intro mult_right_mono mult_mono) auto
  also have "\<dots> = (hi - lo) * ((1 - 1 / 2 ^ 52) * (1 + ?e) * (1 + ?e))" by (simp only: ac_simps)
  also have "\<dots> \<le> (hi - lo) * 1" using assms(2) by (intro mult_left_mono) simp_all
  finally show ?thesis unfolding lerp_def by (intro rnd_below [OF assms(1)]) simp
qed

text \<open>The fraction of a rounded number that is at least one.\<close>

lemma frac_gap:
  assumes "1 \<le> x"
  shows "rnd x - of_int \<lfloor>rnd x\<rfloor> \<le> 1 - 1 / 2 ^ 52"
proof -
  obtain k :: int where k: "rnd x = of_int k / 2 ^ 52" using rnd_grid [OF assms] by blast
  let ?m = "k - \<lfloor>rnd x\<rfloor> * 2 ^ 52"
  have eq: "rnd x - of_int \<lfloor>rnd x\<rfloor> = of_int ?m / 2 ^ 52" by (simp add: k diff_divide_distrib)
  have "rnd x - of_int \<lfloor>rnd x\<rfloor> < 1" by linarith
  then have "(of_int ?m :: rat) < of_int (2 ^ 52)" unfolding eq by (simp add: divide_less_eq)
  then have "?m \<le> 2 ^ 52 - 1" by (simp only: of_int_less_iff)
  then have "(of_int ?m :: rat) \<le> of_int (2 ^ 52 - 1)" by (simp only: of_int_le_iff)
  then have "(of_int ?m :: rat) / 2 ^ 52 \<le> of_int (2 ^ 52 - 1) / 2 ^ 52" by (rule divide_right_mono) simp
  then show ?thesis unfolding eq by simp
qed

end

interpretation binary64: fp_binary64 rnd64
proof
  show "rnd64 x \<le> x * (1 + 1 / 2 ^ 53)" if "0 \<le> x" for x
    using rnd_pos_near [of x] that by (cases "x = 0") (auto simp: rnd64_def rnd_pos_def [of 0])
  show "\<exists>k :: int. rnd64 x = of_int k / 2 ^ 52" if "1 \<le> x" for x
    using rnd_pos_grid [OF that] that by (simp add: rnd64_def)
  show "rnd64 (of_int m / 2 ^ k) = of_int m / 2 ^ k" if "\<bar>m\<bar> \<le> 2 ^ 53" for m k
  proof -
    have "(of_int j / 2 ^ k :: rat) = of_int j * 2 powi (- int k)" for j
      by (simp add: power_int_minus divide_inverse)
    moreover have "\<not> (2 :: rat) powi (- int k) < 0" by (simp add: not_less)
    ultimately show ?thesis
      using rnd_pos_exact [of "of_int m / 2 ^ k" m "- int k"] rnd_pos_exact [of "of_int (- m) / 2 ^ k" "- m" "- int k"] that
      by (cases m "0 :: int" rule: linorder_cases) (auto simp: rnd64_def rnd_pos_def [of 0] mult_less_0_iff)
  qed
qed

section \<open>Durations in milliseconds\<close>

text \<open>
  \<open>std::chrono::duration<double, std::milli>(d).count()\<close>: the integer count is converted to
  \<open>double\<close> and divided by the ratio of the periods.
\<close>

definition to_ms :: "Duration \<Rightarrow> rat" where
  "to_ms d = rnd64 (rnd64 (of_int d) / 1000000)"

text \<open>Conversion of a floating-point number to an integer drops the fraction.\<close>

definition trunc :: "rat \<Rightarrow> int" where
  "trunc x = (if 0 \<le> x then \<lfloor>x\<rfloor> else \<lceil>x\<rceil>)"

text \<open>
  \<open>duration_cast<Duration>(duration<double, std::milli>(x))\<close>: a product that does not fit the
  64-bit count is undefined behaviour.
\<close>

definition cast_ms :: "rat \<Rightarrow> Duration res" where
  "cast_ms x =
     (let ns = rnd64 (x * 1000000)
      in if - (2 ^ 63) \<le> trunc ns \<and> trunc ns < 2 ^ 63 then Inr (trunc ns)
         else Inl (BadAccess ''duration_cast''))"

lemma trunc_of_int [simp]: "trunc (of_int n) = n"
  by (simp add: trunc_def)

lemma trunc_ge: "of_int n \<le> x \<Longrightarrow> 0 \<le> n \<Longrightarrow> n \<le> trunc x"
  by (simp add: trunc_def le_floor_iff)

lemma to_ms_mono: "d \<le> d' \<Longrightarrow> to_ms d \<le> to_ms d'"
  unfolding to_ms_def by (intro double.rnd_mono divide_right_mono) auto

lemma to_ms_0 [simp]: "to_ms 0 = 0"
  by (simp add: to_ms_def)

lemma to_ms_nonneg: "0 \<le> d \<Longrightarrow> 0 \<le> to_ms d"
  using to_ms_mono [of 0 d] by simp

text \<open>
  A time in milliseconds that the clock has not reached, as the comparison of doubles sees it,
  is not before the clock as a count of nanoseconds either, up to \<open>2^53\<close> ns.
\<close>

lemma not_due_ahead:
  assumes "rnd64 a = a" "a * 1000000 \<le> 2 ^ 53" "0 \<le> now" "to_ms now < a"
  shows "now \<le> trunc (rnd64 (a * 1000000))"
proof -
  have small: "now \<le> 2 ^ 53"
  proof (rule ccontr)
    assume "\<not> now \<le> 2 ^ 53"
    then have "a \<le> of_int (2 ^ 53) / 1000000" using assms(2) by simp
    then have "a \<le> to_ms (2 ^ 53)"
      unfolding to_ms_def using double.rnd_int [of "2 ^ 53"] double.rnd_above [OF assms(1)] by simp
    also have "\<dots> \<le> to_ms now" using \<open>\<not> now \<le> 2 ^ 53\<close> by (intro to_ms_mono) simp
    finally show False using assms(4) by simp
  qed
  then have exact: "rnd64 (of_int now) = of_int now" using assms(3) by (intro double.rnd_int) simp
  have "of_int now / 1000000 \<le> a"
  proof (rule ccontr)
    assume "\<not> of_int now / 1000000 \<le> a"
    then have "a \<le> to_ms now" unfolding to_ms_def exact by (intro double.rnd_above [OF assms(1)]) simp
    then show False using assms(4) by simp
  qed
  then have "rnd64 (of_int now) \<le> rnd64 (a * 1000000)" by (intro double.rnd_mono) simp
  then show ?thesis unfolding exact using assms(3) by (rule trunc_ge)
qed

text \<open>A whole number of milliseconds survives the conversion to nanoseconds and back.\<close>

lemma whole_ms_exact:
  assumes "0 \<le> k" "k * 1000000 \<le> 2 ^ 53"
  shows "cast_ms (of_int k) = Inr (k * 1000000)" and "to_ms (k * 1000000) = of_int k"
proof -
  have *: "rnd64 (of_int (k * 1000000)) = of_int (k * 1000000)" using assms by (intro double.rnd_int) simp
  then show "cast_ms (of_int k) = Inr (k * 1000000)"
    using assms trunc_of_int [of "k * 1000000"] by (simp add: cast_ms_def Let_def)
  have "rnd64 (of_int k) = of_int k" using assms by (intro double.rnd_int) simp
  then show "to_ms (k * 1000000) = of_int k" unfolding to_ms_def * by simp
qed

end
