(* ===== verification/Workload.thy ===== *)
theory Workload
  imports Double "HOL-Library.Multiset"
begin

text \<open>
  Workload files, \<open>apps/tokamak/workload.h\<close> and \<open>workload.cpp\<close>: one JSON object per line, read
  into requests and sorted by arrival. The file system and the JSON library are arguments
  (\<open>read_file\<close> gives the text of a file that can be opened; \<open>JsonLib\<close> lists the library
  functions the source calls, with \<open>None\<close> for the exception it catches). \<open>std::sort\<close> promises a
  sorted permutation and nothing about equal elements: it is an argument too, and the locale
  \<open>std_sort\<close> states that promise.
\<close>

record WorkloadRequest =
  wl_id :: string
  wl_arrival_ms :: rat
  wl_prompt_token_ids :: "uint32 list"
  wl_max_tokens :: nat
  wl_deadline_ms :: rat

record 'j JsonLib =
  js_parse :: "string \<Rightarrow> 'j option"
  js_at :: "'j \<Rightarrow> string \<Rightarrow> 'j option"
  js_get_string :: "'j \<Rightarrow> string option"
  js_get_double :: "'j \<Rightarrow> rat option"
  js_get_u32s :: "'j \<Rightarrow> uint32 list option"
  js_get_size :: "'j \<Rightarrow> nat option"

section \<open>Loading\<close>

definition read_fields :: "'j JsonLib \<Rightarrow> 'j \<Rightarrow> WorkloadRequest option" where
  "read_fields js obj =
     Option.bind (Option.bind (js_at js obj ''id'') (js_get_string js)) (\<lambda>i.
     Option.bind (Option.bind (js_at js obj ''arrival_ms'') (js_get_double js)) (\<lambda>a.
     Option.bind (Option.bind (js_at js obj ''prompt_token_ids'') (js_get_u32s js)) (\<lambda>p.
     Option.bind (Option.bind (js_at js obj ''max_tokens'') (js_get_size js)) (\<lambda>m.
     Option.bind (Option.bind (js_at js obj ''deadline_ms'') (js_get_double js)) (\<lambda>d.
       Some \<lparr>wl_id = i, wl_arrival_ms = a, wl_prompt_token_ids = p, wl_max_tokens = m,
             wl_deadline_ms = d\<rparr>)))))"

definition read_request :: "'j JsonLib \<Rightarrow> string \<Rightarrow> nat \<Rightarrow> string \<Rightarrow> WorkloadRequest res" where
  "read_request js path line_number line =
     (case js_parse js line of
        None \<Rightarrow> panic (''load_workload: malformed JSON on line '' @ to_string_nat line_number @ '' of '' @ path)
      | Some obj \<Rightarrow>
          (case read_fields js obj of
             None \<Rightarrow> panic (''load_workload: missing/wrong-typed field on line '' @
                            to_string_nat line_number @ '' of '' @ path)
           | Some req \<Rightarrow> Inr req))"

text \<open>The \<open>getline\<close> loop; \<open>line_number\<close> counts the lines read so far, blank ones included.\<close>

fun read_loop ::
  "'j JsonLib \<Rightarrow> string \<Rightarrow> nat \<Rightarrow> string list \<Rightarrow> WorkloadRequest list \<Rightarrow> WorkloadRequest list res" where
  "read_loop js path line_number [] requests = Inr requests"
| "read_loop js path line_number (line # rest) requests =
     (let line_number = line_number + 1
      in if line = [] then read_loop js path line_number rest requests
         else bnd (read_request js path line_number line) (\<lambda>req.
                read_loop js path line_number rest (requests @ [req])))"

definition load_workload ::
  "(string \<Rightarrow> string option) \<Rightarrow> 'j JsonLib \<Rightarrow> (WorkloadRequest list \<Rightarrow> WorkloadRequest list) \<Rightarrow>
   string \<Rightarrow> WorkloadRequest list res" where
  "load_workload read_file js srt path =
     (case read_file path of
        None \<Rightarrow> panic (''load_workload: could not open file: '' @ path)
      | Some body \<Rightarrow> bnd (read_loop js path 0 (getlines body) []) (\<lambda>requests. Inr (srt requests)))"

section \<open>The promise of the sort\<close>

locale std_sort =
  fixes srt :: "WorkloadRequest list \<Rightarrow> WorkloadRequest list"
  assumes sort_perm: "mset (srt xs) = mset xs"
    and sort_sorted: "sorted (map wl_arrival_ms (srt xs))"
begin

lemma sort_set [simp]: "set (srt xs) = set xs"
  using sort_perm by (metis mset_eq_setD)

lemma sort_length [simp]: "length (srt xs) = length xs"
  using sort_perm by (metis mset_eq_length)

lemma sort_distinct: "distinct (map f (srt xs)) \<longleftrightarrow> distinct (map f xs)"
  by (intro mset_eq_imp_distinct_iff) (simp add: sort_perm)

lemma sort_sum: "sum_list (map (f :: _ \<Rightarrow> nat) (srt xs)) = sum_list (map f xs)"
  by (metis mset_map sort_perm sum_mset_sum_list)

end

definition by_arrival :: "WorkloadRequest list \<Rightarrow> WorkloadRequest list" where
  "by_arrival = sort_key wl_arrival_ms"

interpretation arrival_sort: std_sort by_arrival
  by unfold_locales (simp_all add: by_arrival_def)

section \<open>Reference: line by line\<close>

text \<open>What one line contributes: nothing when blank, an error, or a request.\<close>

definition line_request :: "'j JsonLib \<Rightarrow> string \<Rightarrow> WorkloadRequest option" where
  "line_request js line = Option.bind (js_parse js line) (read_fields js)"

lemma read_request_iff: "read_request js path n line = Inr r \<longleftrightarrow> line_request js line = Some r"
  by (auto simp: read_request_def line_request_def panic_def split: option.splits)

lemma read_loop_good:
  assumes "\<forall>l \<in> set ls. l = [] \<or> line_request js l \<noteq> None"
  shows "read_loop js path n ls acc = Inr (acc @ map (the \<circ> line_request js) (filter (\<lambda>l. l \<noteq> []) ls))"
  using assms
proof (induction ls arbitrary: n acc)
  case (Cons l ls)
  show ?case
  proof (cases "l = []")
    case True
    then show ?thesis using Cons by (simp add: Let_def)
  next
    case False
    then obtain r where r: "line_request js l = Some r" using Cons.prems by auto
    then have "read_request js path (n + 1) l = Inr r" by (simp add: read_request_iff)
    then show ?thesis using False r Cons by (simp add: Let_def)
  qed
qed simp

lemma read_loop_first_bad:
  assumes "\<forall>l \<in> set pre. l = [] \<or> line_request js l \<noteq> None" "l \<noteq> []"
    and "read_request js path (n + length pre + 1) l = Inl e"
  shows "read_loop js path n (pre @ l # ls) acc = Inl e"
  using assms
proof (induction pre arbitrary: n acc)
  case Nil
  then show ?case by (simp add: Let_def)
next
  case (Cons x pre)
  show ?case
  proof (cases "x = []")
    case True
    then show ?thesis using Cons by (simp add: Let_def)
  next
    case False
    then obtain r where "line_request js x = Some r" using Cons.prems(1) by auto
    then have "read_request js path (n + 1) x = Inr r" by (simp add: read_request_iff)
    then show ?thesis using False Cons by (simp add: Let_def)
  qed
qed

lemma load_workload_Inr:
  assumes "load_workload read_file js srt path = Inr ws" "std_sort srt"
  obtains body where "read_file path = Some body"
    "\<forall>l \<in> set (getlines body). l = [] \<or> line_request js l \<noteq> None"
    "mset ws = mset (map (the \<circ> line_request js) (filter (\<lambda>l. l \<noteq> []) (getlines body)))"
    "sorted (map wl_arrival_ms ws)"
proof -
  obtain body where body: "read_file path = Some body"
    using assms(1) by (auto simp: load_workload_def panic_def split: option.splits)
  have good: "\<forall>l \<in> set (getlines body). l = [] \<or> line_request js l \<noteq> None"
  proof (rule ccontr)
    let ?bad = "\<lambda>l. \<not> (l = [] \<or> line_request js l \<noteq> None)"
    assume "\<not> ?thesis"
    then have "\<exists>l \<in> set (getlines body). ?bad l" by blast
    from split_list_first_prop [OF this] obtain pre l post where
      l: "getlines body = pre @ l # post" "?bad l" "\<forall>y \<in> set pre. \<not> ?bad y" by blast
    then obtain e where "read_request js path (0 + length pre + 1) l = Inl e"
      using read_request_iff [of js path "0 + length pre + 1" l] by (cases "read_request js path (0 + length pre + 1) l") auto
    then have "read_loop js path 0 (getlines body) [] = Inl e"
      unfolding l(1) using l(2,3) by (intro read_loop_first_bad) auto
    then show False using assms(1) body by (simp add: load_workload_def)
  qed
  then have "ws = srt (map (the \<circ> line_request js) (filter (\<lambda>l. l \<noteq> []) (getlines body)))"
    using assms(1) body read_loop_good [OF good] by (simp add: load_workload_def)
  then show ?thesis
    using that [OF body good] std_sort.sort_perm [OF assms(2)] std_sort.sort_sorted [OF assms(2)] by simp
qed

section \<open>Properties\<close>



text \<open>A library to instantiate the properties with: a line is a number of milliseconds, or junk.\<close>

definition toy_json :: "nat JsonLib" where
  "toy_json =
     \<lparr>js_parse = (\<lambda>l. if list_all (\<lambda>c. c = CHR 0x31) l then Some (length l) else None),
      js_at = (\<lambda>n k. if n = 7 then None else Some n),
      js_get_string = (\<lambda>n. Some (to_string_nat n)), js_get_double = (\<lambda>n. Some (of_nat n)),
      js_get_u32s = (\<lambda>n. Some [1]), js_get_size = (\<lambda>n. Some n)\<rparr>"



end
