(* ===== verification/Simulation.thy ===== *)
theory Simulation
  imports Scheduler_Props Telemetry Workload
begin

text \<open>
  The discrete-event simulation of \<open>apps/tokamak/simulation.h\<close> and \<open>simulation.cpp\<close>: a fake
  clock, the mock backend and the FIFO scheduler, driven by a workload. The loop need not end
  (see the properties), so \<open>sim_loop\<close> takes a bound on its turns and gives \<open>None\<close> when the bound
  is used up; \<open>sim_measure\<close> is a bound that is always enough when every arrival is a time the
  clock can reach. \<open>sm_rest\<close> is the workload from \<open>next_to_submit\<close> on, \<open>sm_trace\<close> the text
  behind the trace writer, if there is one.
\<close>

record RequestSummary =
  rs_id :: RequestId
  rs_final_state :: RequestState
  rs_deadline_at :: TimePoint
  rs_admitted_at :: "TimePoint option"
  rs_waiting_prefill_at :: "TimePoint option"
  rs_prefilling_at :: "TimePoint option"
  rs_waiting_decode_at :: "TimePoint option"
  rs_decoding_at :: "TimePoint option"
  rs_first_token_at :: "TimePoint option"
  rs_completed_at :: "TimePoint option"
  rs_output_tokens_emitted :: nat
  rs_max_output_tokens :: nat

record SimulationConfig =
  workload_path :: string

record SimulationResult =
  tick_reports :: "TickReport list"
  requests :: "RequestSummary list"

record SimState =
  sm_scheduler :: FifoScheduler
  sm_backend :: MockBackend
  sm_rest :: "WorkloadRequest list"
  sm_submitted :: "ReqPtr list"
  sm_iteration :: nat
  sm_reports :: "TickReport list"
  sm_trace :: "string option"

definition SimState_new :: "WorkloadRequest list \<Rightarrow> string option \<Rightarrow> SimState" where
  "SimState_new workload trace =
     \<lparr>sm_scheduler = FifoScheduler_new,
      sm_backend = MockBackend_new (FakeClock_new 0) (ms 1) (ms 5),
      sm_rest = workload, sm_submitted = [], sm_iteration = 0, sm_reports = [], sm_trace = trace\<rparr>"

abbreviation sim_now :: "SimState \<Rightarrow> TimePoint" where
  "sim_now st \<equiv> fake_now (mb_clock (sm_backend st))"

section \<open>The loop\<close>

definition sim_submit :: "WorkloadRequest \<Rightarrow> SimState \<Rightarrow> SimState res" where
  "sim_submit w st =
     bnd (cast_ms (wl_deadline_ms w)) (\<lambda>deadline_from_now.
     case mock_now (sm_backend st) of (t1, b) \<Rightarrow>
     case mock_now b of (t2, b) \<Rightarrow>
     bnd (submit mock_now (Request_new (wl_id w) t1 t2 deadline_from_now (wl_max_tokens w)
            (wl_prompt_token_ids w) 0) (sm_scheduler st, b)) (\<lambda>(p, s, b).
       Inr (st\<lparr>sm_scheduler := s, sm_backend := b, sm_submitted := sm_submitted st @ [p]\<rparr>)))"

text \<open>Everything whose arrival has passed, at the time read before the inner loop.\<close>

fun submit_due :: "rat \<Rightarrow> WorkloadRequest list \<Rightarrow> SimState \<Rightarrow> SimState res" where
  "submit_due elapsed_ms [] st = Inr (st\<lparr>sm_rest := []\<rparr>)"
| "submit_due elapsed_ms (w # rest) st =
     (if wl_arrival_ms w \<le> elapsed_ms then bnd (sim_submit w st) (submit_due elapsed_ms rest)
      else Inr (st\<lparr>sm_rest := w # rest\<rparr>))"

definition sim_tick :: "(json_object \<Rightarrow> string) \<Rightarrow> SimState \<Rightarrow> SimState res" where
  "sim_tick dump st =
     bnd (tick mock_backend mock_now (sm_scheduler st, sm_backend st)) (\<lambda>(r, s, b).
       Inr (st\<lparr>sm_scheduler := s, sm_backend := b,
               sm_trace := map_option (trace_write dump (make_trace_event r (sm_iteration st) ''fifo'' 0)) (sm_trace st),
               sm_reports := sm_reports st @ [r], sm_iteration := sm_iteration st + 1\<rparr>))"

text \<open>Idle: jump the clock to the next arrival.\<close>

definition sim_idle :: "WorkloadRequest \<Rightarrow> SimState \<Rightarrow> SimState res" where
  "sim_idle w st =
     bnd (cast_ms (wl_arrival_ms w)) (\<lambda>next_arrival.
     bnd (advance (next_arrival - (sim_now st - 0)) (mb_clock (sm_backend st))) (\<lambda>clock.
       Inr (st\<lparr>sm_backend := (sm_backend st)\<lparr>mb_clock := clock\<rparr>\<rparr>)))"

definition has_work :: "FifoScheduler \<Rightarrow> bool" where
  "has_work s = (waiting_count s > 0 \<or> decoding_count s > 0)"

definition sim_turn :: "(json_object \<Rightarrow> string) \<Rightarrow> SimState \<Rightarrow> SimState res" where
  "sim_turn dump st =
     bnd (submit_due (to_ms (sim_now st - 0)) (sm_rest st) st) (\<lambda>st.
       if has_work (sm_scheduler st) then sim_tick dump st
       else case sm_rest st of [] \<Rightarrow> Inr st | w # rest \<Rightarrow> sim_idle w st)"

fun sim_loop :: "(json_object \<Rightarrow> string) \<Rightarrow> nat \<Rightarrow> SimState \<Rightarrow> SimState res option" where
  "sim_loop dump fuel st =
     (if sm_rest st = [] \<and> \<not> has_work (sm_scheduler st) then Some (Inr st)
      else case fuel of
             0 \<Rightarrow> None
           | Suc n \<Rightarrow> (case sim_turn dump st of Inl e \<Rightarrow> Some (Inl e) | Inr st \<Rightarrow> sim_loop dump n st))"

declare sim_loop.simps [simp del]

section \<open>The result\<close>

definition summary_of :: "Request \<Rightarrow> RequestSummary" where
  "summary_of r =
     \<lparr>rs_id = req_id r, rs_final_state = req_state r, rs_deadline_at = req_deadline_at r,
      rs_admitted_at = lc_admitted_at (req_lifecycle r),
      rs_waiting_prefill_at = entered_at (req_lifecycle r) kWaitingPrefill,
      rs_prefilling_at = entered_at (req_lifecycle r) kPrefilling,
      rs_waiting_decode_at = entered_at (req_lifecycle r) kWaitingDecode,
      rs_decoding_at = entered_at (req_lifecycle r) kDecoding,
      rs_first_token_at = lc_first_token_at (req_lifecycle r),
      rs_completed_at = lc_completed_at (req_lifecycle r),
      rs_output_tokens_emitted = req_output_tokens_emitted r,
      rs_max_output_tokens = req_max_output_tokens r\<rparr>"

definition sim_result :: "SimState \<Rightarrow> SimulationResult res" where
  "sim_result st =
     bnd (map_res (deref (sm_scheduler st)) (sm_submitted st)) (\<lambda>rs.
       Inr \<lparr>tick_reports = sm_reports st, requests = map summary_of rs\<rparr>)"

text \<open>
  \<open>run_simulation\<close>; \<open>load\<close> is \<open>load_workload\<close> with its library arguments. With the result comes
  what the trace writer's stream holds at the end.
\<close>

definition run_simulation ::
  "(string \<Rightarrow> WorkloadRequest list res) \<Rightarrow> (json_object \<Rightarrow> string) \<Rightarrow> nat \<Rightarrow> SimulationConfig \<Rightarrow>
   string option \<Rightarrow> (SimulationResult \<times> string option) res option" where
  "run_simulation load dump fuel config trace =
     (case load (workload_path config) of
        Inl e \<Rightarrow> Some (Inl e)
      | Inr workload \<Rightarrow>
          map_option (\<lambda>r. bnd r (\<lambda>st. bnd (sim_result st) (\<lambda>res. Inr (res, sm_trace st))))
            (sim_loop dump fuel (SimState_new workload trace)))"

section \<open>Workloads a simulation can finish\<close>

text \<open>A time the clock can be moved to so that the comparison of doubles then sees it as reached.\<close>

definition arrival_ok :: "rat \<Rightarrow> bool" where
  "arrival_ok a \<longleftrightarrow>
     rnd64 a = a \<and> a * 1000000 \<le> 2 ^ 53 \<and> (0 < a \<longrightarrow> a \<le> to_ms (trunc (rnd64 (a * 1000000))))"

definition entry_fine :: "WorkloadRequest \<Rightarrow> bool" where
  "entry_fine w \<longleftrightarrow>
     0 < wl_max_tokens w \<and> \<not> isl (cast_ms (wl_deadline_ms w)) \<and> arrival_ok (wl_arrival_ms w)"

definition workload_fine :: "WorkloadRequest list \<Rightarrow> bool" where
  "workload_fine ws \<longleftrightarrow>
     (\<forall>w \<in> set ws. entry_fine w) \<and> distinct (map wl_id ws) \<and> length ws < 2 ^ 64"

lemma whole_arrival_ok:
  assumes "0 \<le> k" "k * 1000000 \<le> 2 ^ 53"
  shows "arrival_ok (of_int k)"
proof -
  have "rnd64 (of_int k) = of_int k" using assms by (intro double.rnd_int) simp
  moreover have "rnd64 (of_int (k * 1000000)) = of_int (k * 1000000)"
    using assms by (intro double.rnd_int) simp
  moreover have "(of_int (k * 1000000) :: rat) \<le> of_int (2 ^ 53)" using assms(2) by (simp only: of_int_le_iff)
  moreover have "trunc (of_int (k * 1000000)) = k * 1000000" by (rule trunc_of_int)
  ultimately show ?thesis
    using whole_ms_exact(2) [OF assms] by (simp add: arrival_ok_def)
qed

end
