(* ===== verification/Simulation_Props.thy ===== *)
theory Simulation_Props
  imports Simulation
begin

text \<open>
  The simulation ends. \<open>sim_inv\<close> ties a state of the loop to the workload, \<open>sim_measure\<close> is a
  bound on the turns that are left, and every turn keeps the first and lowers the second.
\<close>

section \<open>The mock backend under the simulation\<close>

lemma ptr_transition_mock:
  "ptr_transition mock_now st p (s, b) = Inr (s', b') \<Longrightarrow> b' = b"
  by (auto simp: ptr_transition_def mock_now_def bnd_eq_Inr)

lemma submit_mock:
  assumes "submit mock_now r (s, b) = Inr (p, s', b')"
  shows "b' = b"
  using assms
  by (auto simp: submit_def Let_def bnd_eq_Inr dest!: ptr_transition_mock)

lemma tick_mock_timestamp:
  assumes "tick mock_backend mock_now (s, b) = Inr (rep, s', b')"
  shows "tr_timestamp rep = mock_time b'"
  using assms
  by (auto simp: tick_def bnd_eq_Inr mock_now_def merge_reports_def mock_time_def fake_now_def)

section \<open>The invariant\<close>

text \<open>A request in the scheduler that came from a line of the workload, at its arrival or later.\<close>

definition submitted_as :: "WorkloadRequest \<Rightarrow> Request \<Rightarrow> bool" where
  "submitted_as w r \<longleftrightarrow>
     req_id r = wl_id w \<and> req_max_output_tokens r = wl_max_tokens w \<and>
     req_prompt_token_ids r = wl_prompt_token_ids w \<and>
     (\<exists>t d. cast_ms (wl_deadline_ms w) = Inr d \<and> req_deadline_at r = t + d \<and>
        wl_arrival_ms w \<le> to_ms t)"

text \<open>The text a trace holds after the reports, starting from \<open>out\<close>.\<close>

definition trace_text :: "(json_object \<Rightarrow> string) \<Rightarrow> TickReport list \<Rightarrow> string \<Rightarrow> string" where
  "trace_text dump reports =
     fold (trace_write dump) (map (\<lambda>i. make_trace_event (reports ! i) i ''fifo'' 0) [0..<length reports])"

definition sim_inv ::
  "(json_object \<Rightarrow> string) \<Rightarrow> string option \<Rightarrow> WorkloadRequest list \<Rightarrow> WorkloadRequest list \<Rightarrow> SimState \<Rightarrow> bool" where
  "sim_inv dump trace ws rest st \<longleftrightarrow>
     mock_sys.sys_inv (length ws) (sm_scheduler st, sm_backend st) \<and> 0 \<le> sim_now st \<and>
     (\<exists>done. ws = done @ rest \<and> list_all2 submitted_as done (fs_requests (sm_scheduler st))) \<and>
     sm_submitted st = [0..<length (fs_requests (sm_scheduler st))] \<and>
     sm_iteration st = length (sm_reports st) \<and>
     sorted (map tr_timestamp (sm_reports st) @ [sim_now st]) \<and>
     sm_trace st = map_option (trace_text dump (sm_reports st)) trace"

definition token_load :: "WorkloadRequest list \<Rightarrow> nat" where
  "token_load ws = sum_list (map (\<lambda>w. wl_max_tokens w + 2) ws)"

definition waiting_flag :: "TimePoint \<Rightarrow> WorkloadRequest list \<Rightarrow> nat" where
  "waiting_flag t rest = (case rest of [] \<Rightarrow> 0 | w # _ \<Rightarrow> if wl_arrival_ms w \<le> to_ms t then 0 else 1)"

definition sim_measure :: "SimState \<Rightarrow> nat" where
  "sim_measure st =
     token_load (sm_rest st) + work (sm_scheduler st) + waiting_flag (sim_now st) (sm_rest st)"

lemma token_load_simps [simp]:
  "token_load [] = 0" "token_load (w # ws) = wl_max_tokens w + 2 + token_load ws"
  by (simp_all add: token_load_def)

lemma waiting_flag_mono: "t \<le> t' \<Longrightarrow> waiting_flag t' rest \<le> waiting_flag t rest"
  using to_ms_mono by (force simp: waiting_flag_def split: list.splits)

lemma has_work_iff: "has_work s \<longleftrightarrow> tracked s \<noteq> []"
  by (auto simp: has_work_def waiting_count_def decoding_count_def tracked_def)

lemma trace_text_snoc:
  "trace_text dump (reports @ [r]) =
     trace_write dump (make_trace_event r (length reports) ''fifo'' 0) \<circ> trace_text dump reports"
proof -
  have "map (\<lambda>i. make_trace_event ((reports @ [r]) ! i) i ''fifo'' 0) [0..<length reports] =
    map (\<lambda>i. make_trace_event (reports ! i) i ''fifo'' 0) [0..<length reports]"
    by (simp add: nth_append)
  then show ?thesis unfolding trace_text_def by (simp add: fun_eq_iff del: map_eq_conv)
qed

section \<open>Each part of a turn\<close>

lemma ok_sim_submit:
  assumes inv: "sim_inv dump trace ws (w # rest) st" and w: "entry_fine w" "wl_arrival_ms w \<le> to_ms (sim_now st)"
    and d: "distinct (map wl_id ws)"
  shows "ok (sim_submit w st) (\<lambda>st'. sim_inv dump trace ws rest st' \<and> sm_backend st' = sm_backend st \<and>
    has_work (sm_scheduler st') \<and> work (sm_scheduler st') = work (sm_scheduler st) + wl_max_tokens w)"
proof -
  let ?s = "sm_scheduler st" and ?b = "sm_backend st" and ?t = "sim_now st"
  obtain dl where dl: "cast_ms (wl_deadline_ms w) = Inr dl"
    using w(1) by (cases "cast_ms (wl_deadline_ms w)") (auto simp: entry_fine_def)
  obtain dn where dn: "ws = dn @ w # rest" "list_all2 submitted_as dn (fs_requests ?s)"
    and sys: "mock_sys.sys_inv (length ws) (?s, ?b)"
    using inv by (auto simp: sim_inv_def)
  have len: "length dn = length (fs_requests ?s)" using dn(2) by (rule list_all2_lengthD)
  have q: "queues_inv ?s" using sys by (auto simp: mock_sys.sys_inv_def sched_inv_def)
  have "id_at ?s p \<noteq> wl_id w" if "p \<in> set (tracked ?s)" for p
  proof -
    have p: "p < length dn" using tracked_lt [OF q that] len by simp
    then have "id_at ?s p = wl_id (dn ! p)"
      using list_all2_nthD [OF dn(2) p] by (simp add: submitted_as_def id_at_def req_at_def)
    moreover have "wl_id (dn ! p) \<noteq> wl_id w" using d imageI [OF nth_mem [OF p], of wl_id] dn(1) by auto
    ultimately show ?thesis by simp
  qed
  then have fresh: "wl_id w \<notin> id_at ?s ` set (tracked ?s)" by force
  let ?r = "Request_new (wl_id w) ?t ?t dl (wl_max_tokens w) (wl_prompt_token_ids w) 0"
  have now: "mock_now ?b = (?t, ?b)" by (simp add: mock_now_def)
  have m: "0 < wl_max_tokens w" using w(1) by (simp add: entry_fine_def)
  have lt: "length (fs_requests ?s) < length ws" using len dn(1) by simp
  from mock_sys.sys_inv_submit [OF sys lt now now m fresh, of dl "wl_prompt_token_ids w" 0]
  obtain s' b' r where sub: "submit mock_now ?r (?s, ?b) = Inr (length (fs_requests ?s), s', b')"
    and sys': "mock_sys.sys_inv (length ws) (s', b')" and r: "with_lifecycle kWaitingPrefill ?r r"
    and s': "s' = enqueue r ?s"
    by (auto simp: ok_iff)
  have b': "b' = ?b" by (rule submit_mock [OF sub])
  note sel = with_lifecycle_sel [OF r]
  have "submitted_as w r" using sel dl w(2) by (auto simp: submitted_as_def Request_new_def)
  then have "list_all2 submitted_as (dn @ [w]) (fs_requests s')"
    using dn(2) by (simp add: s' enqueue_def list_all2_appendI)
  moreover have "work s' = work ?s + wl_max_tokens w"
    unfolding s' using work_enqueue [OF q] sel by (simp add: Request_new_def)
  ultimately show ?thesis
    using inv sub sys' b' dl now dn(1) by (auto simp: sim_submit_def sim_inv_def s' has_work_iff tracked_def)
qed

text \<open>What the submission loop does to the loop state, when it starts with \<open>rest\<close> to submit.\<close>

definition due_submitted ::
  "(json_object \<Rightarrow> string) \<Rightarrow> string option \<Rightarrow> WorkloadRequest list \<Rightarrow> WorkloadRequest list \<Rightarrow> SimState \<Rightarrow> SimState \<Rightarrow> bool" where
  "due_submitted dump trace ws rest st st' \<longleftrightarrow>
     sim_inv dump trace ws (sm_rest st') st' \<and> sm_backend st' = sm_backend st \<and>
     suffix (sm_rest st') rest \<and>
     (sm_rest st' \<noteq> [] \<longrightarrow> to_ms (sim_now st) < wl_arrival_ms (hd (sm_rest st'))) \<and>
     (if sm_rest st' = rest then sm_scheduler st' = sm_scheduler st
      else has_work (sm_scheduler st') \<and>
           token_load (sm_rest st') + work (sm_scheduler st') + 2 \<le> token_load rest + work (sm_scheduler st))"

lemma due_submitted_Cons:
  assumes "due_submitted dump trace ws rest st1 st'" "sm_backend st1 = sm_backend st"
    and "has_work (sm_scheduler st1)" "work (sm_scheduler st1) = work (sm_scheduler st) + wl_max_tokens w"
  shows "due_submitted dump trace ws (w # rest) st st'"
proof -
  have "suffix (sm_rest st') rest" using assms(1) by (simp add: due_submitted_def)
  then have "suffix (sm_rest st') (w # rest)" "sm_rest st' \<noteq> w # rest"
    by (auto simp: suffix_Cons dest: suffix_length_le)
  moreover have "token_load (sm_rest st') + work (sm_scheduler st') \<le> token_load rest + work (sm_scheduler st1)"
    using assms(1) by (auto simp: due_submitted_def split: if_splits)
  moreover have "has_work (sm_scheduler st')"
    using assms(1,3) by (auto simp: due_submitted_def split: if_splits)
  ultimately show ?thesis using assms by (simp add: due_submitted_def)
qed

lemma ok_submit_due:
  assumes "sim_inv dump trace ws rest st" "\<forall>w \<in> set rest. entry_fine w" "distinct (map wl_id ws)"
    and "el = to_ms (sim_now st)"
  shows "ok (submit_due el rest st) (due_submitted dump trace ws rest st)"
  using assms
proof (induction rest arbitrary: st)
  case Nil
  then show ?case by (simp add: sim_inv_def due_submitted_def)
next
  case (Cons w rest)
  show ?case
  proof (cases "wl_arrival_ms w \<le> el")
    case False
    then show ?thesis using Cons.prems by (simp add: sim_inv_def due_submitted_def)
  next
    case True
    from ok_sim_submit [OF Cons.prems(1) _ _ Cons.prems(3)] True Cons.prems(2,4)
    obtain st1 where st1: "sim_submit w st = Inr st1" "sim_inv dump trace ws rest st1"
      "sm_backend st1 = sm_backend st" "has_work (sm_scheduler st1)"
      "work (sm_scheduler st1) = work (sm_scheduler st) + wl_max_tokens w"
      by (auto simp: ok_iff)
    have "ok (submit_due el rest st1) (due_submitted dump trace ws rest st1)"
      using Cons.prems st1 by (intro Cons.IH) auto
    then show ?thesis using True st1 due_submitted_Cons by (auto simp: ok_iff)
  qed
qed

lemma submitted_as_terms: "submitted_as w r \<Longrightarrow> same_terms r r' \<Longrightarrow> submitted_as w r'"
  by (simp add: submitted_as_def same_terms_def)

lemma tick_same_terms:
  assumes "tick_effect t t' s rep s'" "queues_inv s" "p < length (fs_requests s)"
  shows "same_terms (req_at s p) (req_at s' p)"
  using tick_effect_requests [OF assms(1,2)] assms(3)
  by (cases "p \<in> set (tracked s)") (auto simp: ticked_def same_terms_def)

lemma ok_sim_tick:
  assumes inv: "sim_inv dump trace ws rest st" and work: "has_work (sm_scheduler st)"
  shows "ok (sim_tick dump st) (\<lambda>st'. sim_inv dump trace ws rest st' \<and> sm_rest st' = sm_rest st \<and>
    sim_now st \<le> sim_now st' \<and> work (sm_scheduler st') < work (sm_scheduler st))"
proof -
  let ?s = "sm_scheduler st" and ?b = "sm_backend st"
  obtain dn where dn: "ws = dn @ rest" "list_all2 submitted_as dn (fs_requests ?s)"
    and sys: "mock_sys.sys_inv (length ws) (?s, ?b)"
    using inv by (auto simp: sim_inv_def)
  obtain rep s' b' where t: "tick mock_backend mock_now (?s, ?b) = Inr (rep, s', b')"
    and sys': "mock_sys.sys_inv (length ws) (s', b')" and le: "mock_time ?b \<le> mock_time b'"
    and eff: "tick_effect (mock_time ?b) (mock_time b') ?s rep s'"
    using mock_sys.sys_inv_tick [OF sys] by (auto simp: ok_iff)
  have si: "sched_inv (mock_live ?b) (mock_time ?b) ?s" using sys by (auto simp: mock_sys.sys_inv_def)
  then have q: "queues_inv ?s" by (simp add: sched_inv_def)
  have len: "length (fs_requests s') = length (fs_requests ?s)" by (rule tick_effect_queues(3) [OF eff q])
  have "list_all2 submitted_as dn (fs_requests s')"
    using dn(2) len submitted_as_terms tick_same_terms [OF eff q]
    unfolding list_all2_conv_all_nth req_at_def by metis
  moreover have "work s' < work ?s" using work_tick [OF eff si] work by (simp add: has_work_iff)
  moreover have "tr_timestamp rep = mock_time b'" by (rule tick_mock_timestamp [OF t])
  moreover have "sorted (map tr_timestamp (sm_reports st) @ [mock_time ?b])"
    using inv by (simp add: sim_inv_def mock_time_def fake_now_def)
  then have "sorted (map tr_timestamp (sm_reports st) @ [mock_time b', mock_time b'])"
    using le by (fastforce simp: sorted_append)
  ultimately show ?thesis
    using inv t sys' le dn(1) len
    by (auto simp: sim_tick_def sim_inv_def mock_time_def fake_now_def trace_text_snoc option.map_comp)
qed

lemma ok_sim_idle:
  assumes inv: "sim_inv dump trace ws (w # rest) st" and w: "arrival_ok (wl_arrival_ms w)"
    and late: "to_ms (sim_now st) < wl_arrival_ms w"
  shows "ok (sim_idle w st) (\<lambda>st'. sim_inv dump trace ws (w # rest) st' \<and> sm_rest st' = sm_rest st \<and>
    sm_scheduler st' = sm_scheduler st \<and> wl_arrival_ms w \<le> to_ms (sim_now st'))"
proof -
  let ?a = "wl_arrival_ms w" and ?now = "sim_now st" and ?b = "sm_backend st"
  let ?n = "trunc (rnd64 (?a * 1000000))"
  have a: "rnd64 ?a = ?a" "?a * 1000000 \<le> 2 ^ 53" "0 < ?a \<longrightarrow> ?a \<le> to_ms ?n"
    using w by (auto simp: arrival_ok_def)
  have now: "0 \<le> ?now" using inv by (simp add: sim_inv_def)
  have ahead: "?now \<le> ?n" using not_due_ahead [OF a(1,2) now late] .
  have pos: "0 < ?a" using to_ms_nonneg [OF now] late by linarith
  have "rnd64 (?a * 1000000) \<le> of_int (2 ^ 53)"
    using double.rnd_below [of "of_int (2 ^ 53)" "?a * 1000000"] double.rnd_int [of "2 ^ 53"] a(2) by simp
  then have "?n \<le> 2 ^ 53"
    using now ahead by (simp add: trunc_def floor_le_iff split: if_splits)
  then have cast: "cast_ms ?a = Inr ?n" using now ahead by (simp add: cast_ms_def Let_def)
  let ?c = "\<lparr>current = ?n\<rparr>" let ?b' = "?b\<lparr>mb_clock := ?c\<rparr>"
  have adv: "advance (?n - (?now - 0)) (mb_clock ?b) = Inr ?c" using ahead by (simp add: advance_def fake_now_def)
  have sys: "mock_sys.sys_inv (length ws) (sm_scheduler st, ?b')"
    using mock_sys.sys_inv_env [OF _ mock_env.clock_runs [OF adv]] inv by (simp add: sim_inv_def)
  have "sorted (map tr_timestamp (sm_reports st) @ [?n])"
    using inv ahead by (fastforce simp: sim_inv_def sorted_append)
  moreover have "sim_idle w st = Inr (st\<lparr>sm_backend := ?b'\<rparr>)"
    by (simp only: sim_idle_def cast adv bnd_Inr)
  ultimately show ?thesis
    using inv sys now ahead a(3) pos by (auto simp: sim_inv_def fake_now_def)
qed

section \<open>Turns and the loop\<close>

lemma ok_sim_turn:
  assumes inv: "sim_inv dump trace ws (sm_rest st) st" and fine: "\<forall>w \<in> set (sm_rest st). entry_fine w"
    and d: "distinct (map wl_id ws)" and go: "sm_rest st \<noteq> [] \<or> has_work (sm_scheduler st)"
  shows "ok (sim_turn dump st) (\<lambda>st'. sim_inv dump trace ws (sm_rest st') st' \<and>
    set (sm_rest st') \<subseteq> set (sm_rest st) \<and> sim_measure st' < sim_measure st)"
proof -
  obtain st1 where st1: "submit_due (to_ms (sim_now st)) (sm_rest st) st = Inr st1"
    and due: "due_submitted dump trace ws (sm_rest st) st st1"
    using ok_submit_due [OF inv fine d refl] by (auto simp: ok_iff)
  have inv1: "sim_inv dump trace ws (sm_rest st1) st1" and b1: "sm_backend st1 = sm_backend st"
    and sub: "set (sm_rest st1) \<subseteq> set (sm_rest st)"
    using due by (auto simp: due_submitted_def dest: set_mono_suffix)
  have flag: "waiting_flag (sim_now st) (sm_rest st1) \<le> 1" by (simp add: waiting_flag_def split: list.splits)
  have m1: "sim_measure st1 \<le> sim_measure st"
    using due flag b1 by (auto simp: due_submitted_def sim_measure_def split: if_splits)
  show ?thesis
  proof (cases "has_work (sm_scheduler st1)")
    case True
    then have "ok (sim_tick dump st1) (\<lambda>st'. sim_inv dump trace ws (sm_rest st') st' \<and>
      set (sm_rest st') \<subseteq> set (sm_rest st) \<and> sim_measure st' < sim_measure st)"
    proof (intro ok_mono [OF ok_sim_tick [OF inv1]])
      fix st'
      assume *: "sim_inv dump trace ws (sm_rest st1) st' \<and> sm_rest st' = sm_rest st1 \<and>
        sim_now st1 \<le> sim_now st' \<and> work (sm_scheduler st') < work (sm_scheduler st1)"
      then have "sim_measure st' < sim_measure st1"
        using waiting_flag_mono [of "sim_now st1" "sim_now st'" "sm_rest st1"] by (simp add: sim_measure_def)
      then show "sim_inv dump trace ws (sm_rest st') st' \<and>
        set (sm_rest st') \<subseteq> set (sm_rest st) \<and> sim_measure st' < sim_measure st"
        using * sub m1 by simp
    qed
    then show ?thesis using st1 True by (simp add: sim_turn_def)
  next
    case False
    have "sm_rest st1 \<noteq> []"
    proof
      assume e: "sm_rest st1 = []"
      then show False using due False go by (auto simp: due_submitted_def split: if_splits)
    qed
    then obtain w rest where w: "sm_rest st1 = w # rest" by (cases "sm_rest st1") auto
    have late: "to_ms (sim_now st1) < wl_arrival_ms w" using due w b1 by (simp add: due_submitted_def)
    have "arrival_ok (wl_arrival_ms w)" using fine sub w by (auto simp: entry_fine_def)
    from ok_sim_idle [OF inv1 [unfolded w] this late]
    have "ok (sim_idle w st1) (\<lambda>st'. sim_inv dump trace ws (sm_rest st') st' \<and>
      set (sm_rest st') \<subseteq> set (sm_rest st) \<and> sim_measure st' < sim_measure st)"
      by (rule ok_mono) (use late w sub m1 in \<open>auto simp: sim_measure_def waiting_flag_def\<close>)
    then show ?thesis using st1 False w by (simp add: sim_turn_def)
  qed
qed

lemma sim_loop_ends:
  assumes "sim_inv dump trace ws (sm_rest st) st" "\<forall>w \<in> set (sm_rest st). entry_fine w"
    and "distinct (map wl_id ws)" "sim_measure st \<le> fuel"
  shows "\<exists>st'. sim_loop dump fuel st = Some (Inr st') \<and> sim_inv dump trace ws [] st' \<and>
    \<not> has_work (sm_scheduler st')"
  using assms
proof (induction fuel arbitrary: st)
  case (0 st)
  have "tracked (sm_scheduler st) = []"
  proof (rule ccontr)
    assume "tracked (sm_scheduler st) \<noteq> []"
    then obtain p where p: "p \<in> set (tracked (sm_scheduler st))" by (cases "tracked (sm_scheduler st)") auto
    have "sched_inv (mock_live (sm_backend st)) (mock_time (sm_backend st)) (sm_scheduler st)"
      using 0 by (auto simp: sim_inv_def mock_sys.sys_inv_def)
    from sched_inv_remaining [OF this p] p have "0 < work (sm_scheduler st)"
      by (auto simp: work_def intro!: sum_pos2 [of _ p])
    then show False using 0 by (simp add: sim_measure_def)
  qed
  moreover have "sm_rest st = []" using 0 by (cases "sm_rest st") (auto simp: sim_measure_def)
  ultimately show ?case using 0 by (simp add: sim_loop.simps has_work_iff)
next
  case (Suc fuel)
  show ?case
  proof (cases "sm_rest st = [] \<and> \<not> has_work (sm_scheduler st)")
    case True
    then show ?thesis using Suc.prems by (simp add: sim_loop.simps)
  next
    case False
    then obtain st1 where st1: "sim_turn dump st = Inr st1" "sim_inv dump trace ws (sm_rest st1) st1"
      "set (sm_rest st1) \<subseteq> set (sm_rest st)" "sim_measure st1 < sim_measure st"
      using ok_sim_turn [OF Suc.prems(1,2,3)] by (auto simp: ok_iff)
    then have "\<exists>st'. sim_loop dump fuel st1 = Some (Inr st') \<and> sim_inv dump trace ws [] st' \<and>
        \<not> has_work (sm_scheduler st')"
      using Suc.prems by (intro Suc.IH) auto
    then show ?thesis using False st1(1) by (auto simp: sim_loop.simps [of dump "Suc fuel"])
  qed
qed

lemma sim_inv_new:
  assumes "length ws < 2 ^ 64"
  shows "sim_inv dump trace ws ws (SimState_new ws trace)"
proof -
  let ?b = "MockBackend_new (FakeClock_new 0) (ms 1) (ms 5)"
  have "length ws \<le> mock_room ?b" using assms by (simp add: mock_room_def MockBackend_new_def)
  then have "mock_sys.sys_inv (length ws) (FifoScheduler_new, ?b)"
    by (intro mock_sys.sys_inv_new mock_inv_new) (simp_all add: ms_def)
  then show ?thesis
    by (auto simp: sim_inv_def SimState_new_def FifoScheduler_new_def MockBackend_new_def
        FakeClock_new_def fake_now_def trace_text_def option.map_id0)
qed

lemma sim_measure_new: "sim_measure (SimState_new ws trace) \<le> token_load ws + 1"
  by (simp add: sim_measure_def SimState_new_def work_def tracked_def FifoScheduler_new_def
      waiting_flag_def split: list.splits)

text \<open>A whole run: it ends with nothing tracked, and its result lists the requests in order.\<close>

lemma sim_result_inv:
  assumes "sim_inv dump trace ws [] st"
  shows "sim_result st = Inr \<lparr>tick_reports = sm_reports st,
    requests = map summary_of (fs_requests (sm_scheduler st))\<rparr>"
proof -
  have "map_res (deref (sm_scheduler st)) [0..<length (fs_requests (sm_scheduler st))] =
    Inr (map ((!) (fs_requests (sm_scheduler st))) [0..<length (fs_requests (sm_scheduler st))])"
    by (intro map_res_Inr) (simp add: deref_def)
  then show ?thesis using assms by (simp add: sim_result_def sim_inv_def map_nth)
qed

lemma run_simulation_state:
  assumes "load (workload_path config) = Inr ws" "workload_fine ws" "token_load ws + 1 \<le> fuel"
  obtains st where "sim_loop dump fuel (SimState_new ws trace) = Some (Inr st)"
    "sim_inv dump trace ws [] st" "tracked (sm_scheduler st) = []"
    "run_simulation load dump fuel config trace =
       Some (Inr (\<lparr>tick_reports = sm_reports st, requests = map summary_of (fs_requests (sm_scheduler st))\<rparr>,
                  map_option (trace_text dump (sm_reports st)) trace))"
proof -
  have ws: "\<forall>w \<in> set ws. entry_fine w" "distinct (map wl_id ws)" "length ws < 2 ^ 64"
    using assms(2) by (auto simp: workload_fine_def)
  have rest: "sm_rest (SimState_new ws trace) = ws" by (simp add: SimState_new_def)
  have "sim_measure (SimState_new ws trace) \<le> fuel"
    using sim_measure_new [of ws trace] assms(3) by linarith
  then obtain st where st: "sim_loop dump fuel (SimState_new ws trace) = Some (Inr st)"
    "sim_inv dump trace ws [] st" "\<not> has_work (sm_scheduler st)"
    using sim_loop_ends [of dump trace ws "SimState_new ws trace" fuel] sim_inv_new [OF ws(3)] ws(1,2) rest
    by auto
  have "sm_trace st = map_option (trace_text dump (sm_reports st)) trace"
    using st(2) by (simp add: sim_inv_def)
  then show ?thesis
    using that [OF st(1,2)] st(1,3) sim_result_inv [OF st(2)] assms(1)
    by (simp add: run_simulation_def has_work_iff)
qed

lemma run_simulation_ends:
  assumes "load (workload_path config) = Inr ws" "workload_fine ws" "token_load ws + 1 \<le> fuel"
  obtains st where "sim_inv dump trace ws [] st" "tracked (sm_scheduler st) = []"
    "run_simulation load dump fuel config trace =
       Some (Inr (\<lparr>tick_reports = sm_reports st, requests = map summary_of (fs_requests (sm_scheduler st))\<rparr>,
                  map_option (trace_text dump (sm_reports st)) trace))"
  by (rule run_simulation_state [where load = load and config = config and dump = dump and trace = trace, OF assms])
    (use that in blast)

text \<open>The requests behind the pointers, seen through their summaries.\<close>

lemma sim_inv_requests:
  assumes "sim_inv dump trace ws [] st" "tracked (sm_scheduler st) = []" "i < length ws"
  shows "i < length (fs_requests (sm_scheduler st))"
    and "submitted_as (ws ! i) (req_at (sm_scheduler st) i)"
    and "is_terminal (req_state (req_at (sm_scheduler st) i))"
    and "req_inv (sim_now st) (req_at (sm_scheduler st) i)"
proof -
  have all: "list_all2 submitted_as ws (fs_requests (sm_scheduler st))"
    and si: "sched_inv (mock_live (sm_backend st)) (mock_time (sm_backend st)) (sm_scheduler st)"
    using assms(1) by (auto simp: sim_inv_def mock_sys.sys_inv_def)
  show lt: "i < length (fs_requests (sm_scheduler st))" using list_all2_lengthD [OF all] assms(3) by simp
  show "submitted_as (ws ! i) (req_at (sm_scheduler st) i)"
    using list_all2_nthD [OF all assms(3)] by (simp add: req_at_def)
  show "is_terminal (req_state (req_at (sm_scheduler st) i))" "req_inv (sim_now st) (req_at (sm_scheduler st) i)"
    using si lt assms(2) by (auto simp: sched_inv_def requests_inv_def status_ok_def tracked_def mock_time_def fake_now_def)
qed

section \<open>Properties\<close>

text \<open>
  A simulation ends and accounts for every request. For a workload whose ids are distinct,
  whose budgets are positive and whose arrivals the clock can reach, \<open>run_simulation\<close> returns
  within one turn more than the sum of the budgets plus two per request. Its result has one
  summary per line of the workload, in order, under the line's id and budget; every request has
  reached a terminal state within its budget, and its deadline counts from a moment that is not
  before its arrival.
\<close>

theorem simulation_ends:
  assumes "load (workload_path config) = Inr ws" "workload_fine ws"
    and "sum_list (map (\<lambda>w. wl_max_tokens w + 2) ws) + 1 \<le> fuel"
  shows "\<exists>result out. run_simulation load dump fuel config trace = Some (Inr (result, out)) \<and>
    list_all2 (\<lambda>w r. rs_id r = wl_id w \<and> is_terminal (rs_final_state r) \<and>
        rs_max_output_tokens r = wl_max_tokens w \<and> rs_output_tokens_emitted r \<le> wl_max_tokens w \<and>
        (\<exists>t d. cast_ms (wl_deadline_ms w) = Inr d \<and> rs_deadline_at r = t + d \<and> wl_arrival_ms w \<le> to_ms t))
      ws (requests result)"
proof -
  have fuel: "token_load ws + 1 \<le> fuel" using assms(3) by (simp add: token_load_def)
  obtain st where st: "sim_inv dump trace ws [] st" "tracked (sm_scheduler st) = []"
    and run: "run_simulation load dump fuel config trace =
       Some (Inr (\<lparr>tick_reports = sm_reports st, requests = map summary_of (fs_requests (sm_scheduler st))\<rparr>,
                  map_option (trace_text dump (sm_reports st)) trace))"
    by (rule run_simulation_ends [where load = load and config = config, OF assms(1,2) fuel])
  have len: "length ws = length (fs_requests (sm_scheduler st))"
    using st(1) by (auto simp: sim_inv_def dest: list_all2_lengthD)
  have "req_output_tokens_emitted (req_at (sm_scheduler st) i) \<le> wl_max_tokens (ws ! i)" if "i < length ws" for i
    using sim_inv_requests(2,4) [OF st that] by (auto simp: submitted_as_def req_inv_def)
  then show ?thesis
    using run len sim_inv_requests(2,3) [OF st]
    by (auto simp: list_all2_conv_all_nth summary_of_def submitted_as_def req_at_def)
qed

text \<open>
  The trace is the run. Under the same conditions the trace file gets exactly one line per
  tick, the lines carry the iteration numbers from zero and the counters of that tick's report,
  and the timestamps never decrease.
\<close>

theorem simulation_trace_matches:
  assumes "load (workload_path config) = Inr ws" "workload_fine ws"
    and "sum_list (map (\<lambda>w. wl_max_tokens w + 2) ws) + 1 \<le> fuel"
  shows "\<exists>result. run_simulation load dump fuel config (Some []) = Some (Inr (result, Some (
        fold (trace_write dump)
          (map (\<lambda>i. make_trace_event (tick_reports result ! i) i ''fifo'' 0) [0..<length (tick_reports result)]) []))) \<and>
    sorted (map tr_timestamp (tick_reports result))"
proof -
  have fuel: "token_load ws + 1 \<le> fuel" using assms(3) by (simp add: token_load_def)
  obtain st where st: "sim_inv dump (Some []) ws [] st"
    and run: "run_simulation load dump fuel config (Some []) =
       Some (Inr (\<lparr>tick_reports = sm_reports st, requests = map summary_of (fs_requests (sm_scheduler st))\<rparr>,
                  map_option (trace_text dump (sm_reports st)) (Some [])))"
    by (rule run_simulation_ends [where load = load and config = config, OF assms(1,2) fuel])
  have "sorted (map tr_timestamp (sm_reports st))" using st by (simp add: sim_inv_def sorted_append)
  then show ?thesis using run by (auto simp: trace_text_def)
qed

text \<open>Two requests: one at once, one that arrives at 20 ms with a deadline it cannot meet.\<close>

definition demo_workload :: "WorkloadRequest list" where
  "demo_workload =
     [\<lparr>wl_id = ''a'', wl_arrival_ms = 0, wl_prompt_token_ids = [1, 2, 3], wl_max_tokens = 2, wl_deadline_ms = 100\<rparr>,
      \<lparr>wl_id = ''b'', wl_arrival_ms = 20, wl_prompt_token_ids = [4], wl_max_tokens = 3, wl_deadline_ms = 8\<rparr>]"

lemma demo_workload_fine: "workload_fine demo_workload"
proof -
  have "arrival_ok 0" "arrival_ok 20" using whole_arrival_ok [of 0] whole_arrival_ok [of 20] by simp_all
  moreover have "cast_ms 100 = Inr 100000000" "cast_ms 8 = Inr 8000000"
    using whole_ms_exact(1) [of 100] whole_ms_exact(1) [of 8] by simp_all
  ultimately show ?thesis by (simp add: workload_fine_def demo_workload_def entry_fine_def)
qed

theorem simulation_ends_witness:
  "\<exists>result out. run_simulation (\<lambda>_. Inr demo_workload) object_text 10 \<lparr>workload_path = ''w''\<rparr> None = Some (Inr (result, out)) \<and>
     map rs_id (requests result) = [''a'', ''b''] \<and> (\<forall>r \<in> set (requests result). is_terminal (rs_final_state r))"
proof -
  have "sum_list (map (\<lambda>w. wl_max_tokens w + 2) demo_workload) + 1 \<le> 10" by (simp add: demo_workload_def)
  from simulation_ends [of "\<lambda>_. Inr demo_workload" "\<lparr>workload_path = ''w''\<rparr>", OF refl demo_workload_fine this, of object_text None]
  show ?thesis by (fastforce simp: demo_workload_def list_all2_Cons1)
qed

theorem simulation_trace_matches_witness:
  "\<exists>result out. run_simulation (\<lambda>_. Inr demo_workload) object_text 10 \<lparr>workload_path = ''w''\<rparr> (Some []) = Some (Inr (result, Some out)) \<and>
     length (getlines out) = length (tick_reports result)"
proof -
  have "sum_list (map (\<lambda>w. wl_max_tokens w + 2) demo_workload) + 1 \<le> 10" by (simp add: demo_workload_def)
  from simulation_trace_matches [of "\<lambda>_. Inr demo_workload" "\<lparr>workload_path = ''w''\<rparr>", OF refl demo_workload_fine this, of object_text]
  show ?thesis using trace_lines [OF newline_free_object] by fastforce
qed

text \<open>A request that arrives at 4.1 ms, as the nearest double has it.\<close>

definition stuck_workload :: "WorkloadRequest list" where
  "stuck_workload =
     [\<lparr>wl_id = ''a'', wl_arrival_ms = rnd64 (41 / 10), wl_prompt_token_ids = [1], wl_max_tokens = 1, wl_deadline_ms = 100\<rparr>]"

text \<open>
  C35 (an arrival the clock never reaches). A workload with the single arrival 4.1 ms makes
  \<open>run_simulation\<close> loop for ever, whatever the number of turns: the idle branch truncates
  4.1 ms to 4099999 ns, which as a number of milliseconds is below the double 4.1, so the request
  is never due and the clock is moved by zero from then on.
\<close>

theorem simulation_hangs:
  "run_simulation (\<lambda>_. Inr stuck_workload) dump fuel config trace = None"
proof -
  let ?st = "SimState_new stuck_workload trace"
  let ?at = "\<lambda>n. ?st\<lparr>sm_backend := (sm_backend ?st)\<lparr>mb_clock := \<lparr>current = n\<rparr>\<rparr>\<rparr>"
  have cast: "cast_ms (rnd64 (41 / 10)) = Inr 4099999" by code_simp
  have early: "\<not> rnd64 (41 / 10) \<le> to_ms 0" "\<not> rnd64 (41 / 10) \<le> to_ms 4099999" by code_simp+
  have turn: "sim_turn dump (?at n) = Inr (?at 4099999)" if "n = 0 \<or> n = 4099999" for n
    using that cast early
    by (auto simp: sim_turn_def sim_idle_def SimState_new_def stuck_workload_def has_work_def waiting_count_def
        decoding_count_def FifoScheduler_new_def fake_now_def advance_def MockBackend_new_def)
  have loop: "sim_loop dump fuel (?at n) = None" if "n = 0 \<or> n = 4099999" for n fuel
    using that
  proof (induction fuel arbitrary: n)
    case 0
    then show ?case by (simp add: sim_loop.simps SimState_new_def stuck_workload_def)
  next
    case (Suc fuel)
    have "sm_rest (?at n) \<noteq> []" by (simp add: SimState_new_def stuck_workload_def)
    then show ?case using turn [OF Suc.prems] Suc.IH [of 4099999] by (subst sim_loop.simps) simp
  qed
  have "?st = ?at 0" by (simp add: SimState_new_def MockBackend_new_def FakeClock_new_def)
  then show ?thesis using loop [of 0 fuel] by (simp add: run_simulation_def)
qed

end
