(* ===== verification/Simulation_Exact.thy ===== *)
theory Simulation_Exact
  imports Simulation_Props
begin

text \<open>
  What a simulation computes. \<open>run_simulation\<close> builds its mock backend itself and injects neither
  errors nor end-of-sequence marks, so the fate of every request is determined: it completes with its
  whole budget or it misses its deadline; and simulated time is the time of the arrivals, of the
  prompts and of the decode steps, nothing else.
\<close>

section \<open>The backend a simulation uses\<close>

definition calm :: "MockBackend \<Rightarrow> bool" where
  "calm b \<longleftrightarrow>
     mb_pending_prefill_errors b = [] \<and> mb_pending_decode_errors b = [] \<and>
     (\<forall>i q. mb_sequences b i = Some q \<longrightarrow> finished_after_tokens q = None) \<and>
     mb_per_token_prefill_cost b = ms 1 \<and> mb_per_decode_cost b = ms 5"

lemma calm_new: "calm (MockBackend_new c (ms 1) (ms 5))"
  by (simp add: calm_def MockBackend_new_def)

lemma calm_clock [simp]: "calm (b\<lparr>mb_clock := c\<rparr>) = calm b"
  by (simp add: calm_def)

lemma mock_release_calm:
  "mock_release h b = Inr b' \<Longrightarrow> calm b \<Longrightarrow> calm b' \<and> mb_clock b' = mb_clock b"
  by (auto simp: mock_release_def calm_def panic_def split: option.splits if_splits)

lemma ms_add: "ms (a + b) = ms a + ms b"
  by (simp add: ms_def algebra_simps)

lemma mock_prefill_calm:
  assumes "mock_prefill batch b = Inr (outs, b')" "calm b"
  shows "calm b'" and "mock_time b' = mock_time b + ms (int (sum_list (map length batch)))"
    and "\<forall>out \<in> set outs. \<not> isl out"
proof -
  have "calm b' \<and> mock_time b' = mock_time b + ms (int (sum_list (map length batch))) \<and>
      (\<forall>out \<in> set outs. \<not> isl out)"
    if "fold_res mock_prefill_one batch (os, b) = Inr (outs, b')" "calm b" "\<forall>out \<in> set os. \<not> isl out" for os b
    using that
  proof (induction batch arbitrary: os b)
    case Nil
    then show ?case by (simp add: ms_def)
  next
    case (Cons q batch)
    obtain os1 b1 where one: "mock_prefill_one q (os, b) = Inr (os1, b1)"
      and rest: "fold_res mock_prefill_one batch (os1, b1) = Inr (outs, b')" using Cons.prems(1) by (auto simp: bnd_eq_Inr)
    have "calm b1" "mock_time b1 = mock_time b + ms (int (length q))" "\<forall>out \<in> set os1. \<not> isl out"
      using one Cons.prems(2,3)
      by (auto simp: mock_prefill_one_def bnd_eq_Inr advance_iff calm_def Let_def mock_time_def ms_def split: option.splits if_splits)
    with Cons.IH [OF rest] show ?case by (simp add: ms_add)
  qed
  from this [of "[]" b] assms show "calm b'"
    "mock_time b' = mock_time b + ms (int (sum_list (map length batch)))" "\<forall>out \<in> set outs. \<not> isl out"
    by (auto simp: mock_prefill_def)
qed

lemma mock_decode_calm:
  assumes "mock_decode batch b = Inr (outs, b')" "calm b"
  shows "calm b'" and "mock_time b' = mock_time b + ms 5"
    and "\<forall>out \<in> set outs. \<exists>tok. out = Inr tok \<and> \<not> dt_finished tok"
proof -
  have "calm b' \<and> mock_time b' = mock_time b \<and> (\<forall>out \<in> set outs. \<exists>tok. out = Inr tok \<and> \<not> dt_finished tok)"
    if "fold_res mock_decode_one batch (os, b) = Inr (outs, b')" "calm b"
      "\<forall>out \<in> set os. \<exists>tok. out = Inr tok \<and> \<not> dt_finished tok" for os b
    using that
  proof (induction batch arbitrary: os b)
    case (Cons q batch)
    obtain os1 b1 where one: "mock_decode_one q (os, b) = Inr (os1, b1)"
      and rest: "fold_res mock_decode_one batch (os1, b1) = Inr (outs, b')" using Cons.prems(1) by (auto simp: bnd_eq_Inr)
    have "calm b1" "mock_time b1 = mock_time b" "\<forall>out \<in> set os1. \<exists>tok. out = Inr tok \<and> \<not> dt_finished tok"
      using one Cons.prems(2,3)
      by (auto simp: mock_decode_one_def calm_def Let_def mock_time_def panic_def split: option.splits if_splits)
    with Cons.IH [OF rest] show ?case by simp
  qed simp
  from this [of "[]" "b\<lparr>mb_clock := (mb_clock b)\<lparr>current := current (mb_clock b) + ms 5\<rparr>\<rparr>"] assms
  show "calm b'" "mock_time b' = mock_time b + ms 5" "\<forall>out \<in> set outs. \<exists>tok. out = Inr tok \<and> \<not> dt_finished tok"
    by (auto simp: mock_decode_def bnd_eq_Inr advance_iff calm_def mock_time_def)
qed

section \<open>A tick on that backend\<close>

text \<open>A request ends only with its whole budget emitted or because its deadline passed before that.\<close>

definition settled :: "TimePoint \<Rightarrow> Request \<Rightarrow> bool" where
  "settled t r \<longleftrightarrow>
     (case req_state r of
        kCompleted \<Rightarrow> req_output_tokens_emitted r = req_max_output_tokens r
      | kFailed \<Rightarrow> req_deadline_at r < t \<and> req_output_tokens_emitted r < req_max_output_tokens r
      | kCancelled \<Rightarrow> False
      | kRejected \<Rightarrow> False
      | _ \<Rightarrow> True)"

definition calm_sys :: "FifoScheduler \<times> MockBackend \<Rightarrow> bool" where
  "calm_sys sw \<longleftrightarrow> calm (snd sw) \<and> (\<forall>r \<in> set (fs_requests (fst sw)). settled (mock_time (snd sw)) r)"

lemma settled_later: "settled t r \<Longrightarrow> t \<le> t' \<Longrightarrow> settled t' r"
  by (auto simp: settled_def split: RequestState.splits)

lemma settled_running: "\<not> is_terminal (req_state r) \<Longrightarrow> settled t r"
  by (cases "req_state r") (simp_all add: settled_def)

lemma calm_sys_update:
  "calm_sys (s, b) \<Longrightarrow> settled (mock_time b) r \<Longrightarrow> fs_requests s' = (fs_requests s)[p := r] \<Longrightarrow> calm_sys (s', b)"
  using set_update_subset_insert [of "fs_requests s" p r] by (auto simp: calm_sys_def)

lemma calm_sys_later:
  "calm_sys (s, b) \<Longrightarrow> calm b' \<Longrightarrow> mock_time b \<le> mock_time b' \<Longrightarrow> fs_requests s' = fs_requests s \<Longrightarrow> calm_sys (s', b')"
  by (auto simp: calm_sys_def intro: settled_later)

lemma ptr_transition_calm:
  assumes "ptr_transition mock_now to p (s, b) = Inr (s', b')"
  obtains l where "b' = b" "p < length (fs_requests s)" "lc_state l = to"
    "s' = put_req p ((req_at s p)\<lparr>req_lifecycle := l\<rparr>) s"
proof -
  obtain l where "deref s p = Inr (req_at s p)" "p < length (fs_requests s)"
    "transition_to (fake_now (mb_clock b)) to (req_lifecycle (req_at s p)) = Inr l"
    "s' = put_req p ((req_at s p)\<lparr>req_lifecycle := l\<rparr>) s" "b' = b"
    using assms by (auto simp: ptr_transition_def bnd_eq_Inr deref_def req_at_def mock_now_def split: if_splits)
  moreover have "lc_state l = to"
    using calculation(3) by (auto simp: transition_to_def Let_def panic_def split: if_splits RequestState.splits)
  ultimately show ?thesis using that by blast
qed

lemma retire_calm:
  assumes "retire mock_backend mock_now st p (s, b) = Inr (s', b')" "calm b"
  obtains l where "calm b'" "mb_clock b' = mb_clock b" "p < length (fs_requests s)" "lc_state l = st"
    "fs_requests s' = (fs_requests s)[p := (req_at s p)\<lparr>req_lifecycle := l\<rparr>]"
proof -
  obtain s1 b1 where t1: "ptr_transition mock_now st p (s, b) = Inr (s1, b1)"
    and rel: "fs_requests s' = fs_requests s1" "b' = b1 \<or> (\<exists>h. mock_release h b1 = Inr b')"
    using assms(1) by (auto simp: retire_def bnd_eq_Inr split: option.splits) blast
  have b1: "b1 = b" by (rule ptr_transition_mock [OF t1])
  note t = t1 [unfolded b1] and rel = rel [unfolded b1]
  have "calm b' \<and> mb_clock b' = mb_clock b" using rel(2) mock_release_calm assms(2) by auto
  moreover obtain l where "p < length (fs_requests s)" "lc_state l = st"
    "s1 = put_req p ((req_at s p)\<lparr>req_lifecycle := l\<rparr>) s" by (rule ptr_transition_calm [OF t])
  ultimately show ?thesis using that rel(1) by (simp add: put_req_def)
qed

lemma put_req_requests [simp]: "fs_requests (put_req p r s) = (fs_requests s)[p := r]"
  by (simp add: put_req_def)

text \<open>Retiring a request whose deadline has passed.\<close>

definition overdue :: "TimePoint \<Rightarrow> FifoScheduler \<Rightarrow> ReqPtr \<Rightarrow> bool" where
  "overdue t s p \<longleftrightarrow> req_deadline_at (req_at s p) < t \<and>
     req_output_tokens_emitted (req_at s p) < req_max_output_tokens (req_at s p)"

lemma retire_overdue:
  assumes "retire mock_backend mock_now kFailed p (s, b) = Inr (s', b')" "calm_sys (s, b)" "overdue (mock_time b) s p"
  shows "calm_sys (s', b') \<and> mock_time b' = mock_time b \<and> (\<forall>q. overdue t s q \<longrightarrow> overdue t s' q)"
proof -
  have "calm b" using assms(2) by (simp add: calm_sys_def)
  then obtain l where l: "calm b'" "mb_clock b' = mb_clock b" "p < length (fs_requests s)" "lc_state l = kFailed"
    "fs_requests s' = (fs_requests s)[p := (req_at s p)\<lparr>req_lifecycle := l\<rparr>]"
    by (rule retire_calm [OF assms(1)])
  have "settled (mock_time b) ((req_at s p)\<lparr>req_lifecycle := l\<rparr>)"
    using l(4) assms(3) by (simp add: settled_def overdue_def)
  from calm_sys_update [OF assms(2) this l(5)] have "calm_sys (s', b')"
    using l(1,2) by (auto intro: calm_sys_later simp: mock_time_def)
  then show ?thesis
    using l by (auto simp: overdue_def req_at_def nth_list_update mock_time_def)
qed

lemma fail_waiting_overdue:
  assumes "fail_waiting mock_backend mock_now p (s, b) = Inr (s', b')" "calm_sys (s, b)" "overdue (mock_time b) s p"
  shows "calm_sys (s', b') \<and> mock_time b' = mock_time b \<and> (\<forall>q. overdue t s q \<longrightarrow> overdue t s' q)"
proof -
  obtain s1 b1 where t: "ptr_transition mock_now kPrefilling p (s, b) = Inr (s1, b1)"
    and r: "retire mock_backend mock_now kFailed p (s1, b1) = Inr (s', b')"
    using assms(1) by (auto simp: fail_waiting_def bnd_eq_Inr)
  obtain l where l: "b1 = b" "p < length (fs_requests s)" "lc_state l = kPrefilling"
    "s1 = put_req p ((req_at s p)\<lparr>req_lifecycle := l\<rparr>) s" by (rule ptr_transition_calm [OF t])
  have "settled (mock_time b) ((req_at s p)\<lparr>req_lifecycle := l\<rparr>)" using l(3) by (simp add: settled_running)
  then have "calm_sys (s1, b)" using assms(2) l(4) by (auto intro: calm_sys_update)
  moreover have "overdue t s q \<Longrightarrow> overdue t s1 q" for t q
    using l by (auto simp: overdue_def req_at_def nth_list_update)
  ultimately show ?thesis using retire_overdue [OF r] assms(3) l(1) by auto
qed

lemma fold_overdue:
  assumes step: "\<And>p s b s' b'. f p (s, b) = Inr (s', b') \<Longrightarrow> calm_sys (s, b) \<Longrightarrow> overdue (mock_time b) s p \<Longrightarrow>
      calm_sys (s', b') \<and> mock_time b' = mock_time b \<and> (\<forall>q. overdue (mock_time b) s q \<longrightarrow> overdue (mock_time b) s' q)"
    and "fold_res f ps (s, b) = Inr (s', b')" "calm_sys (s, b)" "\<forall>p \<in> set ps \<union> Q. overdue (mock_time b) s p"
  shows "calm_sys (s', b') \<and> mock_time b' = mock_time b \<and> (\<forall>q \<in> Q. overdue (mock_time b) s' q)"
  using assms(2-4)
proof (induction ps arbitrary: s b)
  case (Cons p ps)
  then obtain s1 b1 where one: "f p (s, b) = Inr (s1, b1)" and rest: "fold_res f ps (s1, b1) = Inr (s', b')"
    by (auto simp: bnd_eq_Inr)
  have s1: "calm_sys (s1, b1)" "mock_time b1 = mock_time b" "\<forall>q. overdue (mock_time b) s q \<longrightarrow> overdue (mock_time b) s1 q"
    using step [OF one Cons.prems(2)] Cons.prems(3) by auto
  then show ?case using Cons.IH [OF rest s1(1)] Cons.prems(3) by auto
qed auto

lemma collect_expired_mock:
  "collect_expired mock_now s ps b = Inr (es, b') \<Longrightarrow>
   b' = b \<and> set es \<subseteq> set ps \<and> (\<forall>p \<in> set es. req_deadline_at (req_at s p) < mock_time b)"
  by (induction ps arbitrary: es)
    (auto simp: bnd_eq_Inr mock_now_def deref_def req_at_def mock_time_def fake_now_def split: if_splits)

lemma expire_deadlines_calm:
  assumes "expire_deadlines mock_backend mock_now (s, b) = Inr (rep, s', b')" "calm_sys (s, b)"
    and "\<forall>p \<in> set (tracked s). req_output_tokens_emitted (req_at s p) < req_max_output_tokens (req_at s p)"
  shows "calm_sys (s', b') \<and> mock_time b' = mock_time b"
proof -
  obtain es1 b1 es2 b2 s3 b3 where c: "collect_expired mock_now s (fs_waiting s) b = Inr (es1, b1)"
      "collect_expired mock_now s (fs_decoding s) b1 = Inr (es2, b2)"
    and f: "fold_res (fail_waiting mock_backend mock_now) es1 (s, b2) = Inr (s3, b3)"
      "fold_res (retire mock_backend mock_now kFailed) es2 (s3, b3) = Inr (s', b')"
    using assms(1) by (auto simp: expire_deadlines_def bnd_eq_Inr mock_now_def)
  note c1 = collect_expired_mock [OF c(1)]
  note c2 = collect_expired_mock [OF c(2)]
  have due: "\<forall>p \<in> set es1 \<union> set es2. overdue (mock_time b) s p"
    using c1 c2 assms(3) by (auto simp: overdue_def tracked_def)
  have b2: "b2 = b" using c1 c2 by simp
  have 1: "calm_sys (s3, b3) \<and> mock_time b3 = mock_time b \<and> (\<forall>q \<in> set es2. overdue (mock_time b) s3 q)"
    using f(1) b2 assms(2) due by (intro fold_overdue [where f = "fail_waiting mock_backend mock_now" and ps = es1 and s = s])
      (auto dest: fail_waiting_overdue)
  have "calm_sys (s', b') \<and> mock_time b' = mock_time b3 \<and> (\<forall>q \<in> {}. overdue (mock_time b3) s' q)"
    using f(2) 1 by (intro fold_overdue [where f = "retire mock_backend mock_now kFailed" and ps = es2 and s = s3])
      (auto dest: retire_overdue)
  then show ?thesis using 1 by simp
qed

text \<open>A request on its way from the waiting to the decoding queue.\<close>

lemma ptr_transition_running:
  assumes "ptr_transition mock_now to p (s, b) = Inr (s', b')" "calm_sys (s, b)" "\<not> is_terminal to"
  shows "calm_sys (s', b') \<and> b' = b"
proof -
  obtain l where l: "b' = b" "lc_state l = to" "s' = put_req p ((req_at s p)\<lparr>req_lifecycle := l\<rparr>) s"
    using ptr_transition_calm [OF assms(1)] by metis
  have "settled (mock_time b) ((req_at s p)\<lparr>req_lifecycle := l\<rparr>)" using l(2) assms(3) by (simp add: settled_running)
  then show ?thesis using l assms(2) by (auto intro: calm_sys_update)
qed

lemma calm_sys_requests: "fs_requests s' = fs_requests s \<Longrightarrow> calm_sys (s', b) = calm_sys (s, b)"
  by (simp add: calm_sys_def)

lemma prefill_one_calm:
  assumes "prefill_one mock_backend mock_now p (Inr h) (rep, s, b) = Inr (rep', s', b')" "calm_sys (s, b)"
  shows "calm_sys (s', b') \<and> b' = b \<and> tr_prefill_tokens rep' = tr_prefill_tokens rep"
proof -
  obtain r where dr: "deref s p = Inr r" using assms(1) by (auto simp: prefill_one_def bnd_eq_Inr)
  let ?s0 = "if fs_handles s (req_id r) = None then s\<lparr>fs_handles := (fs_handles s)(req_id r \<mapsto> h)\<rparr> else s"
  obtain s1 b1 s2 b2 s3 b3 where t: "ptr_transition mock_now kPrefilling p (?s0, b) = Inr (s1, b1)"
      "ptr_transition mock_now kWaitingDecode p (s1, b1) = Inr (s2, b2)"
      "ptr_transition mock_now kDecoding p (s2, b2) = Inr (s3, b3)"
    and out': "rep' = rep\<lparr>tr_prefill_succeeded := tr_prefill_succeeded rep + 1\<rparr>" "b' = b3"
      "s' = s3\<lparr>fs_waiting := removeAll p (fs_waiting s3), fs_decoding := fs_decoding s3 @ [p]\<rparr>"
    using assms(1) by (auto simp: prefill_one_def bnd_eq_Inr Let_def dr)
  then have out: "fs_requests s' = fs_requests s3" "b' = b3" "tr_prefill_tokens rep' = tr_prefill_tokens rep" by simp_all
  have "calm_sys (?s0, b)" using assms(2) by (simp add: calm_sys_def)
  from ptr_transition_running [OF t(1) this] have 1: "calm_sys (s1, b1)" "b1 = b" by auto
  from ptr_transition_running [OF t(2) 1(1)] have 2: "calm_sys (s2, b2)" "b2 = b1" by auto
  from ptr_transition_running [OF t(3) 2(1)] have 3: "calm_sys (s3, b3)" "b3 = b2" by auto
  then show ?thesis using 1 2 out by (simp add: calm_sys_requests [OF out(1)])
qed

lemma outcome_loop_keeps:
  assumes step: "\<And>p out x x'. f p out x = Inr x' \<Longrightarrow> P out \<Longrightarrow> I x \<Longrightarrow> I x'"
    and "outcome_loop f ps outs x = Inr x'" "\<forall>out \<in> set outs. P out" "I x"
  shows "I x'"
  using assms(2-4)
proof (induction ps arbitrary: outs x)
  case (Cons p ps)
  then obtain out outs' x1 where "outs = out # outs'" "f p out x = Inr x1" "outcome_loop f ps outs' x1 = Inr x'"
    by (cases outs) (auto simp: bnd_eq_Inr)
  then show ?case using Cons.IH [of outs' x1] Cons.prems(2,3) step by simp
qed simp

lemma prefill_phase_calm:
  assumes "prefill_phase mock_backend mock_now (s, b) = Inr (rep, s', b')" "calm_sys (s, b)"
  shows "calm_sys (s', b') \<and> mock_time b' = mock_time b + ms (int (tr_prefill_tokens rep))"
proof -
  obtain rs where rs: "map_res (deref s) (fs_waiting s) = Inr rs"
    using assms(1) by (auto simp: prefill_phase_def bnd_eq_Inr Let_def mock_now_def)
  obtain outs b1 where pre: "mock_prefill (map req_prompt_token_ids rs) b = Inr (outs, b1)"
    and loop: "outcome_loop (prefill_one mock_backend mock_now) (fs_waiting s) outs
      ((TickReport_new (fake_now (mb_clock b)))\<lparr>tr_prefill_tokens := sum_list (map length (map req_prompt_token_ids rs)),
         tr_prefill_attempted := length (fs_waiting s)\<rparr>, s, b1) = Inr (rep, s', b')"
    using assms(1) by (auto simp: prefill_phase_def bnd_eq_Inr Let_def mock_now_def comp_def rs)
  have "calm b" using assms(2) by (simp add: calm_sys_def)
  note b1 = mock_prefill_calm [OF pre this]
  have "0 \<le> ms (int k)" for k by (simp add: ms_def)
  then have "calm_sys (s, b1)" using calm_sys_later [OF assms(2) b1(1)] b1(2) by simp
  moreover define I where "I = (\<lambda>(rep :: TickReport, s, b). calm_sys (s, b) \<and> b = b1 \<and>
    tr_prefill_tokens rep = sum_list (map length (map req_prompt_token_ids rs)))"
  ultimately have start: "I ((TickReport_new (fake_now (mb_clock b)))\<lparr>tr_prefill_tokens :=
    sum_list (map length (map req_prompt_token_ids rs)), tr_prefill_attempted := length (fs_waiting s)\<rparr>, s, b1)" by simp
  have "I (rep, s', b')"
  proof (rule outcome_loop_keeps [where I = I and P = "\<lambda>out. \<not> isl out", OF _ loop b1(3) start])
    fix p x x' and out :: "BackendError + PrefillOutcome"
    assume step: "prefill_one mock_backend mock_now p out x = Inr x'" "\<not> isl out" "I x"
    then obtain h where "out = Inr h" by (cases out) auto
    with step show "I x'" using prefill_one_calm unfolding I_def by (cases x, cases x') auto
  qed
  then have "calm_sys (s', b')" "b' = b1" "tr_prefill_tokens rep = sum_list (map length (map req_prompt_token_ids rs))"
    by (auto simp: I_def)
  then show ?thesis using b1(2) by simp
qed

lemma decode_one_calm:
  assumes "decode_one mock_backend mock_now p (Inr tok) (rep, s, b) = Inr (rep', s', b')" "calm_sys (s, b)"
    and "\<not> dt_finished tok"
  shows "calm_sys (s', b') \<and> mock_time b' = mock_time b"
proof -
  obtain r where dr: "deref s p = Inr r" using assms(1) by (auto simp: decode_one_def bnd_eq_Inr)
  have "snd (first_token_clock mock_now r b) = b" by (simp add: first_token_clock_def mock_now_def)
  then obtain t where t: "first_token_clock mock_now r b = (t, b)" by (metis prod.collapse)
  obtain r1 where r: "deref s p = Inr r" "emit_token t (dt_token_id tok) r = Inr r1"
    and fin: "if req_output_tokens_emitted r1 \<ge> req_max_output_tokens r1
      then retire mock_backend mock_now kCompleted p (put_req p r1 s, b) = Inr (s', b')
      else s' = put_req p r1 s \<and> b' = b"
    using assms(1,3) by (auto simp: decode_one_def bnd_eq_Inr Let_def dr t split: if_splits)
  have run: "\<not> is_terminal (req_state r1)" and le: "req_output_tokens_emitted r1 \<le> req_max_output_tokens r1"
    using r(2) by (auto simp: emit_token_def bnd_eq_Inr record_first_token_def req_state_def panic_def split: if_splits)
  have s1: "calm_sys (put_req p r1 s, b)" using calm_sys_update [OF assms(2) settled_running [OF run], of "put_req p r1 s" p] by simp
  show ?thesis
  proof (cases "req_output_tokens_emitted r1 \<ge> req_max_output_tokens r1")
    case True
    have "calm b" using assms(2) by (simp add: calm_sys_def)
    with True fin obtain l where l: "calm b'" "mb_clock b' = mb_clock b" "p < length (fs_requests s)" "lc_state l = kCompleted"
      "fs_requests s' = (fs_requests s)[p := r1\<lparr>req_lifecycle := l\<rparr>]"
      by (auto elim!: retire_calm simp: req_at_def)
    have "settled (mock_time b) (r1\<lparr>req_lifecycle := l\<rparr>)" using True le l(4) by (simp add: settled_def)
    then have "calm_sys (s', b)" by (rule calm_sys_update [OF assms(2) _ l(5)])
    then show ?thesis using l(1,2) by (auto intro: calm_sys_later simp: mock_time_def)
  qed (use fin s1 in auto)
qed

lemma decode_phase_calm:
  assumes "decode_phase mock_backend mock_now (s, b) = Inr (rep, s', b')" "calm_sys (s, b)"
  shows "calm_sys (s', b') \<and> mock_time b' = mock_time b + ms 5"
proof -
  obtain hs outs b1 rep1 where dec: "mock_decode hs b = Inr (outs, b1)"
    and loop: "outcome_loop (decode_one mock_backend mock_now) (fs_decoding s) outs (rep1, s, b1) = Inr (rep, s', b')"
    using assms(1) by (auto simp: decode_phase_def bnd_eq_Inr Let_def mock_now_def)
  have "calm b" using assms(2) by (simp add: calm_sys_def)
  note b1 = mock_decode_calm [OF dec this]
  have "calm_sys (s, b1)" using calm_sys_later [OF assms(2) b1(1)] b1(2) by (simp add: ms_def)
  moreover define I where "I = (\<lambda>(rep :: TickReport, s, b). calm_sys (s, b) \<and> mock_time b = mock_time b1)"
  ultimately have start: "I (rep1, s, b1)" by simp
  have "I (rep, s', b')"
  proof (rule outcome_loop_keeps [where I = I and P = "\<lambda>out. \<exists>tok. out = Inr tok \<and> \<not> dt_finished tok", OF _ loop b1(3) start])
    fix p out x x'
    assume "decode_one mock_backend mock_now p out x = Inr x'" "\<exists>tok. out = Inr tok \<and> \<not> dt_finished tok" "I x"
    then show "I x'" using decode_one_calm unfolding I_def by (cases x, cases x') auto
  qed
  then have "calm_sys (s', b') \<and> mock_time b' = mock_time b1" by (simp add: I_def)
  then show ?thesis using b1(2) by simp
qed

lemma tick_calm:
  assumes "tick mock_backend mock_now (s, b) = Inr (rep, s', b')" "calm_sys (s, b)"
    and "\<forall>p \<in> set (tracked s). req_output_tokens_emitted (req_at s p) < req_max_output_tokens (req_at s p)"
  shows "calm_sys (s', b') \<and> mock_time b' = mock_time b + ms (int (tr_prefill_tokens rep)) + ms 5"
proof -
  obtain rep1 s1 b1 rep2 s2 b2 rep3 where ph: "expire_deadlines mock_backend mock_now (s, b) = Inr (rep1, s1, b1)"
      "prefill_phase mock_backend mock_now (s1, b1) = Inr (rep2, s2, b2)"
      "decode_phase mock_backend mock_now (s2, b2) = Inr (rep3, s', b')"
    and rep: "tr_prefill_tokens rep = tr_prefill_tokens rep2"
    using assms(1) by (auto simp: tick_def bnd_eq_Inr mock_now_def merge_reports_def)
  have 1: "calm_sys (s1, b1)" "mock_time b1 = mock_time b" using expire_deadlines_calm [OF ph(1) assms(2,3)] by auto
  have 2: "calm_sys (s2, b2)" "mock_time b2 = mock_time b1 + ms (int (tr_prefill_tokens rep2))"
    using prefill_phase_calm [OF ph(2) 1(1)] by auto
  show ?thesis using decode_phase_calm [OF ph(3) 2(1)] 1(2) 2(2) rep by simp
qed

section \<open>The books of a simulation\<close>

definition prompt_sum :: "Request list \<Rightarrow> nat" where
  "prompt_sum rs = sum_list (map (\<lambda>r. length (req_prompt_token_ids r)) rs)"

lemma prompt_sum_Nil [simp]: "prompt_sum [] = 0"
  by (simp add: prompt_sum_def)

definition waiting_requests :: "FifoScheduler \<Rightarrow> Request list" where
  "waiting_requests s = map (req_at s) (fs_waiting s)"

definition budget_sum :: "Request list \<Rightarrow> nat" where
  "budget_sum rs = sum_list (map req_max_output_tokens rs)"

definition prefill_sum :: "TickReport list \<Rightarrow> nat" where
  "prefill_sum reports = sum_list (map tr_prefill_tokens reports)"

definition last_tick :: "TickReport list \<Rightarrow> TimePoint" where
  "last_tick reports = (if reports = [] then 0 else tr_timestamp (last reports))"

text \<open>\<open>a\<close> bounds the arrivals: the clock is never ahead of them by more than the work reported.\<close>

definition books :: "TimePoint \<Rightarrow> SimState \<Rightarrow> bool" where
  "books a st \<longleftrightarrow>
     calm (sm_backend st) \<and> (\<forall>r \<in> set (fs_requests (sm_scheduler st)). settled (last_tick (sm_reports st)) r) \<and>
     (sm_reports st = [] \<longrightarrow> (\<forall>r \<in> set (fs_requests (sm_scheduler st)). \<not> is_terminal (req_state r))) \<and>
     prefill_sum (sm_reports st) + prompt_sum (waiting_requests (sm_scheduler st)) \<le> prompt_sum (fs_requests (sm_scheduler st)) \<and>
     length (sm_reports st) + work (sm_scheduler st) \<le> budget_sum (fs_requests (sm_scheduler st)) \<and>
     sim_now st \<le> a + ms (int (prefill_sum (sm_reports st))) + ms 5 * int (length (sm_reports st))"

lemma submit_mock_effect:
  assumes "submit mock_now r (s, b) = Inr (p, s', b')"
  obtains l where "lc_state l = kWaitingPrefill" "s' = enqueue (r\<lparr>req_lifecycle := l\<rparr>) s" "b' = b"
proof -
  let ?s = "s\<lparr>fs_requests := fs_requests s @ [r]\<rparr>" and ?n = "length (fs_requests s)"
  obtain s1 b1 s2 b2 where t: "ptr_transition mock_now kAdmitted ?n (?s, b) = Inr (s1, b1)"
      "ptr_transition mock_now kWaitingPrefill ?n (s1, b1) = Inr (s2, b2)"
    and out: "s' = s2\<lparr>fs_waiting := fs_waiting s2 @ [?n]\<rparr>" "b' = b2"
    using assms by (auto simp: submit_def Let_def bnd_eq_Inr)
  obtain l1 where l1: "b1 = b" "s1 = put_req ?n ((req_at ?s ?n)\<lparr>req_lifecycle := l1\<rparr>) ?s"
    by (rule ptr_transition_calm [OF t(1)])
  obtain l2 where l2: "b2 = b1" "lc_state l2 = kWaitingPrefill" "s2 = put_req ?n ((req_at s1 ?n)\<lparr>req_lifecycle := l2\<rparr>) s1"
    by (rule ptr_transition_calm [OF t(2)])
  show ?thesis
    by (rule that [OF l2(2)]) (use l1 l2 out in \<open>simp_all add: enqueue_def put_req_def req_at_def nth_append\<close>)
qed

lemma books_submit:
  assumes "sim_submit w st = Inr st'" "books a st" "queues_inv (sm_scheduler st)"
  shows "books a st'"
proof -
  let ?s = "sm_scheduler st" and ?b = "sm_backend st"
  obtain d p s' b' where "submit mock_now (Request_new (wl_id w) (sim_now st) (sim_now st) d (wl_max_tokens w)
      (wl_prompt_token_ids w) 0) (?s, ?b) = Inr (p, s', b')" (is "submit _ ?r _ = _")
    and st': "st' = st\<lparr>sm_scheduler := s', sm_backend := b', sm_submitted := sm_submitted st @ [p]\<rparr>"
    using assms(1) by (auto simp: sim_submit_def bnd_eq_Inr mock_now_def)
  then obtain l where l: "lc_state l = kWaitingPrefill" and s': "s' = enqueue (?r\<lparr>req_lifecycle := l\<rparr>) ?s" "b' = ?b"
    by (auto elim: submit_mock_effect)
  let ?r = "?r\<lparr>req_lifecycle := l\<rparr>"
  have "settled t ?r" for t using l by (simp add: settled_running)
  then have "calm b'" "\<forall>r \<in> set (fs_requests s'). settled (last_tick (sm_reports st)) r"
    "sm_reports st = [] \<longrightarrow> (\<forall>r \<in> set (fs_requests s'). \<not> is_terminal (req_state r))"
    using assms(2) l by (auto simp: books_def s' enqueue_def)
  moreover have "waiting_requests s' = waiting_requests ?s @ [?r]"
    using tracked_lt [OF assms(3)] by (auto simp: waiting_requests_def s' req_at_enqueue tracked_def)
  moreover have "work s' = work ?s + wl_max_tokens w" using work_enqueue [OF assms(3)] by (simp add: s' Request_new_def)
  ultimately show ?thesis
    using assms(2) by (auto simp: books_def st' s' prompt_sum_def budget_sum_def enqueue_def Request_new_def)
qed

lemma books_rest [simp]: "books a (st\<lparr>sm_rest := rest\<rparr>) = books a st"
  by (simp add: books_def)

lemma books_submit_due:
  assumes "sim_inv dump trace ws rest st" "\<forall>w \<in> set rest. entry_fine w" "distinct (map wl_id ws)"
    and "el = to_ms (sim_now st)" "books a st" "submit_due el rest st = Inr st'"
  shows "books a st'"
  using assms
proof (induction rest arbitrary: st)
  case (Cons w rest)
  show ?case
  proof (cases "wl_arrival_ms w \<le> el")
    case True
    from ok_sim_submit [OF Cons.prems(1) _ _ Cons.prems(3)] True Cons.prems(2,4)
    obtain st1 where st1: "sim_submit w st = Inr st1" "sim_inv dump trace ws rest st1" "sm_backend st1 = sm_backend st"
      by (auto simp: ok_iff)
    have "queues_inv (sm_scheduler st)" using Cons.prems(1) by (auto simp: sim_inv_def mock_sys.sys_inv_def sched_inv_def)
    then have "books a st1" using books_submit [OF st1(1) Cons.prems(5)] by blast
    then show ?thesis using Cons.IH [OF st1(2)] Cons.prems True st1 by simp
  next
    case False
    then show ?thesis using Cons.prems(5,6) by auto
  qed
qed auto

lemma prompt_sum_terms:
  assumes "length (fs_requests s') = length (fs_requests s)"
    and "\<forall>p < length (fs_requests s). same_terms (req_at s p) (req_at s' p)"
  shows "prompt_sum (fs_requests s') = prompt_sum (fs_requests s)" and "budget_sum (fs_requests s') = budget_sum (fs_requests s)"
proof -
  have "map req_prompt_token_ids (fs_requests s') = map req_prompt_token_ids (fs_requests s)"
    "map req_max_output_tokens (fs_requests s') = map req_max_output_tokens (fs_requests s)"
    using assms by (auto intro!: nth_equalityI simp: same_terms_def req_at_def)
  from arg_cong [OF this(1), of "\<lambda>xs. sum_list (map length xs)"] arg_cong [OF this(2), of sum_list]
  show "prompt_sum (fs_requests s') = prompt_sum (fs_requests s)" "budget_sum (fs_requests s') = budget_sum (fs_requests s)"
    by (simp_all add: prompt_sum_def budget_sum_def comp_def)
qed

lemma tick_prefill_sum:
  assumes "tick_effect t t' s rep s'" "queues_inv s"
  shows "tr_prefill_tokens rep \<le> prompt_sum (waiting_requests s)"
proof -
  obtain es s1 where f: "failed_batch s es s1"
    and tok: "tr_prefill_tokens rep = sum_list (map (\<lambda>p. length (req_prompt_token_ids (req_at s1 p))) (fs_waiting s1))"
    using assms(1) by (auto simp: tick_effect_def)
  have "req_at s1 p = req_at s p" if "p \<in> set (fs_waiting s1)" for p
    using f that tracked_lt [OF assms(2), of p] by (auto simp: failed_batch_def tracked_def)
  then have "tr_prefill_tokens rep = sum_list (map (\<lambda>p. length (req_prompt_token_ids (req_at s p))) (fs_waiting s1))"
    unfolding tok by (intro arg_cong [where f = sum_list] map_cong) auto
  also have "\<dots> \<le> prompt_sum (waiting_requests s)"
    using f by (simp add: failed_batch_def prompt_sum_def waiting_requests_def comp_def sum_list_filter_le_nat)
  finally show ?thesis .
qed

lemma books_tick:
  assumes inv: "sim_inv dump trace ws rest st" and "has_work (sm_scheduler st)" "books a st" "sim_tick dump st = Inr st'"
  shows "books a st'"
proof -
  let ?s = "sm_scheduler st" and ?b = "sm_backend st"
  have sys: "mock_sys.sys_inv (length ws) (?s, ?b)" using inv by (auto simp: sim_inv_def)
  have si: "sched_inv (mock_live ?b) (mock_time ?b) ?s" using sys by (auto simp: mock_sys.sys_inv_def)
  then have q: "queues_inv ?s" by (simp add: sched_inv_def)
  obtain rep s' b' where t: "tick mock_backend mock_now (?s, ?b) = Inr (rep, s', b')"
    and st': "sm_scheduler st' = s'" "sm_backend st' = b'" "sm_reports st' = sm_reports st @ [rep]"
    using assms(4) by (auto simp: sim_tick_def bnd_eq_Inr)
  have eff: "tick_effect (mock_time ?b) (mock_time b') ?s rep s'" using mock_sys.sys_inv_tick [OF sys] t by simp
  have "\<forall>p \<in> set (tracked ?s). req_output_tokens_emitted (req_at ?s p) < req_max_output_tokens (req_at ?s p)"
    using sched_inv_remaining [OF si] by (auto simp: remaining_def)
  moreover have "last_tick (sm_reports st) \<le> mock_time ?b"
    using inv by (auto simp: sim_inv_def last_tick_def sorted_append mock_time_def fake_now_def)
  then have "calm_sys (?s, ?b)" using assms(3) by (auto simp: books_def calm_sys_def intro: settled_later)
  ultimately have c: "calm_sys (s', b')" "mock_time b' = mock_time ?b + ms (int (tr_prefill_tokens rep)) + ms 5"
    using tick_calm [OF t] by auto
  have ts: "last_tick (sm_reports st @ [rep]) = mock_time b'" by (simp add: last_tick_def tick_mock_timestamp [OF t])
  have w: "work s' < work ?s" using work_tick [OF eff si] assms(2) by (simp add: has_work_iff)
  have wait: "waiting_requests s' = []" using tick_effect_queues(1) [OF eff q] by (simp add: waiting_requests_def)
  have p: "prompt_sum (fs_requests s') = prompt_sum (fs_requests ?s)" "budget_sum (fs_requests s') = budget_sum (fs_requests ?s)"
    using prompt_sum_terms [OF tick_effect_queues(3) [OF eff q]] tick_same_terms [OF eff q] by blast+
  show ?thesis
    using assms(3) c w tick_prefill_sum [OF eff q] ts
    by (auto simp: books_def calm_sys_def st' wait p prefill_sum_def mock_time_def fake_now_def ms_add algebra_simps)
qed

lemma books_idle:
  assumes "sim_idle w st = Inr st'" "books a st" "\<And>t. cast_ms (wl_arrival_ms w) = Inr t \<Longrightarrow> t \<le> a"
  shows "books a st'"
proof -
  obtain t c where t: "cast_ms (wl_arrival_ms w) = Inr t" "advance (t - (sim_now st - 0)) (mb_clock (sm_backend st)) = Inr c"
    and st': "st' = st\<lparr>sm_backend := (sm_backend st)\<lparr>mb_clock := c\<rparr>\<rparr>"
    using assms(1) by (auto simp: sim_idle_def bnd_eq_Inr)
  have c: "sim_now st \<le> t" "current c = t" using t(2) by (auto simp: advance_iff fake_now_def)
  have "0 \<le> ms (int k)" for k by (simp add: ms_def)
  then show ?thesis
    using assms(2) assms(3) [OF t(1)] c by (auto simp: books_def st' fake_now_def ms_def intro: order_trans)
qed

lemma books_turn:
  assumes "sim_inv dump trace ws (sm_rest st) st" "\<forall>w \<in> set (sm_rest st). entry_fine w" "distinct (map wl_id ws)"
    and "\<forall>w \<in> set ws. \<forall>t. cast_ms (wl_arrival_ms w) = Inr t \<longrightarrow> t \<le> a"
    and "books a st" "sim_turn dump st = Inr st'"
  shows "books a st'"
proof -
  obtain st1 where st1: "submit_due (to_ms (sim_now st)) (sm_rest st) st = Inr st1"
    and due: "due_submitted dump trace ws (sm_rest st) st st1"
    using ok_submit_due [OF assms(1-3) refl] by (auto simp: ok_iff)
  have b1: "books a st1" by (rule books_submit_due [OF assms(1-3) refl assms(5) st1])
  have inv1: "sim_inv dump trace ws (sm_rest st1) st1" using due by (simp add: due_submitted_def)
  then have sub: "set (sm_rest st1) \<subseteq> set ws" by (auto simp: sim_inv_def)
  have turn: "(if has_work (sm_scheduler st1) then sim_tick dump st1
      else case sm_rest st1 of [] \<Rightarrow> Inr st1 | w # rest \<Rightarrow> sim_idle w st1) = Inr st'"
    using assms(6) st1 by (simp add: sim_turn_def)
  show ?thesis
  proof (cases "has_work (sm_scheduler st1)")
    case True
    then show ?thesis using books_tick [OF inv1 True b1] turn by simp
  next
    case False
    then show ?thesis using turn b1 sub assms(4) by (auto split: list.splits intro: books_idle)
  qed
qed

lemma books_loop:
  assumes "sim_inv dump trace ws (sm_rest st) st" "\<forall>w \<in> set (sm_rest st). entry_fine w" "distinct (map wl_id ws)"
    and "\<forall>w \<in> set ws. \<forall>t. cast_ms (wl_arrival_ms w) = Inr t \<longrightarrow> t \<le> a"
    and "books a st" "sim_loop dump fuel st = Some (Inr st')"
  shows "books a st'"
  using assms
proof (induction fuel arbitrary: st)
  case 0
  then show ?case by (simp add: sim_loop.simps split: if_splits)
next
  case (Suc fuel)
  show ?case
  proof (cases "sm_rest st = [] \<and> \<not> has_work (sm_scheduler st)")
    case True
    then show ?thesis using Suc.prems(5,6) by (simp add: sim_loop.simps)
  next
    case False
    then obtain st1 where st1: "sim_turn dump st = Inr st1" "sim_inv dump trace ws (sm_rest st1) st1"
      "set (sm_rest st1) \<subseteq> set (sm_rest st)"
      using ok_sim_turn [OF Suc.prems(1,2,3)] by (auto simp: ok_iff)
    have "books a st1" by (rule books_turn [OF Suc.prems(1-5) st1(1)])
    moreover have "sim_loop dump fuel st1 = Some (Inr st')"
      using Suc.prems(6) False st1(1) by (auto simp: sim_loop.simps [of dump "Suc fuel"])
    ultimately show ?thesis using Suc.IH [OF st1(2)] Suc.prems(2,3,4) st1(3) by blast
  qed
qed

lemma books_new:
  assumes "0 \<le> a"
  shows "books a (SimState_new ws trace)"
  using assms calm_new
  by (simp add: books_def SimState_new_def FifoScheduler_new_def waiting_requests_def prefill_sum_def
      work_def tracked_def fake_now_def FakeClock_new_def MockBackend_new_def ms_def)

text \<open>A whole run with its books.\<close>

lemma run_simulation_books:
  assumes "load (workload_path config) = Inr ws" "workload_fine ws" "token_load ws + 1 \<le> fuel" "0 \<le> a"
    and "\<forall>w \<in> set ws. \<forall>t. cast_ms (wl_arrival_ms w) = Inr t \<longrightarrow> t \<le> a"
  obtains st where "sim_inv dump trace ws [] st" "tracked (sm_scheduler st) = []" "books a st"
    "run_simulation load dump fuel config trace =
       Some (Inr (\<lparr>tick_reports = sm_reports st, requests = map summary_of (fs_requests (sm_scheduler st))\<rparr>,
                  map_option (trace_text dump (sm_reports st)) trace))"
proof -
  have ws: "\<forall>w \<in> set ws. entry_fine w" "distinct (map wl_id ws)" "length ws < 2 ^ 64"
    using assms(2) by (auto simp: workload_fine_def)
  have new: "sm_rest (SimState_new ws trace) = ws" "sim_inv dump trace ws ws (SimState_new ws trace)"
    using sim_inv_new [OF ws(3)] by (simp_all add: SimState_new_def)
  show ?thesis
    by (rule run_simulation_state [where load = load and config = config and dump = dump and trace = trace, OF assms(1-3)])
      (use that books_loop [of dump trace ws "SimState_new ws trace", OF _ _ ws(2) assms(5) books_new [OF assms(4)]] new ws(1)
        in simp)
qed

section \<open>Properties\<close>

lemma arrivals_bounded:
  obtains a where "0 \<le> a" "\<forall>w \<in> set ws. \<forall>t. cast_ms (wl_arrival_ms w) = Inr t \<longrightarrow> t \<le> a"
proof
  let ?ts = "{t. \<exists>w \<in> set ws. cast_ms (wl_arrival_ms w) = Inr t}"
  have "?ts \<subseteq> (\<lambda>w. projr (cast_ms (wl_arrival_ms w))) ` set ws" by force
  then have "finite (insert 0 ?ts)" by (simp add: finite_subset)
  from Max_ge [OF this] show "0 \<le> Max (insert 0 ?ts)"
    "\<forall>w \<in> set ws. \<forall>t. cast_ms (wl_arrival_ms w) = Inr t \<longrightarrow> t \<le> Max (insert 0 ?ts)" by blast+
qed

text \<open>
  C17 (a simulation ends, with these outcomes). For a workload whose ids are distinct, whose budgets are
  positive and whose arrivals the clock can reach, \<open>run_simulation\<close> returns within one turn more than
  the sum of the budgets plus two per request, with one summary per line of the workload, in order. A
  request ends in one of two ways: completed with exactly its token budget, or failed with less than
  its budget because a tick began after its deadline, which counts from a moment not before its
  arrival. None is cancelled, none fails for another reason, and none stops early.
\<close>

theorem simulation_outcomes_exact:
  assumes "load (workload_path config) = Inr ws" "workload_fine ws"
    and "sum_list (map (\<lambda>w. wl_max_tokens w + 2) ws) + 1 \<le> fuel"
  shows "\<exists>result out. run_simulation load dump fuel config trace = Some (Inr (result, out)) \<and>
    list_all2 (\<lambda>w r. rs_id r = wl_id w \<and> rs_max_output_tokens r = wl_max_tokens w \<and>
        (\<exists>t d. cast_ms (wl_deadline_ms w) = Inr d \<and> rs_deadline_at r = t + d \<and> wl_arrival_ms w \<le> to_ms t) \<and>
        (rs_final_state r = kCompleted \<and> rs_output_tokens_emitted r = wl_max_tokens w \<or>
         rs_final_state r = kFailed \<and> rs_output_tokens_emitted r < wl_max_tokens w \<and>
           rs_deadline_at r < tr_timestamp (last (tick_reports result))))
      ws (requests result)"
proof -
  have fuel: "token_load ws + 1 \<le> fuel" using assms(3) by (simp add: token_load_def)
  obtain a where a: "0 \<le> a" "\<forall>w \<in> set ws. \<forall>t. cast_ms (wl_arrival_ms w) = Inr t \<longrightarrow> t \<le> a"
    by (rule arrivals_bounded)
  obtain st where st: "sim_inv dump trace ws [] st" "tracked (sm_scheduler st) = []" and b: "books a st"
    and run: "run_simulation load dump fuel config trace =
       Some (Inr (\<lparr>tick_reports = sm_reports st, requests = map summary_of (fs_requests (sm_scheduler st))\<rparr>,
                  map_option (trace_text dump (sm_reports st)) trace))"
    by (rule run_simulation_books [where load = load and config = config, OF assms(1,2) fuel a])
  have len: "length ws = length (fs_requests (sm_scheduler st))"
    using st(1) by (auto simp: sim_inv_def dest: list_all2_lengthD)
  have "req_id (req_at (sm_scheduler st) i) = wl_id (ws ! i) \<and>
      (req_state (req_at (sm_scheduler st) i) = kCompleted \<and>
         req_output_tokens_emitted (req_at (sm_scheduler st) i) = wl_max_tokens (ws ! i) \<or>
       req_state (req_at (sm_scheduler st) i) = kFailed \<and>
         req_output_tokens_emitted (req_at (sm_scheduler st) i) < wl_max_tokens (ws ! i) \<and>
         req_deadline_at (req_at (sm_scheduler st) i) < tr_timestamp (last (sm_reports st)))" if i: "i < length ws" for i
  proof -
    note req = sim_inv_requests [OF st i]
    have "sm_reports st \<noteq> []"
      using b req(1,3) by (auto simp: books_def req_at_def)
    moreover have "settled (last_tick (sm_reports st)) (req_at (sm_scheduler st) i)"
      using b req(1) by (simp add: books_def req_at_def)
    ultimately show ?thesis
      using req(2,3) by (auto simp: settled_def submitted_as_def last_tick_def split: RequestState.splits)
  qed
  then show ?thesis
    using run len sim_inv_requests(2) [OF st]
    by (auto simp: list_all2_conv_all_nth summary_of_def submitted_as_def req_at_def)
qed

theorem simulation_outcomes_exact_witness:
  "\<exists>result out. run_simulation (\<lambda>_. Inr demo_workload) object_text 10 \<lparr>workload_path = ''w''\<rparr> None = Some (Inr (result, out)) \<and>
     (\<forall>r \<in> set (requests result). rs_final_state r = kCompleted \<or> rs_final_state r = kFailed)"
proof -
  have "sum_list (map (\<lambda>w. wl_max_tokens w + 2) demo_workload) + 1 \<le> 10" by (simp add: demo_workload_def)
  from simulation_outcomes_exact [of "\<lambda>_. Inr demo_workload" "\<lparr>workload_path = ''w''\<rparr>", OF refl demo_workload_fine this, of object_text None]
  show ?thesis by (fastforce simp: demo_workload_def list_all2_Cons1)
qed

lemma submitted_sums:
  assumes "list_all2 submitted_as ws rs"
  shows "prompt_sum rs = sum_list (map (\<lambda>w. length (wl_prompt_token_ids w)) ws)"
    and "budget_sum rs = sum_list (map wl_max_tokens ws)"
  using assms
  by (induction rule: list_all2_induct) (simp_all add: prompt_sum_def budget_sum_def submitted_as_def)

text \<open>
  C18 (simulated time). When every arrival is at most \<open>a\<close> nanoseconds, a simulation takes no more ticks
  than the token budgets together, prefills no more tokens than the prompts together, and no report is
  later than \<open>a\<close> plus one millisecond for each prompt token and five for each token of the budgets.
\<close>

theorem simulation_makespan:
  assumes "load (workload_path config) = Inr ws" "workload_fine ws"
    and "sum_list (map (\<lambda>w. wl_max_tokens w + 2) ws) + 1 \<le> fuel"
    and "0 \<le> a" "\<forall>w \<in> set ws. \<forall>t. cast_ms (wl_arrival_ms w) = Inr t \<longrightarrow> t \<le> a"
  shows "\<exists>result out. run_simulation load dump fuel config trace = Some (Inr (result, out)) \<and>
    (let prompts = sum_list (map (\<lambda>w. length (wl_prompt_token_ids w)) ws);
         budgets = sum_list (map wl_max_tokens ws)
     in length (tick_reports result) \<le> budgets \<and>
        sum_list (map tr_prefill_tokens (tick_reports result)) \<le> prompts \<and>
        (\<forall>rep \<in> set (tick_reports result). tr_timestamp rep \<le> a + ms (int prompts) + ms 5 * int budgets))"
proof -
  let ?prompts = "sum_list (map (\<lambda>w. length (wl_prompt_token_ids w)) ws)" and ?budgets = "sum_list (map wl_max_tokens ws)"
  have fuel: "token_load ws + 1 \<le> fuel" using assms(3) by (simp add: token_load_def)
  obtain st where st: "sim_inv dump trace ws [] st" "tracked (sm_scheduler st) = []" and b: "books a st"
    and run: "run_simulation load dump fuel config trace =
       Some (Inr (\<lparr>tick_reports = sm_reports st, requests = map summary_of (fs_requests (sm_scheduler st))\<rparr>,
                  map_option (trace_text dump (sm_reports st)) trace))"
    by (rule run_simulation_books [where load = load and config = config, OF assms(1,2) fuel assms(4,5)])
  have "list_all2 submitted_as ws (fs_requests (sm_scheduler st))" using st(1) by (simp add: sim_inv_def)
  note sums = submitted_sums [OF this]
  have n: "length (sm_reports st) \<le> ?budgets" "prefill_sum (sm_reports st) \<le> ?prompts"
    and now: "sim_now st \<le> a + ms (int (prefill_sum (sm_reports st))) + ms 5 * int (length (sm_reports st))"
    using b by (simp_all add: books_def sums)
  have "a + ms (int (prefill_sum (sm_reports st))) + ms 5 * int (length (sm_reports st)) \<le>
      a + ms (int ?prompts) + ms 5 * int ?budgets"
    using n by (simp add: ms_def)
  moreover have "tr_timestamp rep \<le> sim_now st" if "rep \<in> set (sm_reports st)" for rep
    using st(1) that by (simp add: sim_inv_def sorted_append)
  ultimately have "\<forall>rep \<in> set (sm_reports st). tr_timestamp rep \<le> a + ms (int ?prompts) + ms 5 * int ?budgets"
    using now by fastforce
  then show ?thesis using run n by (simp add: prefill_sum_def)
qed

theorem simulation_makespan_witness:
  "\<exists>result out. run_simulation (\<lambda>_. Inr demo_workload) object_text 10 \<lparr>workload_path = ''w''\<rparr> None = Some (Inr (result, out)) \<and>
     length (tick_reports result) \<le> 5 \<and> (\<forall>rep \<in> set (tick_reports result). tr_timestamp rep \<le> ms 49)"
proof -
  have fuel: "sum_list (map (\<lambda>w. wl_max_tokens w + 2) demo_workload) + 1 \<le> 10" by (simp add: demo_workload_def)
  have "cast_ms 0 = Inr 0" "cast_ms 20 = Inr (ms 20)"
    using whole_ms_exact(1) [of 0] whole_ms_exact(1) [of 20] by (simp_all add: ms_def)
  then have a: "\<forall>w \<in> set demo_workload. \<forall>t. cast_ms (wl_arrival_ms w) = Inr t \<longrightarrow> t \<le> ms 20"
    by (simp add: demo_workload_def ms_def)
  from simulation_makespan [of "\<lambda>_. Inr demo_workload" "\<lparr>workload_path = ''w''\<rparr>", OF refl demo_workload_fine fuel _ a, of object_text None]
  show ?thesis by (fastforce simp: demo_workload_def ms_def)
qed

end
