(* ===== verification/Analysis.thy ===== *)
theory Analysis
  imports Simulation_Props
begin

text \<open>
  Post-run analysis, \<open>apps/tokamak/analysis.h\<close> and \<open>analysis.cpp\<close>: the invariant check over the
  summaries of a run, latency percentiles and throughput. A \<open>double\<close> is a rational that every
  operation rounds with \<open>rnd64\<close>. The proofs show that the percentiles stay between the values
  they interpolate although every operation rounds.
\<close>

section \<open>Percentiles\<close>

definition index_at :: "'a list \<Rightarrow> nat \<Rightarrow> 'a res" where
  "index_at xs i = (if i < length xs then Inr (xs ! i) else Inl (BadAccess ''vector::operator[]''))"

text \<open>
  The conversion of a negative number to \<open>size_t\<close> is undefined. On an empty vector
  \<open>size() - 1\<close> wraps around; whatever index comes out, reading it is undefined.
\<close>

definition percentile :: "rat list \<Rightarrow> rat \<Rightarrow> rat res" where
  "percentile sorted_values p =
     (if length sorted_values = 1 then Inr (hd sorted_values)
      else if sorted_values = [] then Inl (BadAccess ''vector::operator[]'')
      else
        let rank = rnd64 (rnd64 (p / 100) * rnd64 (of_nat (length sorted_values - 1)))
        in if rank < 0 then Inl (BadAccess ''static_cast<size_t>'')
           else
             let lower = nat \<lfloor>rank\<rfloor>; upper = nat \<lceil>rank\<rceil>;
                 weight = rnd64 (rank - rnd64 (of_nat lower))
             in bnd (index_at sorted_values lower) (\<lambda>lo.
                bnd (index_at sorted_values upper) (\<lambda>hi.
                  Inr (rnd64 (lo + rnd64 (weight * rnd64 (hi - lo)))))))"

section \<open>The invariant check\<close>

record InvariantViolation =
  iv_request_id :: RequestId
  iv_description :: string

definition before :: "TimePoint option \<Rightarrow> TimePoint option \<Rightarrow> bool" where
  "before a b = (case (a, b) of (Some x, Some y) \<Rightarrow> x < y | _ \<Rightarrow> False)"

definition check_request :: "RequestSummary \<Rightarrow> InvariantViolation list" where
  "check_request r =
     (if \<not> is_terminal (rs_final_state r)
      then [\<lparr>iv_request_id = rs_id r, iv_description =
               ''request did not reach a terminal state (final state: '' @
               RequestState_to_string (rs_final_state r) @ '')''\<rparr>] else []) @
     (if rs_output_tokens_emitted r > rs_max_output_tokens r
      then [\<lparr>iv_request_id = rs_id r, iv_description =
               ''output_tokens_emitted ('' @ to_string_nat (rs_output_tokens_emitted r) @
               '') exceeded max_output_tokens ('' @ to_string_nat (rs_max_output_tokens r) @ '')''\<rparr>] else []) @
     (if before (rs_first_token_at r) (rs_admitted_at r)
      then [\<lparr>iv_request_id = rs_id r, iv_description = ''first_token_at occurred before admitted_at''\<rparr>] else []) @
     (if before (rs_completed_at r) (rs_first_token_at r)
      then [\<lparr>iv_request_id = rs_id r, iv_description = ''completed_at occurred before first_token_at''\<rparr>] else []) @
     (if before (rs_completed_at r) (rs_admitted_at r)
      then [\<lparr>iv_request_id = rs_id r, iv_description = ''completed_at occurred before admitted_at''\<rparr>] else [])"

definition check_invariants :: "RequestSummary list \<Rightarrow> InvariantViolation list" where
  "check_invariants rs = concat (map check_request rs)"

section \<open>Latency\<close>

record LatencyStats =
  ttft_p50 :: rat
  ttft_p90 :: rat
  ttft_p99 :: rat
  ttft_min :: rat
  ttft_mean :: rat
  ttft_max :: rat
  e2e_p50 :: rat
  e2e_p90 :: rat
  e2e_p99 :: rat
  e2e_min :: rat
  e2e_mean :: rat
  e2e_max :: rat

text \<open>One milestone interval, when both ends were reached.\<close>

definition interval_ms :: "TimePoint option \<Rightarrow> TimePoint option \<Rightarrow> rat list" where
  "interval_ms from until = (case (from, until) of (Some a, Some b) \<Rightarrow> [to_ms (b - a)] | _ \<Rightarrow> [])"

record Distribution =
  ds_p50 :: rat
  ds_p90 :: rat
  ds_p99 :: rat
  ds_min :: rat
  ds_mean :: rat
  ds_max :: rat

text \<open>One of the two blocks that fill the statistics; \<open>stats{}\<close> starts at zero.\<close>

definition distribution :: "rat list \<Rightarrow> Distribution res" where
  "distribution values =
     (if values = [] then Inr \<lparr>ds_p50 = 0, ds_p90 = 0, ds_p99 = 0, ds_min = 0, ds_mean = 0, ds_max = 0\<rparr>
      else
        bnd (percentile values 50) (\<lambda>p50.
        bnd (percentile values 90) (\<lambda>p90.
        bnd (percentile values 99) (\<lambda>p99.
          Inr \<lparr>ds_p50 = p50, ds_p90 = p90, ds_p99 = p99, ds_min = hd values,
               ds_mean = rnd64 (foldl (\<lambda>a x. rnd64 (a + x)) 0 values / rnd64 (of_nat (length values))),
               ds_max = last values\<rparr>))))"

definition compute_latency_stats :: "RequestSummary list \<Rightarrow> LatencyStats res" where
  "compute_latency_stats rs =
     (let ttft_ms = sort (concat (map (\<lambda>r. interval_ms (rs_admitted_at r) (rs_first_token_at r)) rs));
          e2e_ms = sort (concat (map (\<lambda>r. interval_ms (rs_admitted_at r) (rs_completed_at r)) rs))
      in bnd (distribution ttft_ms) (\<lambda>t.
         bnd (distribution e2e_ms) (\<lambda>e.
           Inr \<lparr>ttft_p50 = ds_p50 t, ttft_p90 = ds_p90 t, ttft_p99 = ds_p99 t, ttft_min = ds_min t,
                ttft_mean = ds_mean t, ttft_max = ds_max t,
                e2e_p50 = ds_p50 e, e2e_p90 = ds_p90 e, e2e_p99 = ds_p99 e, e2e_min = ds_min e,
                e2e_mean = ds_mean e, e2e_max = ds_max e\<rparr>)))"

section \<open>Throughput\<close>

record ThroughputStats =
  throughput_tokens_per_sec :: rat
  goodput_tokens_per_sec :: rat
  slo_attainment_rate :: rat

definition met_deadline :: "RequestSummary \<Rightarrow> bool" where
  "met_deadline r = (case rs_completed_at r of None \<Rightarrow> False | Some c \<Rightarrow> c \<le> rs_deadline_at r)"

text \<open>The second loop: (terminal_count, attaining_count, good_tokens).\<close>

fun judge :: "RequestSummary list \<Rightarrow> nat \<times> nat \<times> nat \<Rightarrow> nat \<times> nat \<times> nat" where
  "judge [] counts = counts"
| "judge (r # rs) (terminal_count, attaining_count, good_tokens) =
     judge rs
       (if \<not> is_terminal (rs_final_state r) then (terminal_count, attaining_count, good_tokens)
        else if met_deadline r
        then (terminal_count + 1, attaining_count + 1, good_tokens + rs_output_tokens_emitted r)
        else (terminal_count + 1, attaining_count, good_tokens))"

definition compute_throughput_stats :: "RequestSummary list \<Rightarrow> Duration \<Rightarrow> ThroughputStats" where
  "compute_throughput_stats rs sim_wall_time =
     (let wall_time_sec = rnd64 (rnd64 (of_int sim_wall_time) / 1000000000);
          total_tokens = sum_list (map rs_output_tokens_emitted rs);
          (terminal_count, attaining_count, good_tokens) = judge rs (0, 0, 0)
      in \<lparr>throughput_tokens_per_sec =
            (if wall_time_sec > 0 then rnd64 (rnd64 (of_nat total_tokens) / wall_time_sec) else 0),
          goodput_tokens_per_sec =
            (if wall_time_sec > 0 then rnd64 (rnd64 (of_nat good_tokens) / wall_time_sec) else 0),
          slo_attainment_rate =
            (if terminal_count > 0
             then rnd64 (rnd64 (of_nat attaining_count) / rnd64 (of_nat terminal_count)) else 0)\<rparr>)"

section \<open>Percentiles interpolate\<close>

definition rank_of :: "nat \<Rightarrow> rat \<Rightarrow> rat" where
  "rank_of n p = rnd64 (rnd64 (p / 100) * rnd64 (of_nat (n - 1)))"

definition weight_of :: "rat \<Rightarrow> rat" where
  "weight_of r = rnd64 (r - rnd64 (of_nat (nat \<lfloor>r\<rfloor>)))"

lemma rank_bounds:
  assumes "n \<le> 2 ^ 53" "0 \<le> p" "p \<le> 100" "0 < n"
  shows "0 \<le> rank_of n p" and "rank_of n p \<le> of_nat (n - 1)"
    and "nat \<lceil>rank_of n p\<rceil> < n" and "nat \<lfloor>rank_of n p\<rfloor> \<le> nat \<lceil>rank_of n p\<rceil>"
    and "nat \<lceil>rank_of n p\<rceil> \<le> nat \<lfloor>rank_of n p\<rfloor> + 1"
proof -
  have n: "rnd64 (of_nat (n - 1)) = of_nat (n - 1)" using assms(1) by (intro double.rnd_nat) linarith
  have f: "0 \<le> rnd64 (p / 100)" "rnd64 (p / 100) \<le> 1"
    using assms(2,3) by (auto intro: double.rnd_nonneg double.rnd_le_1)
  show nn: "0 \<le> rank_of n p" unfolding rank_of_def n using f by (intro double.rnd_nonneg) simp
  show le: "rank_of n p \<le> of_nat (n - 1)"
    unfolding rank_of_def n using f by (intro double.rnd_below [OF n] mult_left_le_one_le) auto
  have "\<lceil>rank_of n p\<rceil> \<le> int (n - 1)" using le by (simp add: ceiling_le_iff)
  then show "nat \<lceil>rank_of n p\<rceil> < n" using assms(4) by linarith
  show "nat \<lfloor>rank_of n p\<rfloor> \<le> nat \<lceil>rank_of n p\<rceil>" by (simp add: nat_mono)
  have "0 \<le> \<lfloor>rank_of n p\<rfloor>" "\<lceil>rank_of n p\<rceil> \<le> \<lfloor>rank_of n p\<rfloor> + 1" using nn by (simp_all add: ceiling_le_iff) linarith
  then show "nat \<lceil>rank_of n p\<rceil> \<le> nat \<lfloor>rank_of n p\<rfloor> + 1" by linarith
qed

lemma rank_mono: "p \<le> q \<Longrightarrow> rank_of n p \<le> rank_of n q"
  unfolding rank_of_def
  by (intro double.rnd_mono mult_right_mono double.rnd_nonneg divide_right_mono) auto

lemma floor_exact:
  assumes "0 \<le> r" "r \<le> 2 ^ 53"
  shows "rnd64 (of_nat (nat \<lfloor>r\<rfloor>)) = of_int \<lfloor>r\<rfloor>"
proof -
  have "\<lfloor>r\<rfloor> \<le> 2 ^ 53" using assms(2) by (simp add: floor_le_iff)
  then show ?thesis using assms(1) double.rnd_int [of "\<lfloor>r\<rfloor>"] by simp
qed

lemma weight_bounds:
  assumes "n \<le> 2 ^ 53" "50 \<le> p" "p \<le> 99" "1 < n"
  shows "0 \<le> weight_of (rank_of n p)" and "weight_of (rank_of n p) \<le> 1 - 1 / 2 ^ 52"
proof -
  let ?r = "rank_of n p"
  have r: "0 \<le> ?r" "?r \<le> of_nat (n - 1)" using rank_bounds(1,2) [of n p] assms by auto
  have "(of_nat (n - 1) :: rat) \<le> of_nat (2 ^ 53)" unfolding of_nat_le_iff using assms(1) by linarith
  then have small: "?r \<le> 2 ^ 53" using r(2) by simp
  note fl = floor_exact [OF r(1) small]
  show "0 \<le> weight_of ?r" unfolding weight_of_def fl by (intro double.rnd_nonneg) simp
  have n: "rnd64 (of_nat (n - 1)) = of_nat (n - 1)" using assms(1) by (intro double.rnd_nat) linarith
  have half: "1 / 2 \<le> rnd64 (p / 100)"
    using assms(2) binary64.rnd_frac [of 1 1] by (intro double.rnd_above) auto
  have "?r - of_int \<lfloor>?r\<rfloor> \<le> 1 - 1 / 2 ^ 52"
  proof (cases "n = 2")
    case True
    have "rnd64 (p / 100) \<le> 1 - 1 / 2 ^ 52"
      using assms(3) by (intro double.rnd_below [OF binary64.below_one]) simp
    then have "?r \<le> 1 - 1 / 2 ^ 52" by (simp add: rank_of_def True double.rnd_idem)
    moreover have "(0 :: rat) \<le> of_int \<lfloor>?r\<rfloor>" using r(1) by simp
    ultimately show ?thesis by linarith
  next
    case False
    then have "2 \<le> n - 1" using assms(4) by linarith
    then have "(2 :: rat) \<le> of_nat (n - 1)" by (metis of_nat_le_iff of_nat_numeral)
    then have "1 / 2 * 2 \<le> rnd64 (p / 100) * of_nat (n - 1)" using half by (intro mult_mono) auto
    moreover have "(1 :: rat) = 1 / 2 * 2" by simp
    ultimately have "1 \<le> rnd64 (p / 100) * of_nat (n - 1)" by (simp only:)
    then show ?thesis unfolding rank_of_def n by (rule binary64.frac_gap)
  qed
  then show "weight_of ?r \<le> 1 - 1 / 2 ^ 52"
    unfolding weight_of_def fl by (intro double.rnd_below [OF binary64.below_one])
qed

text \<open>A list of doubles in ascending order.\<close>

definition double_list :: "rat list \<Rightarrow> bool" where
  "double_list xs \<longleftrightarrow> sorted xs \<and> (\<forall>x \<in> set xs. rnd64 x = x)"

lemma percentile_lerp:
  assumes "1 < length xs" "length xs \<le> 2 ^ 53" "0 \<le> p" "p \<le> 100"
  shows "percentile xs p =
    Inr (binary64.lerp (xs ! nat \<lfloor>rank_of (length xs) p\<rfloor>) (xs ! nat \<lceil>rank_of (length xs) p\<rceil>)
      (weight_of (rank_of (length xs) p)))"
proof -
  let ?r = "rank_of (length xs) p"
  have ne: "0 < length xs" using assms(1) by linarith
  note rb = rank_bounds [OF assms(2-4) ne]
  have i: "index_at xs (nat \<lfloor>?r\<rfloor>) = Inr (xs ! nat \<lfloor>?r\<rfloor>)" "index_at xs (nat \<lceil>?r\<rceil>) = Inr (xs ! nat \<lceil>?r\<rceil>)"
    using rb(3,4) by (auto simp: index_at_def)
  have c: "(length xs = 1) = False" "(xs = []) = False" "(?r < 0) = False" using assms(1) rb(1) by auto
  show ?thesis
    unfolding percentile_def Let_def rank_of_def [symmetric]
    by (simp only: c i if_False bnd_Inr binary64.lerp_def weight_of_def)
qed

lemma percentile_between:
  assumes "double_list xs" "1 < length xs" "length xs \<le> 2 ^ 53" "50 \<le> p" "p \<le> 99"
  shows "\<exists>v. percentile xs p = Inr v \<and>
    xs ! nat \<lfloor>rank_of (length xs) p\<rfloor> \<le> v \<and> v \<le> xs ! nat \<lceil>rank_of (length xs) p\<rceil>"
proof -
  let ?l = "nat \<lfloor>rank_of (length xs) p\<rfloor>" and ?u = "nat \<lceil>rank_of (length xs) p\<rceil>"
  have ne: "0 < length xs" using assms(2) by linarith
  have i: "?l \<le> ?u" "?u < length xs" using rank_bounds(3,4) [OF assms(3) _ _ ne] assms(4,5) by auto
  then have "xs ! ?l \<le> xs ! ?u" using assms(1) by (auto simp: double_list_def intro: sorted_nth_mono)
  moreover have "rnd64 (xs ! ?l) = xs ! ?l" "rnd64 (xs ! ?u) = xs ! ?u"
    using assms(1) i by (auto simp: double_list_def)
  ultimately show ?thesis
    using percentile_lerp [of xs p] weight_bounds [of "length xs" p] assms
    by (auto intro: binary64.lerp_ge binary64.lerp_le)
qed

lemma percentile_mono:
  assumes xs: "double_list xs" "1 < length xs" "length xs \<le> 2 ^ 53" and pq: "50 \<le> p" "p \<le> q" "q \<le> 99"
    and v: "percentile xs p = Inr v" "percentile xs q = Inr v'"
  shows "v \<le> v'"
proof -
  let ?r = "rank_of (length xs) p" and ?r' = "rank_of (length xs) q"
  have le: "?r \<le> ?r'" by (rule rank_mono [OF pq(2)])
  have ne: "0 < length xs" using xs(2) by linarith
  have b: "0 \<le> ?r" "nat \<lceil>?r\<rceil> \<le> nat \<lfloor>?r\<rfloor> + 1" "nat \<lfloor>?r'\<rfloor> < length xs"
    using rank_bounds [OF xs(3) _ _ ne, of p] rank_bounds [OF xs(3) _ _ ne, of q] pq by auto
  show ?thesis
  proof (cases "\<lfloor>?r\<rfloor> = \<lfloor>?r'\<rfloor>")
    case False
    then have "\<lfloor>?r\<rfloor> < \<lfloor>?r'\<rfloor>" using floor_mono [OF le] by linarith
    moreover have "0 \<le> \<lfloor>?r\<rfloor>" using b(1) by simp
    ultimately have "nat \<lceil>?r\<rceil> \<le> nat \<lfloor>?r'\<rfloor>" using b(2) by linarith
    then have "xs ! nat \<lceil>?r\<rceil> \<le> xs ! nat \<lfloor>?r'\<rfloor>"
      using xs(1) b(3) by (auto simp: double_list_def intro: sorted_nth_mono)
    then show ?thesis
      using percentile_between [OF xs, of p] percentile_between [OF xs, of q] pq v by auto
  next
    case True
    have lo: "xs ! nat \<lfloor>?r\<rfloor> \<le> v'" using percentile_between [OF xs, of q] pq v(2) True by auto
    show ?thesis
    proof (cases "\<lceil>?r\<rceil> = \<lfloor>?r\<rfloor>")
      case whole: True
      then show ?thesis using lo percentile_between [OF xs, of p] pq v(1) by auto
    next
      case False
      then have "\<lceil>?r'\<rceil> = \<lceil>?r\<rceil>" using True le by (simp add: ceiling_altdef split: if_splits) linarith
      moreover have "weight_of ?r \<le> weight_of ?r'"
        unfolding weight_of_def using le True by (intro double.rnd_mono) simp
      moreover have "xs ! nat \<lfloor>?r\<rfloor> \<le> xs ! nat \<lceil>?r\<rceil>"
        using percentile_between [OF xs, of p] pq by auto
      ultimately show ?thesis
        using percentile_lerp [of xs p] percentile_lerp [of xs q] xs pq v True
        by (auto intro: binary64.lerp_mono)
    qed
  qed
qed

section \<open>Properties\<close>

text \<open>A distribution of doubles is in order.\<close>

lemma distribution_ordered:
  assumes "double_list xs" "length xs \<le> 2 ^ 53"
  shows "ok (distribution xs) (\<lambda>d. ds_min d \<le> ds_p50 d \<and> ds_p50 d \<le> ds_p90 d \<and>
    ds_p90 d \<le> ds_p99 d \<and> ds_p99 d \<le> ds_max d \<and> (\<forall>x \<in> set xs. ds_min d \<le> x \<and> x \<le> ds_max d))"
proof (cases "1 < length xs")
  case False
  then consider "xs = []" | x where "xs = [x]" by (cases xs) auto
  then show ?thesis by cases (simp_all add: distribution_def percentile_def)
next
  case True
  then have ne: "0 < length xs" "xs \<noteq> []" by auto
  obtain v50 v90 v99 where v: "percentile xs 50 = Inr v50" "percentile xs 90 = Inr v90" "percentile xs 99 = Inr v99"
    using percentile_between [OF assms(1) True assms(2), of 50] percentile_between [OF assms(1) True assms(2), of 90]
      percentile_between [OF assms(1) True assms(2), of 99] by auto
  have ends: "hd xs \<le> xs ! i" "xs ! i \<le> last xs" if "i < length xs" for i
    using assms(1) that ne unfolding hd_conv_nth [OF ne(2)] last_conv_nth [OF ne(2)]
    by (auto simp: double_list_def intro!: sorted_nth_mono)
  have i: "nat \<lfloor>rank_of (length xs) 50\<rfloor> < length xs" "nat \<lceil>rank_of (length xs) 99\<rceil> < length xs"
    using rank_bounds(3,4) [OF assms(2) _ _ ne(1), of 50] rank_bounds(3) [OF assms(2) _ _ ne(1), of 99] by auto
  have "hd xs \<le> v50"
    using percentile_between [OF assms(1) True assms(2), of 50] v(1) ends(1) [OF i(1)] by auto
  moreover have "v99 \<le> last xs"
    using percentile_between [OF assms(1) True assms(2), of 99] v(3) ends(2) [OF i(2)] by auto
  moreover have "v50 \<le> v90" "v90 \<le> v99"
    using percentile_mono [OF assms(1) True assms(2) _ _ _ v(1,2)] percentile_mono [OF assms(1) True assms(2) _ _ _ v(2,3)]
    by simp_all
  ultimately show ?thesis using v ne ends by (auto simp: distribution_def in_set_conv_nth)
qed

lemma interval_double: "x \<in> set (interval_ms a b) \<Longrightarrow> rnd64 x = x"
  by (auto simp: interval_ms_def to_ms_def double.rnd_idem split: option.splits)

lemma intervals_length: "length (concat (map (\<lambda>r. interval_ms (f r) (g r)) rs)) \<le> length rs"
  by (induction rs) (auto simp: interval_ms_def split: option.splits)

lemma intervals_double:
  assumes "length rs \<le> 2 ^ 53"
  shows "double_list (sort (concat (map (\<lambda>r. interval_ms (f r) (g r)) rs)))"
    and "length (sort (concat (map (\<lambda>r. interval_ms (f r) (g r)) rs))) \<le> 2 ^ 53"
  using assms intervals_length [of f g rs] by (auto simp: double_list_def interval_double)

text \<open>
  C23 (latency statistics are in order). For any run of up to \<open>2^53\<close> requests, the latency
  statistics are computed without reading outside the sorted samples, and although every
  floating-point operation rounds, \<open>min \<le> p50 \<le> p90 \<le> p99 \<le> max\<close> holds for the time to first token
  and for the end-to-end latency, and every sample lies between the minimum and the maximum.
\<close>

theorem latency_stats_ordered:
  assumes "length rs \<le> 2 ^ 53"
  shows "\<exists>st. compute_latency_stats rs = Inr st \<and>
    ttft_min st \<le> ttft_p50 st \<and> ttft_p50 st \<le> ttft_p90 st \<and> ttft_p90 st \<le> ttft_p99 st \<and> ttft_p99 st \<le> ttft_max st \<and>
    e2e_min st \<le> e2e_p50 st \<and> e2e_p50 st \<le> e2e_p90 st \<and> e2e_p90 st \<le> e2e_p99 st \<and> e2e_p99 st \<le> e2e_max st \<and>
    (\<forall>r \<in> set rs. \<forall>a f. rs_admitted_at r = Some a \<and> rs_first_token_at r = Some f \<longrightarrow>
      ttft_min st \<le> to_ms (f - a) \<and> to_ms (f - a) \<le> ttft_max st) \<and>
    (\<forall>r \<in> set rs. \<forall>a c. rs_admitted_at r = Some a \<and> rs_completed_at r = Some c \<longrightarrow>
      e2e_min st \<le> to_ms (c - a) \<and> to_ms (c - a) \<le> e2e_max st)"
proof -
  let ?t = "sort (concat (map (\<lambda>r. interval_ms (rs_admitted_at r) (rs_first_token_at r)) rs))"
  let ?e = "sort (concat (map (\<lambda>r. interval_ms (rs_admitted_at r) (rs_completed_at r)) rs))"
  obtain t where t: "distribution ?t = Inr t" "ds_min t \<le> ds_p50 t" "ds_p50 t \<le> ds_p90 t"
    "ds_p90 t \<le> ds_p99 t" "ds_p99 t \<le> ds_max t" "\<forall>x \<in> set ?t. ds_min t \<le> x \<and> x \<le> ds_max t"
    using distribution_ordered [OF intervals_double [OF assms, of rs_admitted_at rs_first_token_at]] by (auto simp: ok_iff)
  obtain e where e: "distribution ?e = Inr e" "ds_min e \<le> ds_p50 e" "ds_p50 e \<le> ds_p90 e"
    "ds_p90 e \<le> ds_p99 e" "ds_p99 e \<le> ds_max e" "\<forall>x \<in> set ?e. ds_min e \<le> x \<and> x \<le> ds_max e"
    using distribution_ordered [OF intervals_double [OF assms, of rs_admitted_at rs_completed_at]] by (auto simp: ok_iff)
  have "\<forall>r \<in> set rs. \<forall>a f. rs_admitted_at r = Some a \<and> rs_first_token_at r = Some f \<longrightarrow>
      ds_min t \<le> to_ms (f - a) \<and> to_ms (f - a) \<le> ds_max t"
    using t(6) by (force simp: interval_ms_def)
  moreover have "\<forall>r \<in> set rs. \<forall>a c. rs_admitted_at r = Some a \<and> rs_completed_at r = Some c \<longrightarrow>
      ds_min e \<le> to_ms (c - a) \<and> to_ms (c - a) \<le> ds_max e"
    using e(6) by (force simp: interval_ms_def)
  ultimately show ?thesis
    using t(2-5) e(2-5) unfolding compute_latency_stats_def Let_def t(1) e(1) bnd_Inr by simp
qed

definition demo_summary :: "RequestId \<Rightarrow> TimePoint \<Rightarrow> TimePoint \<Rightarrow> RequestSummary" where
  "demo_summary i f c =
     \<lparr>rs_id = i, rs_final_state = kCompleted, rs_deadline_at = ms 20, rs_admitted_at = Some 0,
      rs_waiting_prefill_at = Some 0, rs_prefilling_at = Some 0, rs_waiting_decode_at = Some 0,
      rs_decoding_at = Some 0, rs_first_token_at = Some f, rs_completed_at = Some c,
      rs_output_tokens_emitted = 2, rs_max_output_tokens = 2\<rparr>"

definition demo_summaries :: "RequestSummary list" where
  "demo_summaries = [demo_summary ''a'' (ms 8) (ms 13), demo_summary ''b'' (ms 9) (ms 24)]"

theorem latency_stats_ordered_witness:
  "\<exists>st. compute_latency_stats demo_summaries = Inr st \<and> e2e_p50 st \<le> e2e_p99 st \<and> ttft_min st \<le> 8"
proof -
  have "length demo_summaries \<le> 2 ^ 53" by (simp add: demo_summaries_def)
  from latency_stats_ordered [OF this] obtain st where st: "compute_latency_stats demo_summaries = Inr st"
    "e2e_p50 st \<le> e2e_p99 st" "\<forall>r \<in> set demo_summaries. \<forall>a f. rs_admitted_at r = Some a \<and> rs_first_token_at r = Some f \<longrightarrow>
      ttft_min st \<le> to_ms (f - a) \<and> to_ms (f - a) \<le> ttft_max st"
    by fastforce
  moreover have "to_ms (ms 8 - 0) = 8" using whole_ms_exact(2) [of 8] by (simp add: ms_def)
  ultimately show ?thesis by (force simp: demo_summaries_def demo_summary_def)
qed

lemma judge_counts:
  "judge rs (t, a, g) =
     (t + length (filter (\<lambda>r. is_terminal (rs_final_state r)) rs),
      a + length (filter (\<lambda>r. is_terminal (rs_final_state r) \<and> met_deadline r) rs),
      g + sum_list (map rs_output_tokens_emitted (filter (\<lambda>r. is_terminal (rs_final_state r) \<and> met_deadline r) rs)))"
  by (induction rs arbitrary: t a g) auto

lemma filter_sum_le: "sum_list (map (f :: _ \<Rightarrow> nat) (filter P xs)) \<le> sum_list (map f xs)"
  by (induction xs) auto

lemma ratio_one_iff:
  assumes "a \<le> t" "0 < t" "t \<le> 2 ^ 53"
  shows "rnd64 (of_nat a / of_nat t) \<le> 1" and "rnd64 (of_nat a / of_nat t) = 1 \<longleftrightarrow> a = t"
proof -
  show "rnd64 (of_nat a / of_nat t) \<le> 1" using assms by (intro double.rnd_le_1) (simp add: divide_le_eq)
  show "rnd64 (of_nat a / of_nat t) = 1 \<longleftrightarrow> a = t"
  proof (cases "a = t")
    case True
    then show ?thesis using assms(2) by simp
  next
    case False
    have "(of_nat t :: rat) \<le> of_nat (2 ^ 53)" using assms(3) by (simp only: of_nat_le_iff)
    then have "(of_nat a + 1) * 2 ^ 53 \<le> (of_nat t :: rat) * 2 ^ 53" and t: "(of_nat t :: rat) \<le> 2 ^ 53"
      using False assms(1) by (simp_all add: Suc_leI flip: of_nat_Suc)
    then have "of_nat a * 2 ^ 53 \<le> (of_nat t :: rat) * (2 ^ 53 - 1)" by (simp add: algebra_simps)
    then have "of_nat a / of_nat t \<le> (2 ^ 53 - 1) / (2 ^ 53 :: rat)" using assms(2) by (simp add: divide_simps)
    also have "\<dots> = of_int (2 ^ 53 - 1) / 2 ^ 53" by simp
    finally have "rnd64 (of_nat a / of_nat t) \<le> of_int (2 ^ 53 - 1) / 2 ^ 53"
      by (intro double.rnd_below [OF binary64.rnd_frac]) auto
    then show ?thesis using False by auto
  qed
qed



lemma check_request_Nil:
  "check_request r = [] \<longleftrightarrow>
     is_terminal (rs_final_state r) \<and> rs_output_tokens_emitted r \<le> rs_max_output_tokens r \<and>
     \<not> before (rs_first_token_at r) (rs_admitted_at r) \<and> \<not> before (rs_completed_at r) (rs_first_token_at r) \<and>
     \<not> before (rs_completed_at r) (rs_admitted_at r)"
  by (auto simp: check_request_def)

text \<open>What the lifecycle invariant says of the milestones of a summary.\<close>

lemma lc_inv_not_before:
  assumes "lc_inv t l"
  shows "\<not> before (lc_first_token_at l) (lc_admitted_at l)" "\<not> before (lc_completed_at l) (lc_first_token_at l)"
    "\<not> before (lc_completed_at l) (lc_admitted_at l)"
proof -
  show "\<not> before (lc_first_token_at l) (lc_admitted_at l)" "\<not> before (lc_completed_at l) (lc_first_token_at l)"
    using lc_inv_milestones [OF assms] by (fastforce simp: before_def split: option.splits)+
  have "lc_history_inv l" "lc_marks_inv l" using assms by (auto simp: lc_inv_def)
  then show "\<not> before (lc_completed_at l) (lc_admitted_at l)"
    using lc_history_order [of l kAdmitted _ kCompleted]
    by (fastforce simp: before_def lc_marks_inv_def split: option.splits)
qed

lemma sim_inv_check:
  assumes st: "sim_inv dump trace ws [] st" "tracked (sm_scheduler st) = []"
  shows "length (fs_requests (sm_scheduler st)) = length ws"
    and "check_invariants (map summary_of (fs_requests (sm_scheduler st))) = []"
proof -
  show len: "length (fs_requests (sm_scheduler st)) = length ws"
    using st(1) by (auto simp: sim_inv_def dest: list_all2_lengthD)
  have "check_request (summary_of r) = []" if r: "r \<in> set (fs_requests (sm_scheduler st))" for r
  proof -
    obtain i where i: "i < length ws" "r = req_at (sm_scheduler st) i"
      using r len by (metis in_set_conv_nth req_at_def)
    have "req_inv (sim_now st) r" "is_terminal (req_state r)" using sim_inv_requests(3,4) [OF st i(1)] i(2) by auto
    then show ?thesis
      using lc_inv_not_before [of "sim_now st" "req_lifecycle r"]
      by (auto simp: check_request_Nil summary_of_def req_inv_def)
  qed
  then show "check_invariants (map summary_of (fs_requests (sm_scheduler st))) = []"
    by (auto simp: check_invariants_def)
qed

text \<open>
  C19 (a simulation passes its own check). The invariant check that ends a run finds no violation
  in the result of any simulation whose workload has distinct ids, positive budgets and arrivals
  the clock can reach.
\<close>

theorem simulation_passes_check:
  assumes "load (workload_path config) = Inr ws" "workload_fine ws"
    and "sum_list (map (\<lambda>w. wl_max_tokens w + 2) ws) + 1 \<le> fuel"
  shows "\<exists>result out. run_simulation load dump fuel config trace = Some (Inr (result, out)) \<and>
    length (requests result) = length ws \<and> check_invariants (requests result) = []"
proof -
  have fuel: "token_load ws + 1 \<le> fuel" using assms(3) by (simp add: token_load_def)
  obtain st where st: "sim_inv dump trace ws [] st" "tracked (sm_scheduler st) = []"
    and run: "run_simulation load dump fuel config trace =
       Some (Inr (\<lparr>tick_reports = sm_reports st, requests = map summary_of (fs_requests (sm_scheduler st))\<rparr>,
                  map_option (trace_text dump (sm_reports st)) trace))"
    by (rule run_simulation_ends [where load = load and config = config, OF assms(1,2) fuel])
  then show ?thesis using sim_inv_check [OF st] by auto
qed

theorem simulation_passes_check_witness:
  "\<exists>result out. run_simulation (\<lambda>_. Inr demo_workload) object_text 10 \<lparr>workload_path = ''w''\<rparr> None = Some (Inr (result, out)) \<and>
     length (requests result) = 2 \<and> check_invariants (requests result) = []"
proof -
  have "sum_list (map (\<lambda>w. wl_max_tokens w + 2) demo_workload) + 1 \<le> 10" by (simp add: demo_workload_def)
  moreover have "length demo_workload = 2" by (simp add: demo_workload_def)
  ultimately show ?thesis
    using simulation_passes_check [of "\<lambda>_. Inr demo_workload" "\<lparr>workload_path = ''w''\<rparr>", OF refl demo_workload_fine, of 10 object_text None]
    by simp
qed

text \<open>
  The check is exact. \<open>check_invariants\<close> reports nothing exactly when every request is
  terminal, within its budget, and has its milestones in order wherever both are present; what it
  reports names a request of the run.
\<close>

theorem check_invariants_exact:
  "(check_invariants rs = [] \<longleftrightarrow>
     (\<forall>r \<in> set rs. is_terminal (rs_final_state r) \<and> rs_output_tokens_emitted r \<le> rs_max_output_tokens r \<and>
        (\<forall>a f. rs_admitted_at r = Some a \<and> rs_first_token_at r = Some f \<longrightarrow> a \<le> f) \<and>
        (\<forall>f c. rs_first_token_at r = Some f \<and> rs_completed_at r = Some c \<longrightarrow> f \<le> c) \<and>
        (\<forall>a c. rs_admitted_at r = Some a \<and> rs_completed_at r = Some c \<longrightarrow> a \<le> c))) \<and>
   (\<forall>v \<in> set (check_invariants rs). iv_request_id v \<in> rs_id ` set rs)"
proof
  have "check_invariants rs = [] \<longleftrightarrow> (\<forall>r \<in> set rs. check_request r = [])"
    by (auto simp: check_invariants_def)
  then show "check_invariants rs = [] \<longleftrightarrow>
     (\<forall>r \<in> set rs. is_terminal (rs_final_state r) \<and> rs_output_tokens_emitted r \<le> rs_max_output_tokens r \<and>
        (\<forall>a f. rs_admitted_at r = Some a \<and> rs_first_token_at r = Some f \<longrightarrow> a \<le> f) \<and>
        (\<forall>f c. rs_first_token_at r = Some f \<and> rs_completed_at r = Some c \<longrightarrow> f \<le> c) \<and>
        (\<forall>a c. rs_admitted_at r = Some a \<and> rs_completed_at r = Some c \<longrightarrow> a \<le> c))"
    unfolding check_request_Nil before_def by (fastforce split: option.splits)
  show "\<forall>v \<in> set (check_invariants rs). iv_request_id v \<in> rs_id ` set rs"
    by (auto simp: check_invariants_def check_request_def split: if_splits)
qed

theorem check_invariants_exact_witness:
  "check_invariants demo_summaries = [] \<and>
   check_invariants [(demo_summary ''a'' (ms 8) (ms 7))] \<noteq> []"
  using check_invariants_exact [of demo_summaries] check_invariants_exact [of "[demo_summary ''a'' (ms 8) (ms 7)]"]
  by (simp add: demo_summaries_def demo_summary_def ms_def)

end
