(* ===== verification/Cli.thy ===== *)
theory Cli
  imports Analysis
begin

text \<open>
  The command line program, \<open>apps/tokamak/main.cpp\<close>: argument parsing, the optional trace file,
  the run, the printed report and the exit code. Standard output and standard error are the texts
  written to them. \<open>show_double\<close> is what \<open>operator<<\<close> prints for a \<open>double\<close> with the default
  format (six significant digits).
\<close>

section \<open>Numbers in the default stream format\<close>

function ilog10 :: "int \<Rightarrow> nat" where
  "ilog10 n = (if n < 10 then 0 else Suc (ilog10 (n div 10)))"
  by auto

termination by (relation "measure nat") auto

declare ilog10.simps [simp del]

text \<open>The decimal exponent of a positive number.\<close>

definition expo10 :: "rat \<Rightarrow> int" where
  "expo10 x =
     (case quotient_of x of (n, d) \<Rightarrow>
        let e = int (ilog10 n) - int (ilog10 d)
        in if 10 powi e \<le> x then e else e - 1)"

function decimal :: "int \<Rightarrow> string" where
  "decimal n = (if n < 10 then [char_of (48 + n)] else decimal (n div 10) @ [char_of (48 + n mod 10)])"
  by auto

termination by (relation "measure nat") auto

declare decimal.simps [simp del]

text \<open>An integral part and a fraction, with trailing zeros of the fraction dropped.\<close>

definition with_fraction :: "string \<Rightarrow> string \<Rightarrow> string" where
  "with_fraction ip fp =
     (let f = rev (dropWhile (\<lambda>c. c = CHR ''0'') (rev fp)) in if f = [] then ip else ip @ ''.'' @ f)"

definition show_positive :: "rat \<Rightarrow> string" where
  "show_positive x =
     (let e = expo10 x; m = half_even (x / 10 powi (e - 5));
          (m, e) = (if m = 1000000 then (100000, e + 1) else (m, e));
          ds = decimal m
      in if - 4 \<le> e \<and> e < 6
         then if 0 \<le> e then with_fraction (take (nat e + 1) ds) (drop (nat e + 1) ds)
              else with_fraction ''0'' (replicate (nat (- e) - 1) CHR ''0'' @ ds)
         else with_fraction (take 1 ds) (drop 1 ds) @ ''e'' @ (if e < 0 then ''-'' else ''+'') @
                (if \<bar>e\<bar> < 10 then ''0'' else []) @ decimal \<bar>e\<bar>)"

definition show_double :: "rat \<Rightarrow> string" where
  "show_double x =
     (if x = 0 then ''0'' else if x < 0 then ''-'' @ show_positive (- x) else show_positive x)"

section \<open>The report\<close>

text \<open>\<open>None\<close> is the NaN that stands for a milestone never reached.\<close>

definition duration_ms_or_nan :: "TimePoint option \<Rightarrow> TimePoint option \<Rightarrow> rat option" where
  "duration_ms_or_nan from until =
     (case (from, until) of (Some a, Some b) \<Rightarrow> Some (to_ms (b - a)) | _ \<Rightarrow> None)"

definition print_ms :: "string \<Rightarrow> rat option \<Rightarrow> string" where
  "print_ms label value_ms =
     ''    '' @ label @ '': '' @
     (case value_ms of None \<Rightarrow> ''N/A'' | Some v \<Rightarrow> show_double v @ ''ms'') @ ''\<newline>''"

definition print_usage :: "string \<Rightarrow> string" where
  "print_usage program_name = ''usage: '' @ program_name @ '' <workload.jsonl> [--trace-out <path>]\<newline>''"

definition request_text :: "RequestSummary \<Rightarrow> string" where
  "request_text r =
     ''  '' @ rs_id r @ '' ['' @ RequestState_to_string (rs_final_state r) @ '']\<newline>'' @
     print_ms ''queue_time'' (duration_ms_or_nan (rs_waiting_prefill_at r) (rs_prefilling_at r)) @
     print_ms ''prefill_time'' (duration_ms_or_nan (rs_prefilling_at r) (rs_waiting_decode_at r)) @
     print_ms ''decode_time'' (duration_ms_or_nan (rs_decoding_at r) (rs_completed_at r)) @
     print_ms ''ttft'' (duration_ms_or_nan (rs_admitted_at r) (rs_first_token_at r)) @
     print_ms ''e2e'' (duration_ms_or_nan (rs_admitted_at r) (rs_completed_at r))"

definition tick_text :: "nat \<Rightarrow> TickReport \<Rightarrow> string" where
  "tick_text i tr =
     ''  iter '' @ to_string_nat i @
     '': prefill_attempted='' @ to_string_nat (tr_prefill_attempted tr) @
     '' prefill_succeeded='' @ to_string_nat (tr_prefill_succeeded tr) @
     '' prefill_failed='' @ to_string_nat (tr_prefill_failed tr) @
     '' prefill_tokens='' @ to_string_nat (tr_prefill_tokens tr) @
     '' decode_attempted='' @ to_string_nat (tr_decode_attempted tr) @
     '' decode_tokens='' @ to_string_nat (tr_decode_tokens tr) @
     '' decode_completed='' @ to_string_nat (tr_decode_completed tr) @
     '' decode_failed='' @ to_string_nat (tr_decode_failed tr) @
     '' expired='' @ to_string_nat (tr_expired_count tr) @ ''\<newline>''"

definition latency_text :: "LatencyStats \<Rightarrow> string" where
  "latency_text l =
     ''\<newline>=== Latency (ms) ===\<newline>'' @
     ''  TTFT: p50='' @ show_double (ttft_p50 l) @ '' p90='' @ show_double (ttft_p90 l) @
     '' p99='' @ show_double (ttft_p99 l) @ '' min='' @ show_double (ttft_min l) @
     '' mean='' @ show_double (ttft_mean l) @ '' max='' @ show_double (ttft_max l) @ ''\<newline>'' @
     ''  E2E:  p50='' @ show_double (e2e_p50 l) @ '' p90='' @ show_double (e2e_p90 l) @
     '' p99='' @ show_double (e2e_p99 l) @ '' min='' @ show_double (e2e_min l) @
     '' mean='' @ show_double (e2e_mean l) @ '' max='' @ show_double (e2e_max l) @ ''\<newline>''"

definition sim_wall_time :: "TickReport list \<Rightarrow> Duration" where
  "sim_wall_time reports = (if reports = [] then 0 else tr_timestamp (last reports) - 0)"

definition throughput_text :: "ThroughputStats \<Rightarrow> string" where
  "throughput_text t =
     ''\<newline>=== Throughput ===\<newline>'' @
     ''  throughput: '' @ show_double (throughput_tokens_per_sec t) @ '' tok/s\<newline>'' @
     ''  goodput:    '' @ show_double (goodput_tokens_per_sec t) @ '' tok/s\<newline>'' @
     ''  SLO attainment: '' @ show_double (rnd64 (slo_attainment_rate t * 100)) @ ''%\<newline>''"

definition check_text :: "InvariantViolation list \<Rightarrow> string" where
  "check_text violations =
     ''\<newline>=== Invariant check ===\<newline>'' @
     (if violations = [] then ''  PASSED\<newline>''
      else ''  FAILED ('' @ to_string_nat (length violations) @ '' violation(s)):\<newline>'' @
           concat (map (\<lambda>v. ''    '' @ iv_request_id v @ '': '' @ iv_description v @ ''\<newline>'') violations))"

definition report_text :: "SimulationResult \<Rightarrow> string res" where
  "report_text result =
     bnd (compute_latency_stats (requests result)) (\<lambda>latency.
       Inr (''=== Per-request breakdown ===\<newline>'' @ concat (map request_text (requests result)) @
            ''\<newline>=== Batch composition per iteration ===\<newline>'' @
            concat (map (\<lambda>i. tick_text i (tick_reports result ! i)) [0..<length (tick_reports result)]) @
            latency_text latency @
            throughput_text (compute_throughput_stats (requests result) (sim_wall_time (tick_reports result))) @
            check_text (check_invariants (requests result))))"

section \<open>The program\<close>

record Process =
  pr_exit :: int
  pr_out :: string
  pr_err :: string
  pr_trace :: "(string \<times> string) option"

text \<open>The loop over the arguments after the workload; \<open>None\<close> is a usage error.\<close>

fun parse_args :: "string list \<Rightarrow> string option \<Rightarrow> string option option" where
  "parse_args [] trace_out_path = Some trace_out_path"
| "parse_args (arg # rest) trace_out_path =
     (if arg = ''--trace-out''
      then case rest of [] \<Rightarrow> None | path # rest \<Rightarrow> parse_args rest (Some path)
      else None)"

text \<open>
  \<open>main\<close> after the program's name; \<open>can_open\<close> tells which trace files can be opened. \<open>fuel\<close>
  bounds the simulation as in \<open>run_simulation\<close>.
\<close>

definition main_tokamak ::
  "(string \<Rightarrow> WorkloadRequest list res) \<Rightarrow> (json_object \<Rightarrow> string) \<Rightarrow> (string \<Rightarrow> bool) \<Rightarrow> nat \<Rightarrow>
   string \<Rightarrow> string list \<Rightarrow> Process res option" where
  "main_tokamak load dump can_open fuel program_name args =
     (let failed = (\<lambda>msg. Some (Inr \<lparr>pr_exit = 1, pr_out = [], pr_err = msg, pr_trace = None\<rparr>))
      in case args of
           [] \<Rightarrow> failed (print_usage program_name)
         | path # rest \<Rightarrow>
             (case parse_args rest None of
                None \<Rightarrow> failed (print_usage program_name)
              | Some trace_out_path \<Rightarrow>
                  if (case trace_out_path of None \<Rightarrow> False | Some t \<Rightarrow> \<not> can_open t)
                  then failed (''error: could not open trace output file: '' @ the trace_out_path @ ''\<newline>'')
                  else
                    map_option (\<lambda>r. bnd r (\<lambda>(result, out).
                      bnd (report_text result) (\<lambda>report.
                        Inr \<lparr>pr_exit = (if check_invariants (requests result) = [] then 0 else 1),
                             pr_out = report, pr_err = [],
                             pr_trace = (case trace_out_path of None \<Rightarrow> None
                               | Some t \<Rightarrow> map_option (Pair t) out)\<rparr>)))
                      (run_simulation load dump fuel \<lparr>workload_path = path\<rparr>
                        (map_option (\<lambda>_. []) trace_out_path))))"

section \<open>Properties\<close>

lemma report_text_returns:
  assumes "length (requests result) \<le> 2 ^ 53"
  shows "\<exists>pre. report_text result = Inr (pre @ check_text (check_invariants (requests result)))"
proof -
  have "ok (compute_latency_stats (requests result)) (\<lambda>_. True)"
    using distribution_ordered [OF intervals_double [OF assms, of rs_admitted_at rs_first_token_at]]
      distribution_ordered [OF intervals_double [OF assms, of rs_admitted_at rs_completed_at]]
    by (auto simp: compute_latency_stats_def Let_def ok_iff)
  then obtain l where "compute_latency_stats (requests result) = Inr l" by (auto simp: ok_iff)
  then show ?thesis by (simp add: report_text_def flip: append_assoc)
qed

lemma main_good_run:
  assumes "load path = Inr ws" "workload_fine ws" "length ws \<le> 2 ^ 53"
    and "sum_list (map (\<lambda>w. wl_max_tokens w + 2) ws) + 1 \<le> fuel"
    and "parse_args rest None = Some trace_out_path" "\<forall>t. trace_out_path = Some t \<longrightarrow> can_open t"
  shows "\<exists>pre result out.
    run_simulation load dump fuel \<lparr>workload_path = path\<rparr> (map_option (\<lambda>_. []) trace_out_path) = Some (Inr (result, out)) \<and>
    main_tokamak load dump can_open fuel program_name (path # rest) =
      Some (Inr \<lparr>pr_exit = 0, pr_out = pre @ ''\<newline>=== Invariant check ===\<newline>  PASSED\<newline>'', pr_err = [],
                  pr_trace = map_option (\<lambda>t. (t,
                    fold (trace_write dump) (map (\<lambda>i. make_trace_event (tick_reports result ! i) i ''fifo'' 0)
                      [0..<length (tick_reports result)]) [])) trace_out_path\<rparr>)"
proof -
  let ?cfg = "\<lparr>workload_path = path\<rparr>" and ?tr = "map_option (\<lambda>_. []) trace_out_path"
  have fuel: "token_load ws + 1 \<le> fuel" using assms(4) by (simp add: token_load_def)
  have load: "load (workload_path ?cfg) = Inr ws" using assms(1) by simp
  obtain st where st: "sim_inv dump ?tr ws [] st" "tracked (sm_scheduler st) = []"
    and run: "run_simulation load dump fuel ?cfg ?tr =
       Some (Inr (\<lparr>tick_reports = sm_reports st, requests = map summary_of (fs_requests (sm_scheduler st))\<rparr>,
                  map_option (trace_text dump (sm_reports st)) ?tr))"
    by (rule run_simulation_ends [where load = load and config = ?cfg, OF load assms(2) fuel])
  let ?res = "\<lparr>tick_reports = sm_reports st, requests = map summary_of (fs_requests (sm_scheduler st))\<rparr>"
  note chk = sim_inv_check [OF st]
  obtain pre where "report_text ?res = Inr (pre @ check_text [])"
    using report_text_returns [of ?res] chk assms(3) by auto
  then have "main_tokamak load dump can_open fuel program_name (path # rest) =
      Some (Inr \<lparr>pr_exit = 0, pr_out = pre @ ''\<newline>=== Invariant check ===\<newline>  PASSED\<newline>'', pr_err = [],
                  pr_trace = map_option (\<lambda>t. (t, trace_text dump (sm_reports st) [])) trace_out_path\<rparr>)"
    using run chk(2) assms(5,6)
    by (cases trace_out_path) (auto simp: main_tokamak_def Let_def check_text_def)
  then show ?thesis using run by (fastforce simp: trace_text_def)
qed

text \<open>
  A good workload exits with zero. Given a workload file with distinct ids, positive budgets
  and arrivals the clock can reach, of up to \<open>2^53\<close> requests, and arguments that parse, the
  program terminates with exit code 0, writes nothing to standard error, ends its report with the
  line PASSED, and, when a trace file was asked for and can be opened, leaves in it exactly the
  trace of the run.
\<close>

theorem main_good_workload:
  assumes "load path = Inr ws" "workload_fine ws" "length ws \<le> 2 ^ 53"
    and "sum_list (map (\<lambda>w. wl_max_tokens w + 2) ws) + 1 \<le> fuel"
    and "parse_args rest None = Some trace_out_path" "\<forall>t. trace_out_path = Some t \<longrightarrow> can_open t"
  shows "\<exists>pre result out.
    run_simulation load dump fuel \<lparr>workload_path = path\<rparr> (map_option (\<lambda>_. []) trace_out_path) = Some (Inr (result, out)) \<and>
    main_tokamak load dump can_open fuel program_name (path # rest) =
      Some (Inr \<lparr>pr_exit = 0, pr_out = pre @ ''\<newline>=== Invariant check ===\<newline>  PASSED\<newline>'', pr_err = [],
                  pr_trace = map_option (\<lambda>t. (t,
                    fold (trace_write dump) (map (\<lambda>i. make_trace_event (tick_reports result ! i) i ''fifo'' 0)
                      [0..<length (tick_reports result)]) [])) trace_out_path\<rparr>)"
  by (rule main_good_run [where load = load and path = path and can_open = can_open, OF assms])

theorem main_good_workload_witness:
  "\<exists>pre result out.
    run_simulation (\<lambda>_. Inr demo_workload) object_text 10 \<lparr>workload_path = ''w''\<rparr> (Some []) = Some (Inr (result, out)) \<and>
    main_tokamak (\<lambda>_. Inr demo_workload) object_text (\<lambda>t. t = ''t'') 10 ''tokamak'' [''w'', ''--trace-out'', ''t''] =
      Some (Inr \<lparr>pr_exit = 0, pr_out = pre @ ''\<newline>=== Invariant check ===\<newline>  PASSED\<newline>'', pr_err = [],
                  pr_trace = Some (''t'',
                    fold (trace_write object_text) (map (\<lambda>i. make_trace_event (tick_reports result ! i) i ''fifo'' 0)
                      [0..<length (tick_reports result)]) [])\<rparr>)"
proof -
  have "sum_list (map (\<lambda>w. wl_max_tokens w + 2) demo_workload) + 1 \<le> 10" "length demo_workload \<le> 2 ^ 53"
    by (simp_all add: demo_workload_def)
  moreover have "parse_args [''--trace-out'', ''t''] None = Some (Some ''t'')" by simp
  ultimately show ?thesis
    using main_good_workload [where load = "\<lambda>_. Inr demo_workload" and path = "''w''" and can_open = "\<lambda>t. t = ''t''"
        and rest = "[''--trace-out'', ''t'']" and trace_out_path = "Some ''t''" and dump = object_text and program_name = "''tokamak''",
        OF refl demo_workload_fine]
    by simp
qed

lemma parse_args_pairs:
  "parse_args (concat (map (\<lambda>p. [''--trace-out'', p]) paths)) acc = Some (if paths = [] then acc else Some (last paths))"
  by (induction paths arbitrary: acc) auto

lemma parse_args_Some:
  "parse_args rest acc = Some t \<Longrightarrow> \<exists>paths. rest = concat (map (\<lambda>p. [''--trace-out'', p]) paths)"
proof (induction rest acc rule: parse_args.induct)
  case (1 acc)
  then show ?case by (auto intro!: exI [of _ "[]"])
next
  case (2 arg rest acc)
  then obtain p rest' where "arg = ''--trace-out''" "rest = p # rest'" "parse_args rest' (Some p) = Some t"
    by (auto split: if_splits list.splits)
  moreover from this 2(1) obtain paths where "rest' = concat (map (\<lambda>p. [''--trace-out'', p]) paths)" by blast
  ultimately show ?case by (auto intro!: exI [of _ "p # paths"])
qed

text \<open>
  C31 (usage errors run nothing). The arguments after the workload are accepted exactly when they
  are pairs of \<open>--trace-out\<close> and a path, the last path wins; anything else, a missing workload or
  a trace file that cannot be opened ends the program with exit code 1 and a message on standard
  error before a workload is read: whatever the file holds, the outcome is the same.
\<close>

theorem main_usage_errors:
  "(parse_args rest None = Some t \<longleftrightarrow>
      (\<exists>paths. rest = concat (map (\<lambda>p. [''--trace-out'', p]) paths) \<and> t = (if paths = [] then None else Some (last paths)))) \<and>
   ((args = [] \<or> args = path # rest \<and> (parse_args rest None = None \<or> (\<exists>t. parse_args rest None = Some (Some t) \<and> \<not> can_open t))) \<longrightarrow>
     (\<exists>msg. msg \<noteq> [] \<and> (\<forall>load. main_tokamak load dump can_open fuel program_name args =
       Some (Inr \<lparr>pr_exit = 1, pr_out = [], pr_err = msg, pr_trace = None\<rparr>))))"
proof (intro conjI impI)
  show "parse_args rest None = Some t \<longleftrightarrow>
      (\<exists>paths. rest = concat (map (\<lambda>p. [''--trace-out'', p]) paths) \<and> t = (if paths = [] then None else Some (last paths)))"
    using parse_args_Some [of rest None t] parse_args_pairs [of _ None] by fastforce
  assume "args = [] \<or> args = path # rest \<and> (parse_args rest None = None \<or> (\<exists>t. parse_args rest None = Some (Some t) \<and> \<not> can_open t))"
  then show "\<exists>msg. msg \<noteq> [] \<and> (\<forall>load. main_tokamak load dump can_open fuel program_name args =
       Some (Inr \<lparr>pr_exit = 1, pr_out = [], pr_err = msg, pr_trace = None\<rparr>))"
    by (auto simp: main_tokamak_def print_usage_def Let_def)
qed

theorem main_usage_errors_witness:
  "\<exists>msg. \<forall>load. main_tokamak load object_text (\<lambda>_. True) 10 ''tokamak'' [''w'', ''--trace-out''] =
     Some (Inr \<lparr>pr_exit = 1, pr_out = [], pr_err = msg, pr_trace = None\<rparr>)"
proof -
  have "parse_args [''--trace-out''] None = None" by simp
  then show ?thesis
    using main_usage_errors [of "[''--trace-out'']" None "[''w'', ''--trace-out'']" "''w''" "\<lambda>_. True" object_text 10 "''tokamak''"]
    by blast
qed

text \<open>A long prefill at time zero, and a request that arrives one millisecond later with a deadline of 20 ms.\<close>

definition late_workload :: "WorkloadRequest list" where
  "late_workload =
     [\<lparr>wl_id = ''a'', wl_arrival_ms = 0, wl_prompt_token_ids = replicate 50 1, wl_max_tokens = 1, wl_deadline_ms = 1000\<rparr>,
      \<lparr>wl_id = ''b'', wl_arrival_ms = 1, wl_prompt_token_ids = [4], wl_max_tokens = 1, wl_deadline_ms = 20\<rparr>]"

definition late_result :: SimulationResult where
  "late_result = fst (projr (the (run_simulation (\<lambda>_. Inr late_workload) object_text 10 \<lparr>workload_path = ''w''\<rparr> None)))"



end
