(* ===== verification/Http_Server.thy ===== *)
theory Http_Server
  imports Prelude
begin

text \<open>
  The HTTP front end, \<open>include/tokamak/http/server.h\<close> and \<open>src/http/server.cpp\<close>: starting and
  stopping, the listener, one connection and the routes. The network library is third-party code.
  Its \<open>io_context\<close> is an argument of the operations (\<open>IoContext\<close>: what \<open>co_spawn\<close> and \<open>stop\<close> do
  to it, and whether a \<open>run()\<close> called on it now goes on serving); what the acceptor and a socket
  deliver is a list of events. A message carries the parts the source reads or sets.
\<close>

section \<open>Messages and routes\<close>

datatype verb = verb_get | verb_other string

record http_request =
  rq_method :: verb
  rq_target :: string
  rq_version :: nat
  rq_keep_alive :: bool

datatype status = http_ok | http_service_unavailable | http_not_found

record http_response =
  re_status :: status
  re_version :: nat
  re_body :: string
  re_content_type :: "string option"
  re_keep_alive :: "bool option"
  re_content_length :: "nat option"

text \<open>The lambda of \<open>route\<close>; fields not set yet are \<open>None\<close>.\<close>

definition make_response :: "http_request \<Rightarrow> status \<Rightarrow> string \<Rightarrow> http_response" where
  "make_response req st body =
     \<lparr>re_status = st, re_version = rq_version req, re_body = body, re_content_type = None,
      re_keep_alive = None, re_content_length = None\<rparr>"

definition route :: "bool \<Rightarrow> http_request \<Rightarrow> http_response" where
  "route ready req =
     (if rq_method req = verb_get \<and> rq_target req = ''/healthz''
      then make_response req http_ok ''{\"status\":\"ok\"}''
      else if rq_method req = verb_get \<and> rq_target req = ''/readyz''
      then if ready then make_response req http_ok ''{\"status\":\"ready\"}''
           else make_response req http_service_unavailable ''{\"status\":\"not_ready\"}''
      else make_response req http_not_found ''{\"error\":\"not_found\"}'')"

section \<open>A connection\<close>

text \<open>
  One turn of the loop of \<open>handle_connection\<close>: the read fails, or a request arrives, \<open>ready_\<close> has
  a value when it is routed, and the write of the response succeeds or fails.
\<close>

datatype conn_event = ReadFails | Exchange http_request bool bool

definition respond :: "bool \<Rightarrow> http_request \<Rightarrow> http_response" where
  "respond ready req =
     (let response = route ready req
      in response\<lparr>re_content_type := Some ''application/json'',
                  re_keep_alive := Some (rq_keep_alive req),
                  re_content_length := Some (length (re_body response))\<rparr>)"

text \<open>The responses handed to the socket, and whether it was shut down; without a further event the coroutine waits.\<close>

fun handle_connection :: "conn_event list \<Rightarrow> http_response list \<times> bool" where
  "handle_connection [] = ([], False)"
| "handle_connection (ReadFails # events) = ([], True)"
| "handle_connection (Exchange req ready write_ok # events) =
     (if \<not> write_ok \<or> \<not> rq_keep_alive req then ([respond ready req], True)
      else apfst ((#) (respond ready req)) (handle_connection events))"

section \<open>The server\<close>

record ServerConfig =
  sc_address :: string
  sc_port :: "16 word"
  sc_num_threads :: nat

definition ServerConfig_default :: ServerConfig where
  "ServerConfig_default = \<lparr>sc_address = ''0.0.0.0'', sc_port = 8080, sc_num_threads = 1\<rparr>"

record 'c IoContext =
  ioc_spawn :: "'c \<Rightarrow> 'c"
  ioc_stop :: "'c \<Rightarrow> 'c"
  ioc_serves :: "'c \<Rightarrow> bool"

text \<open>\<open>sv_threads\<close> has an entry per thread: whether its \<open>run()\<close> went on serving or returned at once.\<close>

record 'c Server =
  sv_config :: ServerConfig
  sv_ioc :: 'c
  sv_threads :: "bool list"
  sv_running :: bool
  sv_ready :: bool
  sv_bound_port :: "16 word"

definition Server_new :: "ServerConfig \<Rightarrow> 'c \<Rightarrow> 'c Server" where
  "Server_new config ioc =
     \<lparr>sv_config = config, sv_ioc = ioc, sv_threads = [], sv_running = False, sv_ready = True,
      sv_bound_port = 0\<rparr>"

definition server_start :: "'c IoContext \<Rightarrow> 'c Server \<Rightarrow> 'c Server" where
  "server_start io s =
     (if sv_running s then s
      else let ioc = ioc_spawn io (sv_ioc s)
           in s\<lparr>sv_running := True, sv_ioc := ioc,
                sv_threads := sv_threads s @ replicate (sc_num_threads (sv_config s)) (ioc_serves io ioc)\<rparr>)"

text \<open>Stopping the context makes every \<open>run()\<close> return; the threads are joined and forgotten.\<close>

definition server_stop :: "'c IoContext \<Rightarrow> 'c Server \<Rightarrow> 'c Server" where
  "server_stop io s =
     (if \<not> sv_running s then s
      else s\<lparr>sv_running := False, sv_ioc := ioc_stop io (sv_ioc s), sv_threads := []\<rparr>)"

definition server_destroy :: "'c IoContext \<Rightarrow> 'c Server \<Rightarrow> 'c Server" where
  "server_destroy io s = server_stop io s"

definition server_is_running :: "'c Server \<Rightarrow> bool" where
  "server_is_running s = sv_running s"

definition server_port :: "'c Server \<Rightarrow> 16 word" where
  "server_port s = sv_bound_port s"

definition set_ready :: "bool \<Rightarrow> 'c Server \<Rightarrow> 'c Server" where
  "set_ready ready s = s\<lparr>sv_ready := ready\<rparr>"

text \<open>
  The listener: once bound, the port the system chose is published; then each event is the value
  of \<open>running_\<close> at the loop test and what \<open>async_accept\<close> gave, \<open>None\<close> for an error. The result is
  the sockets handed to \<open>handle_connection\<close> and whether the coroutine has ended.
\<close>

definition listener_bound :: "16 word \<Rightarrow> 'c Server \<Rightarrow> 'c Server" where
  "listener_bound local_port s = s\<lparr>sv_bound_port := local_port\<rparr>"

fun listen_loop :: "(bool \<times> 'sock option) list \<Rightarrow> 'sock list \<times> bool" where
  "listen_loop [] = ([], False)"
| "listen_loop ((running, accepted) # events) =
     (if \<not> running then ([], True)
      else case accepted of
             None \<Rightarrow> ([], True)
           | Some socket \<Rightarrow> apfst ((#) socket) (listen_loop events))"

section \<open>Calls in any order\<close>

datatype server_op = Start | Stop | SetReady bool | Bound "16 word"

fun server_call :: "'c IoContext \<Rightarrow> server_op \<Rightarrow> 'c Server \<Rightarrow> 'c Server" where
  "server_call io Start s = server_start io s"
| "server_call io Stop s = server_stop io s"
| "server_call io (SetReady r) s = set_ready r s"
| "server_call io (Bound p) s = listener_bound p s"

lemmas server_op_defs = server_start_def server_stop_def set_ready_def listener_bound_def

lemma server_call_config [simp]: "sv_config (server_call io p s) = sv_config s"
  by (cases p) (simp_all add: server_op_defs Let_def)

lemma server_call_threads:
  assumes "length (sv_threads s) = (if sv_running s then sc_num_threads (sv_config s) else 0)"
  shows "length (sv_threads (server_call io p s)) =
      (if sv_running (server_call io p s) then sc_num_threads (sv_config s) else 0)"
  using assms by (cases p) (auto simp: server_op_defs Let_def split: if_splits)

lemma server_ops_threads:
  assumes "length (sv_threads s) = (if sv_running s then sc_num_threads (sv_config s) else 0)"
  shows "length (sv_threads (fold (server_call io) ops s)) =
      (if sv_running (fold (server_call io) ops s) then sc_num_threads (sv_config s) else 0)"
  using assms
proof (induction ops arbitrary: s)
  case (Cons p ops)
  then show ?case using server_call_threads [OF Cons.prems, of io p] Cons.IH [of "server_call io p s"] by simp
qed simp

text \<open>Whether the last of the calls that start or stop was a start.\<close>

fun last_start :: "server_op list \<Rightarrow> bool \<Rightarrow> bool" where
  "last_start [] b = b"
| "last_start (p # ops) b = last_start ops (case p of Start \<Rightarrow> True | Stop \<Rightarrow> False | _ \<Rightarrow> b)"

fun last_ready :: "server_op list \<Rightarrow> bool \<Rightarrow> bool" where
  "last_ready [] b = b"
| "last_ready (p # ops) b = last_ready ops (case p of SetReady r \<Rightarrow> r | _ \<Rightarrow> b)"

lemma server_ops_flags:
  "sv_running (fold (server_call io) ops s) = last_start ops (sv_running s) \<and>
   sv_ready (fold (server_call io) ops s) = last_ready ops (sv_ready s)"
proof (induction ops arbitrary: s)
  case (Cons p ops)
  show ?case using Cons.IH [of "server_call io p s"] by (cases p) (auto simp: server_op_defs Let_def)
qed simp

text \<open>A context that has stopped serving stays so, whatever is called.\<close>

lemma server_ops_dead:
  assumes "\<And>c. ioc_serves io (ioc_spawn io c) = ioc_serves io c" "\<And>c. \<not> ioc_serves io (ioc_stop io c)"
    and "\<not> ioc_serves io (sv_ioc s)" "True \<notin> set (sv_threads s)"
  shows "True \<notin> set (sv_threads (fold (server_call io) ops s))"
  using assms(3,4)
proof (induction ops arbitrary: s)
  case (Cons p ops)
  have "\<not> ioc_serves io (sv_ioc (server_call io p s))" "True \<notin> set (sv_threads (server_call io p s))"
    using Cons.prems assms(1,2) by (atomize (full), cases p) (auto simp: server_op_defs Let_def)
  then show ?case using Cons.IH by simp
qed simp

section \<open>Properties\<close>

text \<open>
  C32 (a connection answers in order). As long as requests arrive with keep-alive and writes
  succeed, each is answered in order by what its route says at that moment, as JSON, in the
  version of the request and with keep-alive kept; the first request without keep-alive or with
  a failing write is the last one answered, a failing read ends the connection without an answer,
  and nothing after that is read.
\<close>

theorem connection_answers_in_order:
  assumes "\<forall>(q, ready) \<in> set good. rq_keep_alive q"
  shows "handle_connection (map (\<lambda>(q, ready). Exchange q ready True) good) =
      (map (\<lambda>(q, ready). respond ready q) good, False) \<and>
    handle_connection (map (\<lambda>(q, ready). Exchange q ready True) good @ ReadFails # events) =
      (map (\<lambda>(q, ready). respond ready q) good, True) \<and>
    (\<not> rq_keep_alive q \<or> \<not> written \<longrightarrow>
      handle_connection (map (\<lambda>(q, ready). Exchange q ready True) good @ Exchange q ready written # events) =
        (map (\<lambda>(q, ready). respond ready q) good @ [respond ready q], True)) \<and>
    (re_status (respond ready q) = http_ok \<longleftrightarrow>
      rq_method q = verb_get \<and> (rq_target q = ''/healthz'' \<or> rq_target q = ''/readyz'' \<and> ready)) \<and>
    (re_status (respond ready q) = http_service_unavailable \<longleftrightarrow>
      rq_method q = verb_get \<and> rq_target q = ''/readyz'' \<and> \<not> ready) \<and>
    re_version (respond ready q) = rq_version q \<and> re_keep_alive (respond ready q) = Some (rq_keep_alive q) \<and>
    re_content_length (respond ready q) = Some (length (re_body (respond ready q)))"
proof -
  have "handle_connection (map (\<lambda>(q, ready). Exchange q ready True) good @ evs) =
    apfst ((@) (map (\<lambda>(q, ready). respond ready q) good)) (handle_connection evs)" for evs
    using assms by (induction good) (auto simp: apfst_def map_prod_def split: prod.splits)
  from this [of "[]"] this [of "ReadFails # events"] this [of "Exchange q ready written # events"]
  show ?thesis by (auto simp: respond_def route_def make_response_def)
qed

theorem connection_answers_in_order_witness:
  "handle_connection [Exchange \<lparr>rq_method = verb_get, rq_target = ''/readyz'', rq_version = 11, rq_keep_alive = True\<rparr> False True, ReadFails] =
     ([\<lparr>re_status = http_service_unavailable, re_version = 11, re_body = ''{\"status\":\"not_ready\"}'',
        re_content_type = Some ''application/json'', re_keep_alive = Some True, re_content_length = Some 22\<rparr>], True)"
proof -
  let ?q = "\<lparr>rq_method = verb_get, rq_target = ''/readyz'', rq_version = 11, rq_keep_alive = True\<rparr>"
  have "handle_connection (map (\<lambda>(q, ready). Exchange q ready True) [(?q, False)] @ ReadFails # []) =
      (map (\<lambda>(q, ready). respond ready q) [(?q, False)], True)"
    using connection_answers_in_order [of "[(?q, False)]"] by simp
  then show ?thesis by (simp add: respond_def route_def make_response_def)
qed

text \<open>
  C33 (start and stop pair up). After any sequence of \<open>start\<close>, \<open>stop\<close>, \<open>set_ready\<close> calls and
  bindings, the server is running exactly when the last of the starts and stops was a start, it
  then owns exactly \<open>num_threads\<close> threads however often it was started, otherwise none, and it
  reports the readiness that was set last, ready by default. Destroying it leaves no thread to join.
\<close>

theorem server_start_stop:
  "server_is_running (fold (server_call io) ops (Server_new config ioc)) = last_start ops False \<and>
   length (sv_threads (fold (server_call io) ops (Server_new config ioc))) =
     (if last_start ops False then sc_num_threads config else 0) \<and>
   sv_ready (fold (server_call io) ops (Server_new config ioc)) = last_ready ops True \<and>
   sv_threads (server_destroy io (fold (server_call io) ops (Server_new config ioc))) = []"
  using server_ops_threads [of "Server_new config ioc" io ops] server_ops_flags [of io ops "Server_new config ioc"]
  by (auto simp: Server_new_def server_is_running_def server_destroy_def server_stop_def)

text \<open>
  A restarted server serves nothing. When a context that was stopped no longer serves, as
  the library documents until it is restarted, and spawning on it does not change that, a server
  that has been started and stopped never serves again: a later \<open>start\<close> reports it as running with
  all its threads, but each thread's \<open>run()\<close> returns at once.
\<close>

theorem restarted_server_serves_nothing:
  assumes "\<And>c. ioc_serves io (ioc_spawn io c) = ioc_serves io c" "\<And>c. \<not> ioc_serves io (ioc_stop io c)"
  shows "True \<notin> set (sv_threads (fold (server_call io) ([Start, Stop] @ ops) (Server_new config ioc))) \<and>
    server_is_running (fold (server_call io) [Start, Stop, Start] (Server_new config ioc))"
  using server_ops_dead [of io, OF assms, of "server_stop io (server_start io (Server_new config ioc))" ops] assms(2)
  by (simp add: server_op_defs Server_new_def Let_def server_is_running_def)

theorem restarted_server_serves_nothing_witness:
  "sv_threads (fold (server_call \<lparr>ioc_spawn = id, ioc_stop = (\<lambda>_. False), ioc_serves = id\<rparr>) [Start]
     (Server_new ServerConfig_default True)) = [True] \<and>
   True \<notin> set (sv_threads (fold (server_call \<lparr>ioc_spawn = id, ioc_stop = (\<lambda>_. False), ioc_serves = id\<rparr>) ([Start, Stop] @ [Start])
     (Server_new ServerConfig_default True)))"
proof -
  have "True \<notin> set (sv_threads (fold (server_call \<lparr>ioc_spawn = id, ioc_stop = (\<lambda>_. False), ioc_serves = id\<rparr>) ([Start, Stop] @ [Start])
     (Server_new ServerConfig_default True)))"
    by (rule restarted_server_serves_nothing [THEN conjunct1]) simp_all
  then show ?thesis
    by (simp add: server_start_def Server_new_def ServerConfig_default_def)
qed

end
