(* ===== verification/Spec2Isabelle.thy ===== *)
theory Spec2Isabelle
  imports Engine_Drain Simulation_Exact Cli Http_Server
begin

text \<open>
  A verification development for Tokamak, an LLM-serving runtime: a request lifecycle, a FIFO
  continuous-batching scheduler over an abstract inference backend, an engine thread that streams
  tokens to its clients, an HTTP front end, and a command-line simulator with trace and analysis.

  \<^bold>\<open>The program and the theories.\<close> Paths are those of the repository, under \<open>src/\<close>.

  \<^item> \<open>Prelude\<close>: faults (panic, assert, \<open>out_of_range\<close>, undefined behaviour), the result type
    \<open>res\<close> with \<open>bnd\<close>, \<open>fold_res\<close>, \<open>map_res\<close>, the total-correctness predicate \<open>ok\<close>, lines and digits.
  \<^item> \<open>Clock\<close>: \<open>common/clock\<close>, \<open>common/panic\<close>. Time points and durations are counts of nanoseconds.
  \<^item> \<open>Lifecycle\<close>, \<open>Request\<close>: \<open>request/state\<close>, \<open>request/request\<close>. The state machine with its
    timestamps, deadline and token budget; a clock reading is an argument of each operation that
    reads the clock.
  \<^item> \<open>Backend\<close>: \<open>backend/backend.h\<close>, \<open>backend/error\<close>. The abstract class is a record of functions
    on a world; the locale \<open>backend_contract\<close> states what the scheduler relies on.
    \<open>Mock_Backend\<close>: \<open>backend/mock_backend\<close>, with 64-bit ids and 32-bit token counts, interpreted
    as an instance of the contract.
  \<^item> \<open>Scheduler\<close>: \<open>scheduler/fifo_scheduler\<close>, every operation, over any backend and clock.
    \<open>Scheduler_Inv\<close>, \<open>Scheduler_Ops\<close>: its invariant and what each operation does under the
    contract. \<open>Scheduler_Spec\<close>: an abstract FIFO line, the refinement, the locale \<open>backend_world\<close>
    for a world that moves between calls. \<open>Scheduler_Props\<close>: runs and their properties.
  \<^item> \<open>Token_Channel\<close>: \<open>http/token_channel\<close>, each operation atomic under the channel's mutex; a
    \<open>pop\<close> that would block is \<open>None\<close>. A locale for a bounded channel carries the FIFO laws.
  \<^item> \<open>Engine\<close>: \<open>http/engine\<close>, every operation, with a turn of \<open>Engine::run\<close> as one function; channels
    live in a store and are reached by pointer. \<open>Engine_Inv\<close>, \<open>Engine_Props\<close>: the locale
    \<open>engine_world\<close>, the invariant that ties the active table, the scheduler and the streams together,
    and \<open>caller_step\<close>, what network threads, consumers and the world may do.
    \<open>Engine_Thread\<close>: the engine thread as a program counter, one access to shared data per step,
    interleaved with \<open>caller_step\<close>; the invariant between any two steps, and the equality of a turn
    with its steps. \<open>Engine_Interleaving\<close>: the properties of those runs. \<open>Engine_Drain\<close>: delivery
    of every stream when the channels have room.
  \<^item> \<open>Double\<close>: binary64 rounding on rationals, with the laws the other theories use as the locales
    \<open>fp_rounding\<close> and \<open>fp_binary64\<close>; \<open>std::chrono\<close> conversions between doubles and nanoseconds.
  \<^item> \<open>Telemetry\<close>: \<open>telemetry/\<close>. \<open>Workload\<close>: \<open>apps/tokamak/workload\<close>. The JSON library, the file
    system and \<open>std::sort\<close> are arguments; \<open>std_sort\<close> states what the last one promises.
  \<^item> \<open>Simulation\<close>, \<open>Simulation_Props\<close>: \<open>apps/tokamak/simulation\<close>, the event loop, its invariant and
    its termination measure. \<open>Simulation_Exact\<close>: the fate of every request and the simulated time.
  \<^item> \<open>Analysis\<close>: \<open>apps/tokamak/analysis\<close>. \<open>Cli\<close>: \<open>apps/tokamak/main.cpp\<close>, from the arguments to the
    printed report and the exit code.
  \<^item> \<open>Http_Server\<close>: \<open>http/server\<close>. Boost's \<open>io_context\<close> is an argument; accepts, reads and writes
    are lists of events.

  \<^bold>\<open>State.\<close> A class is a record of its members, an operation a function from the old record to a
  result with the new one. \<open>FifoScheduler::requests_\<close> never shrinks, so a \<open>Request*\<close> is an index
  into it, and a \<open>TokenChannel*\<close> an address in the engine's store; following a bad one is a fault.

  \<^bold>\<open>What is proved.\<close> The scheduler's state stays consistent with the backend's (no dangling pointer,
  no leaked handle), no call of a client faults, service is first in first out, a tick serves
  everybody exactly once, deadlines and cancellations end exactly the requests they should, and
  ticks drain the scheduler. However its callers interleave, the engine thread never faults, every
  turn of its loop ends, and between any two of its steps each stream has carried exactly the tokens
  it should; given room, every stream is delivered to its end and closed. A simulation of a workload with distinct ids, positive budgets and arrivals the
  clock can reach ends within the sum of the budgets plus two per request plus one turns
  (\<open>sim_measure\<close> falls in every turn, so this fuel is enough), completes each request with exactly its
  budget unless its deadline passed, stays within a time computed from the workload, passes the
  program's own invariant check, and makes the program exit with zero; the last theorem below takes this from the text of
  the workload file to the exit code. The percentiles stay in order and within the
  samples although every operation rounds. Traces read back, workloads load sorted, the first bad
  line is the one reported.

  \<^bold>\<open>What modelling showed.\<close> A zero token budget panics a tick, a repeated id throws from a tick or
  leaks a sequence, an arrival such as 4.1 ms makes the simulation loop for ever, stopping the
  engine leaves its streams open, a cancellation that comes with its submission between the two drains
  of a turn is lost, a deadline missed by a slow reader is reported as \<open>kStop\<close>,
  deadlines count from submission instead of arrival, prefill time is reported as queue time, and
  a server that was stopped never serves again.

  \<^bold>\<open>Not modelled.\<close> \<open>SystemClock\<close> and \<open>steady_clock\<close> beyond the readings they give; how long the
  engine thread waits on its condition variable (the wait changes no state and is bounded by
  \<open>tick_interval\<close>); a \<open>start\<close> that overtakes the join of a \<open>stop\<close>; overflow of 64-bit nanosecond
  counts and of \<open>size_t\<close> counters (\<open>simulation_makespan\<close> bounds the times a simulation reaches); the
  exponent range, infinities and NaN of \<open>double\<close>; the internals of Boost, of the JSON library and of
  the file system; the set-up calls of the acceptor.
\<close>

section \<open>From the workload file to the exit code\<close>

lemma workload_fine_sort:
  assumes "std_sort srt"
  shows "workload_fine (srt ws) \<longleftrightarrow> workload_fine ws"
  using std_sort.sort_set [OF assms] std_sort.sort_distinct [OF assms, of wl_id] std_sort.sort_length [OF assms]
  by (simp add: workload_fine_def)

text \<open>
  C20 (the whole program on a good file). Let every line of the workload file be blank or a
  request, with distinct ids, positive budgets and arrivals the clock can reach, in any order of
  arrival, and let the sort be any that keeps its promise. Then the program loads the file, runs
  the simulation to its end, finds no violation of its invariants and exits with code 0 after a
  report that ends with PASSED.
\<close>

theorem workload_file_to_exit_code:
  assumes "std_sort srt" "read_file path = Some body"
    and "\<forall>l \<in> set (getlines body). l = [] \<or> line_request js l \<noteq> None"
    and "ws = map (the \<circ> line_request js) (filter (\<lambda>l. l \<noteq> []) (getlines body))"
    and "workload_fine ws" "length ws \<le> 2 ^ 53" "sum_list (map (\<lambda>w. wl_max_tokens w + 2) ws) + 1 \<le> fuel"
  shows "\<exists>pre. main_tokamak (load_workload read_file js srt) dump can_open fuel program_name [path] =
      Some (Inr \<lparr>pr_exit = 0, pr_out = pre @ ''\<newline>=== Invariant check ===\<newline>  PASSED\<newline>'', pr_err = [],
                  pr_trace = None\<rparr>)"
proof -
  have load: "load_workload read_file js srt path = Inr (srt ws)"
    using assms(2) read_loop_good [OF assms(3)] by (simp add: load_workload_def assms(4))
  have fine: "workload_fine (srt ws)" using assms(5) by (simp add: workload_fine_sort [OF assms(1)])
  have len: "length (srt ws) \<le> 2 ^ 53" using assms(6) std_sort.sort_length [OF assms(1)] by simp
  have fuel: "sum_list (map (\<lambda>w. wl_max_tokens w + 2) (srt ws)) + 1 \<le> fuel"
    using assms(7) std_sort.sort_sum [OF assms(1)] by simp
  have args: "parse_args [] None = Some None" "\<forall>t. None = Some t \<longrightarrow> can_open t" by simp_all
  show ?thesis
    using main_good_run [where load = "load_workload read_file js srt" and path = path and can_open = can_open,
      OF load fine len fuel args, of dump program_name] by auto
qed

theorem workload_file_to_exit_code_witness:
  "\<exists>pre. main_tokamak (load_workload (\<lambda>_. Some ''111\<newline>\<newline>1\<newline>'') toy_json by_arrival) object_text (\<lambda>_. False) 9 ''tokamak'' [''f''] =
      Some (Inr \<lparr>pr_exit = 0, pr_out = pre @ ''\<newline>=== Invariant check ===\<newline>  PASSED\<newline>'', pr_err = [],
                  pr_trace = None\<rparr>)"
proof -
  let ?ws = "map (the \<circ> line_request toy_json) (filter (\<lambda>l. l \<noteq> []) (getlines ''111\<newline>\<newline>1\<newline>''))"
  have good: "\<forall>l \<in> set (getlines ''111\<newline>\<newline>1\<newline>''). l = [] \<or> line_request toy_json l \<noteq> None" by code_simp
  have ws: "list_all entry_fine ?ws" "distinct (map wl_id ?ws)" "length ?ws = 2"
    "sum_list (map (\<lambda>w. wl_max_tokens w + 2) ?ws) = 8" by code_simp+
  then have "workload_fine ?ws" by (simp add: workload_fine_def list_all_iff)
  from workload_file_to_exit_code [OF arrival_sort.std_sort_axioms _ good refl this] show ?thesis
    using ws(3,4) by simp
qed

end
